(* ===== verification/Prelude.thy ===== *)
theory Prelude
  imports Main "HOL-Library.Word"
begin

text \<open>
  Shared vocabulary of the development: the machine types of the C sources, the kernel
  monad in which every operation of the kernel is written, the proof collections, and the
  generic lemmas on words and lists the component theories use.

  A kernel operation is a function from a state to an \<open>outcome\<close>. It returns a value and
  a new state (\<open>Done\<close>), it stops the machine with the message given to \<open>panic\<close>
  (\<open>Panic\<close>), it gives the processor away in \<open>sched\<close> (\<open>Switch\<close>, with the state
  the scheduler continues from), it loops without an end by itself, as on a lock that is
  held elsewhere (\<open>Spin\<close>), or it performs an access C leaves undefined, a null pointer
  dereference or an array index out of bounds (\<open>Fault\<close>).
\<close>

unbundle bit_operations_syntax

type_synonym uint8 = "8 word"
type_synonym uint16 = "16 word"
type_synonym uint32 = "32 word"

named_theorems kmonad
named_theorems layout
named_theorems frame

section \<open>The kernel monad\<close>

datatype ('a, 's) outcome = Done 'a 's | Panic string | Switch 's | Spin | Fault

type_synonym ('a, 's) kop = "'s \<Rightarrow> ('a, 's) outcome"

definition kret :: "'a \<Rightarrow> ('a, 's) kop" where
  "kret x = (\<lambda>s. Done x s)"

definition kbind :: "('a, 's) kop \<Rightarrow> ('a \<Rightarrow> ('b, 's) kop) \<Rightarrow> ('b, 's) kop" where
  "kbind m f = (\<lambda>s. case m s of
      Done x t \<Rightarrow> f x t
    | Panic e \<Rightarrow> Panic e
    | Switch t \<Rightarrow> Switch t
    | Spin \<Rightarrow> Spin
    | Fault \<Rightarrow> Fault)"

definition kseq :: "('a, 's) kop \<Rightarrow> ('b, 's) kop \<Rightarrow> ('b, 's) kop" where
  "kseq m n = kbind m (\<lambda>_. n)"

definition kpanic :: "string \<Rightarrow> ('a, 's) kop" where
  "kpanic e = (\<lambda>s. Panic e)"

definition kfault :: "('a, 's) kop" where
  "kfault = (\<lambda>s. Fault)"

definition kspin :: "('a, 's) kop" where
  "kspin = (\<lambda>s. Spin)"

definition kswitch :: "('a, 's) kop" where
  "kswitch = (\<lambda>s. Switch s)"

definition kget :: "('s \<Rightarrow> 'a) \<Rightarrow> ('a, 's) kop" where
  "kget f = (\<lambda>s. Done (f s) s)"

definition kmod :: "('s \<Rightarrow> 's) \<Rightarrow> (unit, 's) kop" where
  "kmod f = (\<lambda>s. Done () (f s))"

definition kwhen :: "bool \<Rightarrow> (unit, 's) kop \<Rightarrow> (unit, 's) kop" where
  "kwhen b m = (if b then m else kret ())"

definition kassert :: "bool \<Rightarrow> string \<Rightarrow> (unit, 's) kop" where
  "kassert b e = (if b then kret () else kpanic e)"

fun krep :: "nat \<Rightarrow> (unit, 's) kop \<Rightarrow> (unit, 's) kop" where
  "krep 0 m = kret ()"
| "krep (Suc n) m = kseq m (krep n m)"

lemma kret_run [kmonad, simp]: "kret x s = Done x s"
  by (simp add: kret_def)

lemma kpanic_run [kmonad, simp]: "kpanic e s = Panic e"
  by (simp add: kpanic_def)

lemma kfault_run [kmonad, simp]: "kfault s = Fault"
  by (simp add: kfault_def)

lemma kspin_run [kmonad, simp]: "kspin s = Spin"
  by (simp add: kspin_def)

lemma kswitch_run [kmonad, simp]: "kswitch s = Switch s"
  by (simp add: kswitch_def)

lemma kget_run [kmonad, simp]: "kget f s = Done (f s) s"
  by (simp add: kget_def)

lemma kmod_run [kmonad, simp]: "kmod f s = Done () (f s)"
  by (simp add: kmod_def)

lemma kwhen_run [kmonad]: "kwhen b m s = (if b then m s else Done () s)"
  by (simp add: kwhen_def)

lemma kassert_run [kmonad]: "kassert b e s = (if b then Done () s else Panic e)"
  by (simp add: kassert_def)

lemma kbind_run [kmonad]:
  "kbind m f s = (case m s of Done x t \<Rightarrow> f x t | Panic e \<Rightarrow> Panic e | Switch t \<Rightarrow> Switch t | Spin \<Rightarrow> Spin
    | Fault \<Rightarrow> Fault)"
  by (simp add: kbind_def)

lemma kseq_run [kmonad]:
  "kseq m n s = (case m s of Done x t \<Rightarrow> n t | Panic e \<Rightarrow> Panic e | Switch t \<Rightarrow> Switch t | Spin \<Rightarrow> Spin
    | Fault \<Rightarrow> Fault)"
  by (simp add: kseq_def kbind_def)

lemma kbind_Done_iff:
  "kbind m f s = Done y u \<longleftrightarrow> (\<exists>x t. m s = Done x t \<and> f x t = Done y u)"
  by (simp add: kbind_def split: outcome.splits)

lemma kseq_Done_iff:
  "kseq m n s = Done y u \<longleftrightarrow> (\<exists>x t. m s = Done x t \<and> n t = Done y u)"
  by (simp add: kseq_def kbind_Done_iff)

lemma kbind_assoc: "kbind (kbind m f) g = kbind m (\<lambda>x. kbind (f x) g)"
  by (rule ext) (simp add: kbind_def split: outcome.splits)

lemma kbind_kret [simp]: "kbind m kret = m"
  by (rule ext) (simp add: kbind_def kret_def split: outcome.splits)

lemma kseq_assoc: "kseq (kseq m n) p = kseq m (kseq n p)"
  by (rule ext) (simp add: kseq_def kbind_def split: outcome.splits)

lemma krep_Suc_right: "kseq m (krep n m) = kseq (krep n m) m"
proof (induction n)
  case 0
  show ?case by (rule ext) (simp add: kmonad split: outcome.splits)
next
  case (Suc n)
  have "kseq m (krep (Suc n) m) = kseq m (kseq (krep n m) m)"
    using Suc by simp
  then show ?case by (simp add: kseq_assoc)
qed

lemma unat_bound32: "unat (w :: uint32) < 2 ^ 32"
  using unsigned_less [of w, where ?'a = nat] by simp

lemma unat_of_nat32: "k < 2 ^ 32 \<Longrightarrow> unat (of_nat k :: uint32) = k"
  by (simp add: unat_of_nat)

lemma of_nat_unat_sub: "unat b \<le> unat a \<Longrightarrow> unat (a - b :: 'a::len word) = unat a - unat b"
  by (simp add: unat_sub word_le_nat_alt)

lemma kret_kbind [simp]: "kbind (kret x) f = f x"
  by (rule ext) (simp add: kbind_def kret_def)

section \<open>First match in a table\<close>

fun find_from :: "('a \<Rightarrow> bool) \<Rightarrow> 'a list \<Rightarrow> nat \<Rightarrow> nat option" where
  "find_from P [] i = None"
| "find_from P (x # xs) i = (if P x then Some i else find_from P xs (Suc i))"

definition find_index :: "('a \<Rightarrow> bool) \<Rightarrow> 'a list \<Rightarrow> nat option" where
  "find_index P xs = find_from P xs 0"

lemma find_from_Some:
  "find_from P xs i = Some j \<Longrightarrow>
     i \<le> j \<and> j < i + length xs \<and> P (xs ! (j - i)) \<and> (\<forall>k < j - i. \<not> P (xs ! k))"
proof (induction xs arbitrary: i)
  case (Cons x xs)
  show ?case
  proof (cases "P x")
    case False
    then have j: "Suc i \<le> j" "j < Suc i + length xs" "P (xs ! (j - Suc i))"
      "\<forall>k < j - Suc i. \<not> P (xs ! k)"
      using Cons.IH [of "Suc i"] Cons.prems by auto
    then have "\<not> P ((x # xs) ! k)" if "k < j - i" for k
      using that False by (cases k) auto
    moreover have "(x # xs) ! (j - i) = xs ! (j - Suc i)" using j by (simp add: nth_Cons')
    ultimately show ?thesis using j by simp
  qed (use Cons.prems in auto)
qed simp

lemma find_from_None: "find_from P xs i = None \<longleftrightarrow> (\<forall>x \<in> set xs. \<not> P x)"
  by (induction xs arbitrary: i) auto

lemma find_index_Some:
  assumes "find_index P xs = Some j"
  shows "j < length xs" "P (xs ! j)" "k < j \<Longrightarrow> \<not> P (xs ! k)"
  using find_from_Some [of P xs 0 j] assms by (auto simp: find_index_def)

lemma find_index_None: "find_index P xs = None \<longleftrightarrow> (\<forall>x \<in> set xs. \<not> P x)"
  by (simp add: find_index_def find_from_None)

section \<open>Chains of pointers\<close>

text \<open>\<open>chain nx p xs\<close>: following \<open>nx\<close> from \<open>p\<close> visits exactly \<open>xs\<close> and ends at the null pointer.\<close>

fun chain :: "(uint32 \<Rightarrow> uint32) \<Rightarrow> uint32 \<Rightarrow> uint32 list \<Rightarrow> bool" where
  "chain nx p [] \<longleftrightarrow> p = 0"
| "chain nx p (x # xs) \<longleftrightarrow> p = x \<and> x \<noteq> 0 \<and> chain nx (nx x) xs"

lemma chain_cong: "(\<And>x. x \<in> set xs \<Longrightarrow> nx' x = nx x) \<Longrightarrow> chain nx' p xs = chain nx p xs"
  by (induction xs arbitrary: p) auto

lemma chain_nonzero: "chain nx p xs \<Longrightarrow> 0 \<notin> set xs"
  by (induction xs arbitrary: p) auto

lemma chain_unique: "chain nx p xs \<Longrightarrow> chain nx p ys \<Longrightarrow> xs = ys"
proof (induction xs arbitrary: p ys)
  case Nil
  then show ?case by (cases ys) auto
next
  case (Cons x xs)
  then show ?case by (cases ys) auto
qed

lemma chain_suffix: "chain nx p (xs @ ys) \<Longrightarrow> \<exists>q. chain nx q ys"
  by (induction xs arbitrary: p) auto

lemma chain_distinct: "chain nx p xs \<Longrightarrow> distinct xs"
proof (induction xs arbitrary: p)
  case (Cons x xs)
  have "x \<notin> set xs"
  proof
    assume "x \<in> set xs"
    then obtain as bs where xs: "xs = as @ x # bs" by (auto simp: in_set_conv_decomp)
    then obtain q where "chain nx q (x # bs)" using Cons.prems chain_suffix [of nx "nx x" as "x # bs"] by auto
    then have "chain nx (nx x) bs" by simp
    moreover have "chain nx (nx x) xs" using Cons.prems by simp
    ultimately have "bs = xs" by (rule chain_unique)
    then show False using xs by simp
  qed
  then show ?case using Cons by auto
qed simp

end
