(* ===== verification/Memory.thy ===== *)
theory Memory
  imports Prelude
begin

text \<open>
  Byte-addressed memory. Addresses are the 32-bit kernel virtual addresses the C code
  dereferences; every word, structure field and page the kernel keeps outside its static
  tables is read and written through \<open>load32\<close> and \<open>store32\<close> (little-endian, as on the
  x86) or byte by byte. \<open>mem_fill\<close> and \<open>mem_copy\<close> are the abstract meaning of
  \<open>memset\<close> and \<open>memmove\<close>; the theory Cstring shows that the loops of string.c compute them.
\<close>

type_synonym mem = "uint32 \<Rightarrow> uint8"

definition load32 :: "mem \<Rightarrow> uint32 \<Rightarrow> uint32" where
  "load32 m a = ucast (m a) OR push_bit 8 (ucast (m (a + 1)))
     OR push_bit 16 (ucast (m (a + 2))) OR push_bit 24 (ucast (m (a + 3)))"

definition store32 :: "mem \<Rightarrow> uint32 \<Rightarrow> uint32 \<Rightarrow> mem" where
  "store32 m a v = m(a := ucast v, a + 1 := ucast (drop_bit 8 v),
     a + 2 := ucast (drop_bit 16 v), a + 3 := ucast (drop_bit 24 v))"

definition in_range :: "uint32 \<Rightarrow> nat \<Rightarrow> uint32 \<Rightarrow> bool" where
  "in_range a n x \<longleftrightarrow> unat (x - a) < n"

definition mem_fill :: "mem \<Rightarrow> uint32 \<Rightarrow> nat \<Rightarrow> uint8 \<Rightarrow> mem" where
  "mem_fill m a n c = (\<lambda>x. if in_range a n x then c else m x)"

definition mem_copy :: "mem \<Rightarrow> uint32 \<Rightarrow> uint32 \<Rightarrow> nat \<Rightarrow> mem" where
  "mem_copy m dst src n = (\<lambda>x. if in_range dst n x then m (src + (x - dst)) else m x)"

fun store_bytes :: "mem \<Rightarrow> uint32 \<Rightarrow> uint8 list \<Rightarrow> mem" where
  "store_bytes m a [] = m"
| "store_bytes m a (b # bs) = store_bytes (m(a := b)) (a + 1) bs"

definition load_bytes :: "mem \<Rightarrow> uint32 \<Rightarrow> nat \<Rightarrow> uint8 list" where
  "load_bytes m a n = map (\<lambda>i. m (a + of_nat i)) [0..<n]"

definition aligned :: "nat \<Rightarrow> uint32 \<Rightarrow> bool" where
  "aligned n a \<longleftrightarrow> take_bit n a = 0"

lemma bytes_of_word:
  "ucast (ucast v :: uint8) OR push_bit 8 (ucast (ucast (drop_bit 8 v) :: uint8))
     OR push_bit 16 (ucast (ucast (drop_bit 16 v) :: uint8)) OR push_bit 24 (ucast (ucast (drop_bit 24 v) :: uint8)) = (v :: uint32)"
proof (rule bit_word_eqI)
  fix n assume "n < LENGTH(32)"
  then have "n < 32" by simp
  then consider "n < 8" | "8 \<le> n" "n < 16" | "16 \<le> n" "n < 24" | "24 \<le> n" "n < 32" by linarith
  then show "bit (ucast (ucast v :: uint8) OR push_bit 8 (ucast (ucast (drop_bit 8 v) :: uint8))
     OR push_bit 16 (ucast (ucast (drop_bit 16 v) :: uint8)) OR push_bit 24 (ucast (ucast (drop_bit 24 v) :: uint8)) :: uint32) n = bit v n"
    by cases (auto simp: bit_simps)
qed

lemma load32_store32_same [simp]: "load32 (store32 m a v) a = v"
  by (simp add: load32_def store32_def bytes_of_word)

lemma take_bit_small:
  fixes i :: "'a::len word"
  assumes "unat i < 2 ^ n" shows "take_bit n i = i"
  using assms by (simp add: word_unat_eq_iff unsigned_take_bit_eq take_bit_nat_eq_self)

lemma unat_take_bit_less: "unat (take_bit n (i::'a::len word)) < 2 ^ n"
  by (simp add: unsigned_take_bit_eq)

lemma aligned_add_or:
  assumes "aligned n a" "unat i < 2 ^ n" shows "a + i = a OR i"
proof (rule disjunctive_add)
  fix k
  have "bit i k \<Longrightarrow> k < n"
    using take_bit_small [OF assms(2)] bit_take_bit_iff [of n i k] by simp
  moreover have "k < n \<Longrightarrow> \<not> bit a k"
    using assms(1) bit_take_bit_iff [of n a k] by (simp add: aligned_def)
  ultimately show "\<not> bit a k \<or> \<not> bit i k" by blast
qed

lemma aligned_take_bit:
  assumes "aligned n a" "unat i < 2 ^ n" shows "take_bit n (a + i) = i"
  using assms by (simp add: aligned_add_or take_bit_or aligned_def take_bit_small)

lemma aligned_drop_bit:
  assumes "aligned n a" "unat i < 2 ^ n" shows "drop_bit n (a + i) = drop_bit n a"
proof -
  have "drop_bit n (take_bit n i) = 0"
    by (simp add: drop_bit_take_bit)
  then have "drop_bit n i = 0"
    using take_bit_small [OF assms(2)] by simp
  then show ?thesis using assms by (simp add: aligned_add_or drop_bit_or)
qed

lemma aligned_push_drop: "aligned n a \<Longrightarrow> push_bit n (drop_bit n a) = a"
  unfolding aligned_def using bits_ident [of n a] by simp

lemma aligned_add_eq_iff:
  assumes "aligned n a" "aligned n b" "unat i < 2 ^ n" "unat j < 2 ^ n"
  shows "a + i = b + j \<longleftrightarrow> a = b \<and> i = j"
proof
  assume eq: "a + i = b + j"
  have "i = j"
    using aligned_take_bit [OF assms(1,3)] aligned_take_bit [OF assms(2,4)] eq by simp
  with eq show "a = b \<and> i = j" by simp
qed simp

lemma load32_store32_aligned:
  assumes "aligned 2 a" "aligned 2 b" "a \<noteq> b"
  shows "load32 (store32 m a v) b = load32 m b"
proof -
  have ne: "b + j \<noteq> a + i" if "unat i < 4" "unat j < 4" for i j
    using aligned_add_eq_iff [OF assms(2,1), of j i] assms(3) that by auto
  from ne [of 0 0] ne [of 0 1] ne [of 0 2] ne [of 0 3] ne [of 1 0] ne [of 1 1] ne [of 1 2] ne [of 1 3]
     ne [of 2 0] ne [of 2 1] ne [of 2 2] ne [of 2 3] ne [of 3 0] ne [of 3 1] ne [of 3 2] ne [of 3 3]
  show ?thesis by (simp add: load32_def store32_def)
qed

lemma aligned_mono: "aligned n a \<Longrightarrow> k \<le> n \<Longrightarrow> aligned k a"
  unfolding aligned_def using take_bit_take_bit [of k n a] by (simp add: min_absorb1)

lemma aligned_iff_dvd: "aligned n a \<longleftrightarrow> 2 ^ n dvd unat a"
proof -
  have "aligned n a \<longleftrightarrow> unat (take_bit n a) = 0"
    by (simp add: aligned_def word_unat_eq_iff)
  moreover have "unat (take_bit n a) = unat a mod 2 ^ n"
    by (subst unsigned_take_bit_eq) (simp only: take_bit_eq_mod)
  ultimately show ?thesis
    by (simp only: mod_eq_0_iff_dvd)
qed

lemma aligned_plus:
  assumes "aligned n a" "aligned n b" "n \<le> 32" shows "aligned n (a + b)"
proof -
  have "(2::nat) ^ n dvd 2 ^ 32"
    using assms(3) by (rule le_imp_power_dvd)
  then show ?thesis
    using assms(1,2) by (simp add: aligned_iff_dvd unat_word_ariths dvd_mod)
qed

lemma aligned_0 [simp]: "aligned n 0" by (simp add: aligned_def)

lemma aligned_numeral [simp]: "aligned n (numeral k) \<longleftrightarrow> take_bit n (numeral k :: uint32) = 0"
  by (simp add: aligned_def)

lemma aligned_of_nat: "2 ^ n dvd k \<Longrightarrow> n \<le> 32 \<Longrightarrow> aligned n (of_nat k)"
  using le_imp_power_dvd [of n 32 "2::nat"]
  by (simp add: aligned_iff_dvd unat_of_nat dvd_mod del: power_dvd_imp_le)


section \<open>Address ranges\<close>

lemma in_range_0 [simp]: "\<not> in_range a 0 x"
  by (simp add: in_range_def)

lemma in_range_Suc: "n < 2 ^ 32 \<Longrightarrow> in_range a (Suc n) x \<longleftrightarrow> x = a \<or> in_range (a + 1) n x"
proof -
  assume n: "n < 2 ^ 32"
  show ?thesis
  proof (cases "x = a")
    case True
    then show ?thesis by (simp add: in_range_def)
  next
    case False
    then have "x - a \<noteq> 0" by simp
    then have "unat (x - a - 1) = unat (x - a) - 1" "unat (x - a) > 0"
      by (simp_all add: unat_minus_one unat_gt_0)
    then have "unat (x - (a + 1)) = unat (x - a) - 1" "unat (x - a) > 0"
      by (simp_all only: diff_diff_eq)
    then show ?thesis using False by (auto simp: in_range_def)
  qed
qed

lemma not_in_range_before: "k < 2 ^ 32 \<Longrightarrow> \<not> in_range (a + 1) k a"
  by (simp add: in_range_def unsigned_minus_1_eq_mask mask_eq_exp_minus_1)

lemma in_range_disj_pages:
  assumes "aligned n p" "aligned n q" "p \<noteq> q" "k \<le> 2 ^ n" "in_range p k x"
  shows "\<not> in_range q (2 ^ n) x"
proof
  assume q: "in_range q (2 ^ n) x"
  have "p + (x - p) = q + (x - q)" by simp
  moreover have "unat (x - p) < 2 ^ n" "unat (x - q) < 2 ^ n"
    using assms(4,5) q by (auto simp: in_range_def)
  ultimately show False
    using aligned_add_eq_iff [OF assms(1,2)] assms(3) by blast
qed

lemma mem_fill_apply: "mem_fill m a n c x = (if in_range a n x then c else m x)"
  by (simp add: mem_fill_def)

lemma mem_copy_apply: "mem_copy m d s n x = (if in_range d n x then m (s + (x - d)) else m x)"
  by (simp add: mem_copy_def)

text \<open>Writing one page leaves the words of the other pages alone.\<close>

lemma load32_cong:
  assumes "\<And>i. i < 4 \<Longrightarrow> m (a + of_nat i) = m' (a + of_nat i)"
  shows "load32 m a = load32 m' a"
  using assms [of 0] assms [of 1] assms [of 2] assms [of 3] by (simp add: load32_def)

lemma in_page_word:
  assumes "aligned 12 q" "unat off + 4 \<le> 4096" "i < 4"
  shows "in_range q 4096 (q + off + of_nat i)"
proof -
  have "unat (off + of_nat i :: uint32) = unat off + i"
    using assms(2,3) by (subst unat_word_ariths) (simp add: unat_of_nat)
  then show ?thesis using assms by (simp add: in_range_def add.assoc)
qed

lemma load32_page_cong:
  assumes "\<And>x. in_range q 4096 x \<Longrightarrow> m x = m' x" "aligned 12 q" "unat off + 4 \<le> 4096"
  shows "load32 m (q + off) = load32 m' (q + off)"
  by (rule load32_cong) (use assms in_page_word in auto)

lemma store32_apply:
  "store32 m a v x = (if in_range a 4 x then store32 m a v x else m x)"
proof -
  have "m x = store32 m a v x" if "\<not> in_range a 4 x"
  proof -
    have "x \<noteq> a" "x \<noteq> a + 1" "x \<noteq> a + 2" "x \<noteq> a + 3" using that by (auto simp: in_range_def)
    then show ?thesis by (simp add: store32_def)
  qed
  then show ?thesis by auto
qed

lemma store32_outside: "\<not> in_range a 4 x \<Longrightarrow> store32 m a v x = m x"
  by (subst store32_apply) simp

lemma in_page_field:
  assumes "aligned 12 q" "unat off + 4 \<le> 4096" "in_range (q + off) 4 x"
  shows "in_range q 4096 x"
proof -
  obtain i where i: "i < 4" "x = q + off + of_nat i"
    using assms(3) by (intro that [of "unat (x - (q + off))"]) (auto simp: in_range_def)
  then show ?thesis using in_page_word [OF assms(1,2) i(1)] by simp
qed

lemma page_disjoint:
  assumes "aligned 12 p" "aligned 12 q" "p \<noteq> q" "in_range p 4096 x"
  shows "\<not> in_range q 4096 x"
  using in_range_disj_pages [of 12 p q 4096 x] assms by simp

lemma load32_fill_page:
  assumes "aligned 12 p" "aligned 12 q" "p \<noteq> q" "unat off + 4 \<le> 4096"
  shows "load32 (mem_fill m p 4096 c) (q + off) = load32 m (q + off)"
  by (rule load32_page_cong [OF _ assms(2,4)])
     (use page_disjoint [OF assms(2,1)] assms(3) in \<open>auto simp: mem_fill_apply\<close>)

lemma load32_store_page:
  assumes "aligned 12 p" "aligned 12 q" "p \<noteq> q" "unat off + 4 \<le> 4096" "unat off' + 4 \<le> 4096"
  shows "load32 (store32 m (p + off') v) (q + off) = load32 m (q + off)"
  by (rule load32_page_cong [OF _ assms(2,4)])
     (use page_disjoint [OF assms(2,1)] assms(3) in_page_field [OF assms(1,5)] in \<open>auto intro!: store32_outside\<close>)

lemma mem_fill_0 [simp]: "mem_fill m a 0 c = m"
  by (simp add: mem_fill_def)

lemma mem_copy_0 [simp]: "mem_copy m d s 0 = m"
  by (simp add: mem_copy_def)

end
