(* ===== verification/Mmu.thy ===== *)
theory Mmu
  imports Memory
begin

text \<open>
  The constants and macros of types.h, param.h, memlayout.h and mmu.h: address layout, page
  geometry, page-table entry fields, segment and gate descriptors.
\<close>

section \<open>Layout constants\<close>

abbreviation (input) "EXTMEM \<equiv> 0x100000 :: uint32"
abbreviation (input) "PHYSTOP \<equiv> 0xE000000 :: uint32"
abbreviation (input) "DEVSPACE \<equiv> 0xFE000000 :: uint32"
abbreviation (input) "KERNBASE \<equiv> 0x80000000 :: uint32"
abbreviation (input) "KERNLINK \<equiv> 0x80100000 :: uint32"
abbreviation (input) "USERSTACKTOP \<equiv> 0x80000000 :: uint32"
abbreviation (input) "SLOT_USABLE \<equiv> 0xFFFFFFFF :: uint32"
abbreviation (input) "PGSIZE \<equiv> 4096 :: uint32"
abbreviation (input) "KSTACKSIZE \<equiv> 4096 :: uint32"

abbreviation (input) "PTE_P \<equiv> 0x001 :: uint32"
abbreviation (input) "PTE_W \<equiv> 0x002 :: uint32"
abbreviation (input) "PTE_U \<equiv> 0x004 :: uint32"
abbreviation (input) "PTE_PG \<equiv> 0x200 :: uint32"
abbreviation (input) "FL_IF \<equiv> 0x200 :: uint32"

definition V2P :: "uint32 \<Rightarrow> uint32" where
  "V2P a = a - KERNBASE"

definition P2V :: "uint32 \<Rightarrow> uint32" where
  "P2V a = a + KERNBASE"

section \<open>Page geometry\<close>

definition PDX :: "uint32 \<Rightarrow> uint32" where
  "PDX va = drop_bit 22 va AND 0x3FF"

definition PTX :: "uint32 \<Rightarrow> uint32" where
  "PTX va = drop_bit 12 va AND 0x3FF"

definition PGADDR :: "uint32 \<Rightarrow> uint32 \<Rightarrow> uint32 \<Rightarrow> uint32" where
  "PGADDR d t off = push_bit 22 d OR push_bit 12 t OR off"

definition PGROUNDUP :: "uint32 \<Rightarrow> uint32" where
  "PGROUNDUP sz = (sz + PGSIZE - 1) AND NOT (PGSIZE - 1)"

definition PGROUNDDOWN :: "uint32 \<Rightarrow> uint32" where
  "PGROUNDDOWN a = a AND NOT (PGSIZE - 1)"

definition PTE_ADDR :: "uint32 \<Rightarrow> uint32" where
  "PTE_ADDR pte = pte AND NOT 0xFFF"

definition PTE_FLAGS :: "uint32 \<Rightarrow> uint32" where
  "PTE_FLAGS pte = pte AND 0xFFF"

section \<open>Segment and gate descriptors\<close>

record segdesc =
  sd_lim_15_0 :: uint32
  sd_base_15_0 :: uint32
  sd_base_23_16 :: uint32
  sd_type :: uint32
  sd_s :: uint32
  sd_dpl :: uint32
  sd_p :: uint32
  sd_lim_19_16 :: uint32
  sd_avl :: uint32
  sd_rsv1 :: uint32
  sd_db :: uint32
  sd_g :: uint32
  sd_base_31_24 :: uint32

definition SEG :: "uint32 \<Rightarrow> uint32 \<Rightarrow> uint32 \<Rightarrow> uint32 \<Rightarrow> segdesc" where
  "SEG ty base lim dpl =
     \<lparr> sd_lim_15_0 = drop_bit 12 lim AND 0xFFFF, sd_base_15_0 = base AND 0xFFFF,
       sd_base_23_16 = drop_bit 16 base AND 0xFF, sd_type = ty, sd_s = 1, sd_dpl = dpl, sd_p = 1,
       sd_lim_19_16 = drop_bit 28 lim, sd_avl = 0, sd_rsv1 = 0, sd_db = 1, sd_g = 1,
       sd_base_31_24 = drop_bit 24 base \<rparr>"

definition SEG16 :: "uint32 \<Rightarrow> uint32 \<Rightarrow> uint32 \<Rightarrow> uint32 \<Rightarrow> segdesc" where
  "SEG16 ty base lim dpl =
     \<lparr> sd_lim_15_0 = lim AND 0xFFFF, sd_base_15_0 = base AND 0xFFFF,
       sd_base_23_16 = drop_bit 16 base AND 0xFF, sd_type = ty, sd_s = 1, sd_dpl = dpl, sd_p = 1,
       sd_lim_19_16 = drop_bit 16 lim, sd_avl = 0, sd_rsv1 = 0, sd_db = 1, sd_g = 0,
       sd_base_31_24 = drop_bit 24 base \<rparr>"

record gatedesc =
  gd_off_15_0 :: uint32
  gd_cs :: uint32
  gd_args :: uint32
  gd_rsv1 :: uint32
  gd_type :: uint32
  gd_s :: uint32
  gd_dpl :: uint32
  gd_p :: uint32
  gd_off_31_16 :: uint32

definition SETGATE :: "bool \<Rightarrow> uint32 \<Rightarrow> uint32 \<Rightarrow> uint32 \<Rightarrow> gatedesc" where
  "SETGATE istrap sel off d =
     \<lparr> gd_off_15_0 = off AND 0xFFFF, gd_cs = sel, gd_args = 0, gd_rsv1 = 0,
       gd_type = (if istrap then 0xF else 0xE), gd_s = 0, gd_dpl = d, gd_p = 1,
       gd_off_31_16 = drop_bit 16 off \<rparr>"

section \<open>Masks as bit operations\<close>

lemma and_mask12: "(a :: uint32) AND 0xFFF = take_bit 12 a"
  by (simp add: take_bit_eq_mask mask_eq_exp_minus_1)

lemma and_mask10: "(a :: uint32) AND 0x3FF = take_bit 10 a"
  by (simp add: take_bit_eq_mask mask_eq_exp_minus_1)

lemma and_not_mask12: "(a :: uint32) AND - 4096 = push_bit 12 (drop_bit 12 a)"
proof -
  have "(- 4096 :: uint32) = NOT (mask 12)" by (simp add: mask_eq_exp_minus_1)
  moreover have "a AND NOT (mask 12) = push_bit 12 (drop_bit 12 a)"
    by (rule bit_word_eqI) (auto simp: bit_simps)
  ultimately show ?thesis by metis
qed

lemma PGROUNDDOWN_eq: "PGROUNDDOWN a = push_bit 12 (drop_bit 12 a)"
  by (simp add: PGROUNDDOWN_def and_not_mask12)

lemma PTE_ADDR_eq: "PTE_ADDR a = push_bit 12 (drop_bit 12 a)"
  by (simp add: PTE_ADDR_def and_not_mask12)

lemma PTE_FLAGS_eq: "PTE_FLAGS a = take_bit 12 a"
  by (simp add: PTE_FLAGS_def and_mask12)

lemma PDX_eq: "PDX va = drop_bit 22 va"
  unfolding PDX_def and_mask10 by (rule bit_word_eqI) (auto simp: bit_simps dest: bit_imp_le_length)

lemma PTX_eq: "PTX va = take_bit 10 (drop_bit 12 va)"
  by (simp add: PTX_def and_mask10)

text \<open>A linear address is rebuilt from its page-directory index, page-table index and offset.\<close>

theorem PGADDR_split: "PGADDR (PDX va) (PTX va) (PTE_FLAGS va) = va"
proof (rule bit_word_eqI)
  fix n :: nat
  consider "n < 12" | "12 \<le> n" "n < 22" | "22 \<le> n" by linarith
  then show "bit (PGADDR (PDX va) (PTX va) (PTE_FLAGS va)) n = bit va n"
    unfolding PGADDR_def PDX_eq PTX_eq PTE_FLAGS_eq
    by cases (auto simp: bit_simps dest: bit_imp_le_length)
qed

lemma aligned_push_bit: "aligned 12 (push_bit 12 a)"
  unfolding aligned_def by (rule bit_word_eqI) (auto simp: bit_simps)

lemma aligned_PTE_ADDR [simp]: "aligned 12 (PTE_ADDR a)"
  by (simp add: PTE_ADDR_eq aligned_push_bit)

lemma aligned_PGROUNDDOWN [simp]: "aligned 12 (PGROUNDDOWN a)"
  by (simp add: PGROUNDDOWN_eq aligned_push_bit)

lemma aligned_PGROUNDUP [simp]: "aligned 12 (PGROUNDUP a)"
  by (simp add: PGROUNDUP_def and_not_mask12 aligned_push_bit)

lemma PTE_ADDR_aligned: "aligned 12 a \<Longrightarrow> unat i < 4096 \<Longrightarrow> PTE_ADDR (a + i) = a"
  by (simp add: PTE_ADDR_eq aligned_drop_bit aligned_push_drop)

lemma PTE_ADDR_or: "aligned 12 a \<Longrightarrow> unat i < 4096 \<Longrightarrow> PTE_ADDR (a OR i) = a"
  using PTE_ADDR_aligned [of a i] by (simp add: aligned_add_or)

lemma PTE_FLAGS_or: "aligned 12 a \<Longrightarrow> unat i < 4096 \<Longrightarrow> PTE_FLAGS (a OR i) = i"
  using aligned_take_bit [of 12 a i] by (simp add: aligned_add_or PTE_FLAGS_eq)

lemma V2P_P2V [simp]: "V2P (P2V a) = a"
  by (simp add: V2P_def P2V_def)

lemma P2V_V2P [simp]: "P2V (V2P a) = a"
  by (simp add: V2P_def P2V_def)

lemma aligned_P2V: "aligned 12 a \<Longrightarrow> aligned 12 (P2V a)"
  unfolding P2V_def by (rule aligned_plus) simp_all

lemma aligned_V2P: "aligned 12 a \<Longrightarrow> aligned 12 (V2P a)"
proof -
  assume "aligned 12 a"
  then have "aligned 12 (a + - KERNBASE)" by (rule aligned_plus) (simp_all add: aligned_def)
  then show ?thesis by (simp only: V2P_def diff_conv_add_uminus)
qed

lemma unat_page_split: "unat (PGROUNDDOWN a) = unat a - unat a mod 4096"
proof -
  have "unat (take_bit 12 a) = unat a mod 4096"
    by (subst unsigned_take_bit_eq) (simp add: take_bit_eq_mod)
  moreover have "PGROUNDDOWN a = a - take_bit 12 a"
    using bits_ident [of 12 a] by (simp add: PGROUNDDOWN_eq algebra_simps)
  moreover have "unat (take_bit 12 a) \<le> unat a"
    using calculation(1) by simp
  ultimately show ?thesis by (simp add: of_nat_unat_sub)
qed

lemma unat_PGROUNDUP:
  assumes "unat a \<le> 2 ^ 32 - 4096"
  shows "unat (PGROUNDUP a) = (unat a + 4095) div 4096 * 4096"
proof -
  have "PGROUNDUP a = PGROUNDDOWN (a + 4095)"
    by (simp add: PGROUNDUP_def PGROUNDDOWN_def add.commute)
  moreover have "unat (a + 4095) = unat a + 4095"
    using assms by (simp add: unat_word_ariths)
  ultimately show ?thesis
    by (simp add: unat_page_split minus_mod_eq_div_mult)
qed

lemma PGROUNDUP_bounds:
  assumes "unat a \<le> 2 ^ 32 - 4096"
  shows "aligned 12 (PGROUNDUP a)" "a \<le> PGROUNDUP a" "unat (PGROUNDUP a) < unat a + 4096"
  using unat_PGROUNDUP [OF assms] by (auto simp: word_le_nat_alt aligned_iff_dvd)

text \<open>\<open>PGROUNDUP\<close> gives the least page boundary at or above an address, for every address it
  does not wrap around on.\<close>

theorem PGROUNDUP_least:
  assumes "unat a \<le> 2 ^ 32 - 4096"
  shows "aligned 12 (PGROUNDUP a) \<and> a \<le> PGROUNDUP a
     \<and> (\<forall>b. aligned 12 b \<and> a \<le> b \<longrightarrow> PGROUNDUP a \<le> b)"
proof -
  have "PGROUNDUP a \<le> b" if b: "aligned 12 b" "a \<le> b" for b
  proof -
    obtain k where k: "unat b = 4096 * k" using b(1) by (auto simp: aligned_iff_dvd)
    then have "(unat a + 4095) div 4096 * 4096 \<le> unat b"
      using b(2) by (simp add: word_le_nat_alt)
    then show ?thesis by (simp add: word_le_nat_alt unat_PGROUNDUP [OF assms])
  qed
  then show ?thesis using PGROUNDUP_bounds [OF assms] by blast
qed

theorem PGROUNDUP_least_witness:
  "PGROUNDUP 0x1001 \<le> 0x2000 \<and> aligned 12 (PGROUNDUP 0x1001)"
  using PGROUNDUP_least [of "0x1001"] by auto

section \<open>Frames by page\<close>

text \<open>\<open>changes_only P m m'\<close>: the two memories differ at most inside the pages of \<open>P\<close>.\<close>

definition changes_only :: "uint32 set \<Rightarrow> mem \<Rightarrow> mem \<Rightarrow> bool" where
  "changes_only P m m' \<longleftrightarrow> (\<forall>x. PGROUNDDOWN x \<notin> P \<longrightarrow> m' x = m x)"

lemma PGROUNDDOWN_add:
  assumes "aligned 12 p" "unat off < 4096"
  shows "PGROUNDDOWN (p + off) = p"
proof -
  have "drop_bit 12 (p + off) = drop_bit 12 p" using aligned_drop_bit [of 12 p off] assms by simp
  then show ?thesis using aligned_push_drop [OF assms(1)] by (simp add: PGROUNDDOWN_eq)
qed

lemma in_page_iff:
  assumes "aligned 12 p"
  shows "in_range p 4096 x \<longleftrightarrow> PGROUNDDOWN x = p"
proof
  assume "in_range p 4096 x"
  then show "PGROUNDDOWN x = p" using PGROUNDDOWN_add [OF assms, of "x - p"] by (simp add: in_range_def)
next
  assume "PGROUNDDOWN x = p"
  then have "push_bit 12 (drop_bit 12 x) = p" by (simp add: PGROUNDDOWN_eq)
  then have "p + take_bit 12 x = x" using bits_ident [of 12 x] by simp
  then have "x - p = take_bit 12 x" by (metis add_diff_cancel_left')
  then show "in_range p 4096 x" using unat_take_bit_less [of 12 x] by (simp add: in_range_def)
qed

lemma changes_only_refl [intro, simp]: "changes_only P m m"
  by (simp add: changes_only_def)

lemma changes_only_trans:
  "changes_only P m m' \<Longrightarrow> changes_only Q m' m'' \<Longrightarrow> changes_only (P \<union> Q) m m''"
  by (simp add: changes_only_def)

lemma changes_only_mono: "changes_only P m m' \<Longrightarrow> P \<subseteq> Q \<Longrightarrow> changes_only Q m m'"
  by (auto simp: changes_only_def)

lemma changes_only_step:
  "changes_only P m m' \<Longrightarrow> changes_only P m' m'' \<Longrightarrow> changes_only P m m''"
  by (simp add: changes_only_def)

lemma changes_only_store32:
  assumes "aligned 12 p" "unat off + 4 \<le> 4096" "p \<in> P"
  shows "changes_only P m (store32 m (p + off) v)"
  unfolding changes_only_def
proof (intro allI impI)
  fix x assume "PGROUNDDOWN x \<notin> P"
  then have "\<not> in_range p 4096 x" using assms by (auto simp: in_page_iff)
  then show "store32 m (p + off) v x = m x"
    using in_page_field [OF assms(1,2)] by (intro store32_outside) blast
qed

lemma changes_only_fill:
  assumes "aligned 12 p" "p \<in> P" shows "changes_only P m (mem_fill m p 4096 c)"
  using assms by (auto simp: changes_only_def mem_fill_apply in_page_iff)

lemma changes_only_copy:
  assumes "aligned 12 p" "p \<in> P" shows "changes_only P m (mem_copy m p q 4096)"
  using assms by (auto simp: changes_only_def mem_copy_apply in_page_iff)

lemma changes_only_load32:
  assumes "changes_only P m m'" "aligned 12 q" "q \<notin> P" "unat off + 4 \<le> 4096"
  shows "load32 m' (q + off) = load32 m (q + off)"
  using assms by (intro load32_page_cong [OF _ assms(2,4)]) (auto simp: changes_only_def in_page_iff)

lemma changes_only_load32_0:
  assumes "changes_only P m m'" "aligned 12 q" "q \<notin> P"
  shows "load32 m' q = load32 m q"
  using changes_only_load32 [OF assms, of 0] by simp

end
