(* ===== verification/Spinlock.thy ===== *)
theory Spinlock
  imports Mmu
begin

text \<open>
  spinlock.c with \<open>mycpu\<close> of proc.c: the per-processor nesting of interrupt disabling and the
  spin locks. The state is the machine as one processor sees it: its own registers, the table
  of processors and the spin locks of the kernel. A lock taken by another processor is only
  released by that processor, so waiting for it is the outcome \<open>Spin\<close>.
\<close>

text \<open>The fields of the task state segment that the kernel sets, and \<open>struct cpu\<close>;
  \<open>ts_addr\<close> is the address of the processor's task state segment.\<close>

record taskstate =
  esp0 :: uint32
  ss0 :: uint32
  iomb :: uint32

record cpu =
  apicid :: uint8
  scheduler_ctx :: uint32
  ts :: taskstate
  ts_addr :: uint32
  gdt :: "segdesc list"
  started :: uint32
  ncli :: int
  intena :: uint32
  cpu_proc :: "nat option"

datatype lock_id =
    L_kmem | L_ptable | L_tickslock | L_ftable | L_icache | L_bcache | L_log | L_shrmem | L_ide | L_cons
  | L_pipe uint32 | L_inode nat | L_buf nat

record spinlock =
  sl_locked :: uint32
  sl_cpu :: "nat option"

record machine =
  cpus :: "cpu list"
  lapicid :: uint32
  eflags :: uint32
  cr2 :: uint32
  cr3 :: uint32
  tr :: uint32
  gdtr :: "(nat \<times> uint32) option"
  locks :: "lock_id \<Rightarrow> spinlock"
  kend :: uint32
  kdata :: uint32

section \<open>Operations\<close>

definition cli :: "(unit, 'a machine_scheme) kop" where
  "cli = kmod (\<lambda>s. s\<lparr>eflags := eflags s AND NOT FL_IF\<rparr>)"

definition sti :: "(unit, 'a machine_scheme) kop" where
  "sti = kmod (\<lambda>s. s\<lparr>eflags := eflags s OR FL_IF\<rparr>)"

fun find_cpu :: "uint32 \<Rightarrow> cpu list \<Rightarrow> nat \<Rightarrow> nat option" where
  "find_cpu a [] i = None"
| "find_cpu a (c # cs) i = (if ucast (apicid c) = a then Some i else find_cpu a cs (Suc i))"

definition mycpu :: "(nat, 'a machine_scheme) kop" where
  "mycpu = (\<lambda>s.
     if eflags s AND FL_IF \<noteq> 0 then Panic (''mycpu called with interrupts enabled'' @ [CHR 0x0A])
     else case find_cpu (lapicid s) (cpus s) 0 of
         Some i \<Rightarrow> Done i s
       | None \<Rightarrow> Panic (''unknown apicid'' @ [CHR 0x0A]))"

definition upd_cpu :: "nat \<Rightarrow> (cpu \<Rightarrow> cpu) \<Rightarrow> 'a machine_scheme \<Rightarrow> 'a machine_scheme" where
  "upd_cpu i f s = s\<lparr>cpus := (cpus s)[i := f (cpus s ! i)]\<rparr>"

definition upd_lock :: "lock_id \<Rightarrow> (spinlock \<Rightarrow> spinlock) \<Rightarrow> 'a machine_scheme \<Rightarrow> 'a machine_scheme" where
  "upd_lock l f s = s\<lparr>locks := (locks s)(l := f (locks s l))\<rparr>"

definition initlock :: "lock_id \<Rightarrow> (unit, 'a machine_scheme) kop" where
  "initlock l = kmod (upd_lock l (\<lambda>_. \<lparr>sl_locked = 0, sl_cpu = None\<rparr>))"

definition pushcli :: "(unit, 'a machine_scheme) kop" where
  "pushcli =
     kbind (kget eflags) (\<lambda>fl.
     kseq cli (
     kbind mycpu (\<lambda>c.
     kbind (kget (\<lambda>s. ncli (cpus s ! c))) (\<lambda>n.
     kseq (kwhen (n = 0) (kmod (upd_cpu c (\<lambda>cp. cp\<lparr>intena := fl AND FL_IF\<rparr>)))) (
     kmod (upd_cpu c (\<lambda>cp. cp\<lparr>ncli := ncli cp + 1\<rparr>)))))))"

definition popcli :: "(unit, 'a machine_scheme) kop" where
  "popcli =
     kbind (kget eflags) (\<lambda>fl.
     kseq (kassert (fl AND FL_IF = 0) ''popcli - interruptible'') (
     kbind mycpu (\<lambda>c.
     kseq (kmod (upd_cpu c (\<lambda>cp. cp\<lparr>ncli := ncli cp - 1\<rparr>))) (
     kbind (kget (\<lambda>s. cpus s ! c)) (\<lambda>cp.
     kseq (kassert (ncli cp \<ge> 0) ''popcli'') (
     kwhen (ncli cp = 0 \<and> intena cp \<noteq> 0) sti))))))"

definition holding :: "lock_id \<Rightarrow> (bool, 'a machine_scheme) kop" where
  "holding l =
     kbind (kget (\<lambda>s. locks s l)) (\<lambda>lk.
     if sl_locked lk \<noteq> 0 then kbind mycpu (\<lambda>c. kret (sl_cpu lk = Some c)) else kret False)"

definition xchg_lock :: "lock_id \<Rightarrow> (unit, 'a machine_scheme) kop" where
  "xchg_lock l = (\<lambda>s. if sl_locked (locks s l) \<noteq> 0 then Spin
     else Done () (upd_lock l (\<lambda>k. k\<lparr>sl_locked := 1\<rparr>) s))"

definition acquire :: "lock_id \<Rightarrow> (unit, 'a machine_scheme) kop" where
  "acquire l =
     kseq pushcli (
     kbind (holding l) (\<lambda>h.
     kseq (kassert (\<not> h) ''acquire'') (
     kseq (xchg_lock l) (
     kbind mycpu (\<lambda>c.
     kmod (upd_lock l (\<lambda>k. k\<lparr>sl_cpu := Some c\<rparr>)))))))"

definition release :: "lock_id \<Rightarrow> (unit, 'a machine_scheme) kop" where
  "release l =
     kbind (holding l) (\<lambda>h.
     kseq (kassert h ''release'') (
     kseq (kmod (upd_lock l (\<lambda>k. k\<lparr>sl_cpu := None\<rparr>))) (
     kseq (kmod (upd_lock l (\<lambda>k. k\<lparr>sl_locked := 0\<rparr>))) popcli)))"

section \<open>Critical sections\<close>

definition cpu_index :: "uint32 \<Rightarrow> cpu list \<Rightarrow> nat" where
  "cpu_index a cs = (case find_cpu a cs 0 of Some i \<Rightarrow> i | None \<Rightarrow> length cs)"

definition this_cpu :: "'a machine_scheme \<Rightarrow> nat" where
  "this_cpu s = cpu_index (lapicid s) (cpus s)"

definition cpu_ok :: "'a machine_scheme \<Rightarrow> bool" where
  "cpu_ok s \<longleftrightarrow> this_cpu s < length (cpus s) \<and>
     (let c = cpus s ! this_cpu s in
       ncli c = 0 \<and> intena c = eflags s AND FL_IF \<or> ncli c > 0 \<and> eflags s AND FL_IF = 0)"

definition lock_free :: "lock_id \<Rightarrow> 'a machine_scheme \<Rightarrow> bool" where
  "lock_free l s \<longleftrightarrow> locks s l = \<lparr>sl_locked = 0, sl_cpu = None\<rparr>"

definition lock_ok :: "lock_id \<Rightarrow> 'a machine_scheme \<Rightarrow> bool" where
  "lock_ok l s \<longleftrightarrow> cpu_ok s \<and> lock_free l s"

text \<open>The state right after \<open>acquire l\<close> has succeeded.\<close>

definition entered :: "lock_id \<Rightarrow> 'a machine_scheme \<Rightarrow> 'a machine_scheme" where
  "entered l s = (let i = this_cpu s; c = cpus s ! i in
     s\<lparr>eflags := eflags s AND NOT FL_IF,
       cpus := (cpus s)[i := c\<lparr>intena := if ncli c = 0 then eflags s AND FL_IF else intena c,
          ncli := ncli c + 1\<rparr>],
       locks := (locks s)(l := \<lparr>sl_locked = 1, sl_cpu = Some i\<rparr>)\<rparr>)"

lemma find_cpu_range: "find_cpu a cs i = Some j \<Longrightarrow> i \<le> j \<and> j < i + length cs \<and> ucast (apicid (cs ! (j - i))) = a"
proof (induction cs arbitrary: i)
  case (Cons c cs)
  show ?case
  proof (cases "ucast (apicid c) = a")
    case False
    then have "Suc i \<le> j \<and> j < Suc i + length cs \<and> ucast (apicid (cs ! (j - Suc i))) = a"
      using Cons.IH [of "Suc i"] Cons.prems by simp
    moreover then have "(c # cs) ! (j - i) = cs ! (j - Suc i)" by (simp add: nth_Cons' )
    ultimately show ?thesis by simp
  qed (use Cons.prems in auto)
qed simp

lemma find_cpu_update:
  "apicid c = apicid (cs ! i) \<Longrightarrow> find_cpu a (cs[i := c]) k = find_cpu a cs k"
proof (induction cs arbitrary: i k)
  case (Cons d cs)
  then show ?case by (cases i) auto
qed simp

lemma find_cpu_this:
  "this_cpu s < length (cpus s) \<Longrightarrow> find_cpu (lapicid s) (cpus s) 0 = Some (this_cpu s)"
  by (auto simp: this_cpu_def cpu_index_def split: option.splits)

lemma cpu_index_update [simp]:
  "apicid c = apicid (cs ! i) \<Longrightarrow> cpu_index a (cs[i := c]) = cpu_index a cs"
  by (simp add: cpu_index_def find_cpu_update split: option.split)

lemma if_cleared [simp]: "(x AND - 513) AND 512 = (0 :: uint32)"
  by (simp add: and.assoc)

lemma bit_512: "bit (512 :: int) n \<longleftrightarrow> n = 9"
  using bit_exp_iff [of 9 n, where ?'a = int] by simp

lemma bit_minus_513: "bit (- 513 :: int) n \<longleftrightarrow> n \<noteq> 9"
proof -
  have "(- 513 :: int) = NOT 512" by simp
  then show ?thesis
    by (simp only: bit_not_iff bit_512) simp
qed

lemma and_512_iff: "(x :: uint32) AND 512 = 0 \<longleftrightarrow> \<not> bit x 9"
  using and_exp_eq_0_iff_not_bit [of x 9] by simp

lemma if_restore: "(x :: uint32) AND 512 \<noteq> 0 \<Longrightarrow> x AND - 513 OR 512 = x"
  by (intro bit_word_eqI) (auto simp: bit_and_iff bit_or_iff bit_512 bit_minus_513 and_512_iff)

lemma if_clear_id: "(x :: uint32) AND 512 = 0 \<Longrightarrow> x AND - 513 = x"
  by (intro bit_word_eqI) (auto simp: bit_and_iff bit_or_iff bit_512 bit_minus_513 and_512_iff)

lemma cpu_intena_id: "intena c = x \<Longrightarrow> c\<lparr>intena := x\<rparr> = c"
  by simp

lemma mycpu_run:
  "eflags s AND 512 = 0 \<Longrightarrow> this_cpu s < length (cpus s) \<Longrightarrow> mycpu s = Done (this_cpu s) s"
  by (simp add: mycpu_def find_cpu_this)

lemma this_cpu_cong:
  "cpus t = cpus s \<Longrightarrow> lapicid t = lapicid s \<Longrightarrow> this_cpu t = this_cpu s"
  by (simp add: this_cpu_def)

lemma this_cpu_eflags [simp]: "this_cpu (s\<lparr>eflags := f\<rparr>) = this_cpu s"
  by (simp add: this_cpu_def)

lemma this_cpu_locks [simp]: "this_cpu (s\<lparr>locks := f\<rparr>) = this_cpu s"
  by (simp add: this_cpu_def)

lemma this_cpu_upd [simp]:
  "apicid c = apicid (cpus s ! i) \<Longrightarrow> this_cpu (s\<lparr>cpus := (cpus s)[i := c]\<rparr>) = this_cpu s"
  by (simp add: this_cpu_def)

lemma pushcli_run:
  assumes "this_cpu s < length (cpus s)"
  shows "pushcli s = Done () (let i = this_cpu s; c = cpus s ! i in
     s\<lparr>eflags := eflags s AND NOT FL_IF,
       cpus := (cpus s)[i := c\<lparr>intena := if ncli c = 0 then eflags s AND FL_IF else intena c,
          ncli := ncli c + 1\<rparr>]\<rparr>)"
  using assms
  by (simp add: pushcli_def cli_def kmonad mycpu_run upd_cpu_def Let_def this_cpu_def)

lemma acquire_entered:
  assumes "lock_ok l s"
  shows "acquire l s = Done () (entered l s)"
proof -
  let ?i = "this_cpu s"
  have i: "?i < length (cpus s)" and l: "locks s l = \<lparr>sl_locked = 0, sl_cpu = None\<rparr>"
    using assms by (auto simp: lock_ok_def cpu_ok_def lock_free_def)
  show ?thesis
    using i by (simp add: acquire_def kmonad pushcli_run holding_def xchg_lock_def upd_lock_def l
       mycpu_run entered_def Let_def this_cpu_def)
qed

lemma popcli_run:
  assumes "this_cpu s < length (cpus s)" "eflags s AND 512 = 0" "ncli (cpus s ! this_cpu s) \<ge> 1"
  shows "popcli s = Done () (let i = this_cpu s; c = cpus s ! i in
     s\<lparr>cpus := (cpus s)[i := c\<lparr>ncli := ncli c - 1\<rparr>],
       eflags := if ncli c = 1 \<and> intena c \<noteq> 0 then eflags s OR FL_IF else eflags s\<rparr>)"
  using assms
  by (simp add: popcli_def sti_def kmonad mycpu_run upd_cpu_def Let_def this_cpu_def)

lemma release_entered:
  assumes ok: "lock_ok l s"
    and t: "cpus t = cpus (entered l s)" "lapicid t = lapicid s"
      "eflags t = eflags (entered l s)" "locks t = locks (entered l s)"
  shows "release l t = Done () (t\<lparr>cpus := cpus s, eflags := eflags s, locks := locks s\<rparr>)"
proof -
  let ?i = "this_cpu s"
  have i: "?i < length (cpus s)" and l: "locks s l = \<lparr>sl_locked = 0, sl_cpu = None\<rparr>"
    using ok by (auto simp: lock_ok_def cpu_ok_def lock_free_def)
  have this_t: "this_cpu t = ?i"
    using t(1,2) by (simp add: this_cpu_def entered_def Let_def)
  have fl: "eflags t AND 512 = 0" using t(3) by (simp add: entered_def Let_def)
  have len: "length (cpus t) = length (cpus s)" using t(1) by (simp add: entered_def Let_def)
  have lk: "locks t l = \<lparr>sl_locked = 1, sl_cpu = Some ?i\<rparr>"
    using t(4) by (simp add: entered_def Let_def)
  have lks: "(locks t)(l := \<lparr>sl_locked = 0, sl_cpu = None\<rparr>) = locks s"
    using t(4) l by (auto simp: entered_def Let_def)
  have c: "cpus t ! ?i = (cpus s ! ?i)\<lparr>
      intena := if ncli (cpus s ! ?i) = 0 then eflags s AND FL_IF else intena (cpus s ! ?i),
      ncli := ncli (cpus s ! ?i) + 1\<rparr>"
    using t(1) i by (simp add: entered_def Let_def)
  have cpu: "ncli (cpus s ! ?i) = 0 \<and> intena (cpus s ! ?i) = eflags s AND 512
      \<or> ncli (cpus s ! ?i) > 0 \<and> eflags s AND 512 = 0"
    using ok by (simp add: lock_ok_def cpu_ok_def Let_def)
  have nn: "ncli (cpus s ! ?i) \<ge> 0" 
    using ok by (auto simp: lock_ok_def cpu_ok_def Let_def)
  let ?u = "t\<lparr>locks := locks s\<rparr>"
  have "release l t = popcli ?u"
    using i fl this_t len lks by (simp add: release_def holding_def kmonad lk mycpu_run upd_lock_def)
  also have "\<dots> = Done () (t\<lparr>cpus := cpus s, eflags := eflags s, locks := locks s\<rparr>)"
  proof -
    have "(cpus t)[?i := (cpus t ! ?i)\<lparr>ncli := ncli (cpus t ! ?i) - 1\<rparr>] = cpus s" 
      using t(1) i cpu by (auto simp: entered_def Let_def cpu_intena_id)
    moreover have "(if ncli (cpus t ! ?i) = 1 \<and> intena (cpus t ! ?i) \<noteq> 0 then eflags t OR FL_IF else eflags t) = eflags s"
      using t(3) c cpu by (auto simp: entered_def Let_def if_restore if_clear_id)
    moreover have "ncli (cpus t ! ?i) \<ge> 1" using c nn by simp
    ultimately show ?thesis
      using i fl this_t len by (subst popcli_run) (auto simp: Let_def split: if_splits)
  qed
  finally show ?thesis .
qed

lemma critical_section:
  assumes "lock_ok l s" "body (entered l s) = Done x t"
    "cpus t = cpus (entered l s)" "lapicid t = lapicid s"
    "eflags t = eflags (entered l s)" "locks t = locks (entered l s)"
  shows "kseq (acquire l) (kbind body (\<lambda>x. kseq (release l) (kret x))) s =
     Done x (t\<lparr>cpus := cpus s, eflags := eflags s, locks := locks s\<rparr>)"
  using assms by (simp add: kmonad acquire_entered release_entered)

text \<open>A body that changes the state by a function \<open>f\<close>, which neither looks at nor touches the
  processor and the locks, can be run atomically.\<close>

lemma locked_kmod:
  assumes "lock_ok l s"
    "cpus (f (entered l s)) = cpus (entered l s)" "lapicid (f (entered l s)) = lapicid s"
    "eflags (f (entered l s)) = eflags (entered l s)" "locks (f (entered l s)) = locks (entered l s)"
    "(f (entered l s))\<lparr>cpus := cpus s, eflags := eflags s, locks := locks s\<rparr> = f s"
  shows "kseq (acquire l) (kseq (kmod f) (release l)) s = Done () (f s)"
  using assms by (simp add: kmonad acquire_entered release_entered)

lemma this_cpu_entered [simp]: "this_cpu (entered l s) = this_cpu s"
  by (simp add: entered_def Let_def this_cpu_def)

lemma entered_cpu_ok:
  assumes "cpu_ok s" shows "cpu_ok (entered l s)"
  using assms by (auto simp: cpu_ok_def entered_def Let_def this_cpu_def)

lemma entered_lock_ok:
  assumes "lock_ok k s" "lock_ok l s" "k \<noteq> l" shows "lock_ok k (entered l s)"
  using assms entered_cpu_ok [of s l] by (simp add: lock_ok_def) (simp add: lock_free_def entered_def Let_def)

text \<open>Releasing the outer of two nested locks first leaves the state as if only the inner one had
  been taken.\<close>

lemma release_outer:
  assumes "lock_ok k s" "lock_ok l s" "k \<noteq> l"
  shows "release k (entered l (entered k s)) = Done () (entered l s)"
proof -
  let ?i = "this_cpu s" and ?t = "entered l (entered k s)"
  define c where "c = cpus s ! ?i"
  have i: "?i < length (cpus s)" using assms by (simp add: lock_ok_def cpu_ok_def)
  have nn: "0 \<le> ncli c" using assms by (auto simp: lock_ok_def cpu_ok_def Let_def c_def)
  have tht: "this_cpu ?t = ?i" by simp
  have free: "locks s k = \<lparr>sl_locked = 0, sl_cpu = None\<rparr>"
    using assms by (simp add: lock_ok_def lock_free_def)
  define d where "d = c\<lparr>intena := if ncli c = 0 then eflags s AND FL_IF else intena c\<rparr>"
  have t: "eflags ?t = eflags s AND NOT FL_IF" "cpus ?t = (cpus s)[?i := d\<lparr>ncli := ncli c + 2\<rparr>]"
    "locks ?t = (locks s)(k := \<lparr>sl_locked = 1, sl_cpu = Some ?i\<rparr>, l := \<lparr>sl_locked = 1, sl_cpu = Some ?i\<rparr>)"
    using i nn by (simp_all add: entered_def [of l] Let_def)
      (simp_all add: entered_def Let_def c_def d_def if_clear_id add.commute)
  have fl: "eflags ?t AND 512 = 0" by (simp add: t(1))
  have u: "entered l s = ?t\<lparr>locks := (locks s)(l := \<lparr>sl_locked = 1, sl_cpu = Some ?i\<rparr>),
      cpus := (cpus s)[?i := d\<lparr>ncli := ncli c + 1\<rparr>]\<rparr>"
    using i nn by (simp add: entered_def [of l] Let_def)
      (simp add: entered_def Let_def c_def d_def if_clear_id)
  have lk: "(locks ?t)(k := \<lparr>sl_locked = 0, sl_cpu = None\<rparr>) = (locks s)(l := \<lparr>sl_locked = 1, sl_cpu = Some ?i\<rparr>)"
    using assms(3) free by (auto simp: t)
  let ?v = "?t\<lparr>locks := (locks s)(l := \<lparr>sl_locked = 1, sl_cpu = Some ?i\<rparr>)\<rparr>"
  have "release k ?t = popcli ?v"
    using i assms(3) tht lk fl by (simp add: release_def holding_def kmonad mycpu_run upd_lock_def t(2,3))
  also have "\<dots> = Done () (entered l s)"
    unfolding u using i nn tht fl by (subst popcli_run) (simp_all add: t(2) Let_def add.commute)
  finally show ?thesis .
qed

lemma entered_machine [simp]:
  "lapicid (entered l s) = lapicid s" "cr2 (entered l s) = cr2 s" "cr3 (entered l s) = cr3 s"
  "tr (entered l s) = tr s" "gdtr (entered l s) = gdtr s" "kend (entered l s) = kend s" "kdata (entered l s) = kdata s"
  "machine.more (entered l s) = machine.more s"
  by (simp_all add: entered_def Let_def)

lemma acquire_self:
  assumes "this_cpu s < length (cpus s)" "sl_locked (locks s l) \<noteq> 0" "sl_cpu (locks s l) = Some (this_cpu s)"
  shows "acquire l s = Panic ''acquire''"
  using assms by (simp add: acquire_def kmonad pushcli_run Let_def holding_def mycpu_run this_cpu_def)

lemma acquire_other:
  assumes "this_cpu s < length (cpus s)" "sl_locked (locks s l) \<noteq> 0" "sl_cpu (locks s l) \<noteq> Some (this_cpu s)"
  shows "acquire l s = Spin"
  using assms by (simp add: acquire_def kmonad pushcli_run Let_def holding_def mycpu_run this_cpu_def xchg_lock_def)

lemma release_not_held:
  assumes "eflags s AND FL_IF = 0" "this_cpu s < length (cpus s)"
    "sl_locked (locks s l) = 0 \<or> sl_cpu (locks s l) \<noteq> Some (this_cpu s)"
  shows "release l s = Panic ''release''"
  using assms by (auto simp: release_def kmonad holding_def mycpu_run)

definition sample_cpu :: cpu where
  "sample_cpu = \<lparr>apicid = 0, scheduler_ctx = 0, ts = \<lparr>esp0 = 0, ss0 = 0, iomb = 0\<rparr>, ts_addr = 0x80108100,
     gdt = replicate 6 (SEG16 0 0 0 0), started = 1, ncli = 0, intena = 512, cpu_proc = Some 0\<rparr>"

definition sample_machine :: machine where
  "sample_machine = \<lparr>cpus = [sample_cpu], lapicid = 0, eflags = 512, cr2 = 0, cr3 = 0, tr = 0, gdtr = None,
     locks = (\<lambda>_. \<lparr>sl_locked = 0, sl_cpu = None\<rparr>)(L_log := \<lparr>sl_locked = 1, sl_cpu = Some 0\<rparr>),
     kend = 0x80110000, kdata = 0x80108000\<rparr>"

lemma sample_machine_ok: "cpu_ok sample_machine"
  by (simp add: cpu_ok_def this_cpu_def cpu_index_def sample_machine_def sample_cpu_def Let_def)

text \<open>C37. \<open>acquire\<close> has three outcomes: it takes a free lock with interrupts off, it panics when this
  processor already holds the lock, and it spins while another processor holds it.\<close>

theorem acquire_outcomes:
  assumes "cpu_ok s"
  shows "(lock_free l s \<longrightarrow> acquire l s = Done () (entered l s))
     \<and> (sl_locked (locks s l) \<noteq> 0 \<longrightarrow>
          acquire l s = (if sl_cpu (locks s l) = Some (this_cpu s) then Panic ''acquire'' else Spin))"
  using assms acquire_self [of s l] acquire_other [of s l] acquire_entered [of l s]
  by (auto simp: cpu_ok_def lock_ok_def)

theorem acquire_outcomes_witness:
  "acquire L_log sample_machine = Panic ''acquire'' \<and>
   acquire L_kmem sample_machine = Done () (entered L_kmem sample_machine)"
  using acquire_outcomes [OF sample_machine_ok, of L_log] acquire_outcomes [OF sample_machine_ok, of L_kmem]
  by (simp add: sample_machine_def lock_free_def this_cpu_def cpu_index_def sample_cpu_def)

lemma pushcli_popcli:
  assumes "cpu_ok s"
  shows "\<exists>t. pushcli s = Done () t \<and> cpu_ok t \<and> eflags t AND FL_IF = 0 \<and> popcli t = Done () s"
proof -
  let ?i = "this_cpu s"
  define c where "c = cpus s ! ?i"
  define d where "d = c\<lparr>intena := if ncli c = 0 then eflags s AND FL_IF else intena c, ncli := ncli c + 1\<rparr>"
  define t where "t = s\<lparr>eflags := eflags s AND NOT FL_IF, cpus := (cpus s)[?i := d]\<rparr>"
  have i: "?i < length (cpus s)" and
    ok: "ncli c = 0 \<and> intena c = eflags s AND 512 \<or> ncli c > 0 \<and> eflags s AND 512 = 0"
    using assms by (auto simp: cpu_ok_def c_def Let_def)
  have push: "pushcli s = Done () t"
    using i by (simp add: pushcli_run t_def d_def c_def Let_def)
  have th: "this_cpu t = ?i" by (simp add: t_def d_def c_def this_cpu_def)
  have ci: "cpus t ! ?i = d" "length (cpus t) = length (cpus s)" using i by (simp_all add: t_def)
  have fl: "eflags t AND 512 = 0" by (simp add: t_def)
  have "cpu_ok t"
    using i ok th ci fl by (auto simp: cpu_ok_def Let_def d_def)
  moreover have "popcli t = Done () s"
  proof -
    have "(cpus t)[?i := d\<lparr>ncli := ncli d - 1\<rparr>] = cpus s"
      using i ok by (auto simp: t_def d_def c_def cpu_intena_id)
    moreover have "(if ncli d = 1 \<and> intena d \<noteq> 0 then eflags t OR FL_IF else eflags t) = eflags s"
      using ok by (auto simp: t_def d_def if_restore if_clear_id)
    ultimately show ?thesis
      using i fl th ci ok by (subst popcli_run) (auto simp: Let_def d_def t_def)
  qed
  ultimately show ?thesis using push fl by auto
qed

text \<open>\<open>k\<close> calls of \<open>pushcli\<close> are undone by exactly \<open>k\<close> calls of \<open>popcli\<close>: the processor,
  its nesting depth and its interrupt flag are as before.\<close>

theorem pushcli_popcli_nesting:
  assumes "cpu_ok s"
  shows "kseq (krep k pushcli) (krep k popcli) s = Done () s"
  using assms
proof (induction k arbitrary: s)
  case (Suc k)
  obtain t where t: "pushcli s = Done () t" "cpu_ok t" "popcli t = Done () s"
    using pushcli_popcli [OF Suc.prems] by blast
  have "krep (Suc k) popcli = kseq (krep k popcli) (popcli :: (unit, 'a machine_scheme) kop)"
    by (simp add: krep_Suc_right)
  then have "kseq (krep (Suc k) pushcli) (krep (Suc k) popcli) s = kseq (kseq (krep k pushcli) (krep k popcli)) popcli t"
    using t(1) by (simp add: kseq_assoc) (simp add: kmonad)
  also have "\<dots> = Done () s"
    using Suc.IH [OF t(2)] t(3) by (simp add: kseq_run [of "kseq _ _"])
  finally show ?case .
qed (simp add: kmonad)

theorem pushcli_popcli_nesting_witness:
  "kseq (krep 3 pushcli) (krep 3 popcli) sample_machine = Done () sample_machine"
  by (rule pushcli_popcli_nesting [OF sample_machine_ok])

end
