(* ===== verification/Cstring.thy ===== *)
theory Cstring
  imports Memory "HOL-Library.Signed_Division"
begin

text \<open>
  The routines of string.c over byte memory, with the two string instructions of x86.h
  they use. Loops that count \<open>n\<close> down to zero are recursions on \<open>unat n\<close>; loops that
  search for a terminating zero byte are partial (\<open>None\<close> when there is none).
\<close>

section \<open>memset, memcmp, memmove\<close>

fun stosb :: "mem \<Rightarrow> uint32 \<Rightarrow> uint8 \<Rightarrow> nat \<Rightarrow> mem" where
  "stosb m a c 0 = m"
| "stosb m a c (Suc n) = stosb (m(a := c)) (a + 1) c n"

fun stosl :: "mem \<Rightarrow> uint32 \<Rightarrow> uint32 \<Rightarrow> nat \<Rightarrow> mem" where
  "stosl m a v 0 = m"
| "stosl m a v (Suc n) = stosl (store32 m a v) (a + 4) v n"

definition memset :: "mem \<Rightarrow> uint32 \<Rightarrow> uint32 \<Rightarrow> uint32 \<Rightarrow> mem" where
  "memset m dst c n =
     (if sint dst smod 4 = 0 \<and> n mod 4 = 0 then
        let c = c AND 0xFF in
        stosl m dst (push_bit 24 c OR push_bit 16 c OR push_bit 8 c OR c) (unat (n div 4))
      else stosb m dst (ucast c) (unat n))"

fun memcmp_loop :: "mem \<Rightarrow> uint32 \<Rightarrow> uint32 \<Rightarrow> nat \<Rightarrow> int" where
  "memcmp_loop m s1 s2 0 = 0"
| "memcmp_loop m s1 s2 (Suc n) =
     (if m s1 \<noteq> m s2 then uint (m s1) - uint (m s2) else memcmp_loop m (s1 + 1) (s2 + 1) n)"

definition memcmp :: "mem \<Rightarrow> uint32 \<Rightarrow> uint32 \<Rightarrow> uint32 \<Rightarrow> int" where
  "memcmp m v1 v2 n = memcmp_loop m v1 v2 (unat n)"

fun copy_down :: "mem \<Rightarrow> uint32 \<Rightarrow> uint32 \<Rightarrow> nat \<Rightarrow> mem" where
  "copy_down m d s 0 = m"
| "copy_down m d s (Suc n) = copy_down (m(d - 1 := m (s - 1))) (d - 1) (s - 1) n"

fun copy_up :: "mem \<Rightarrow> uint32 \<Rightarrow> uint32 \<Rightarrow> nat \<Rightarrow> mem" where
  "copy_up m d s 0 = m"
| "copy_up m d s (Suc n) = copy_up (m(d := m s)) (d + 1) (s + 1) n"

definition memmove :: "mem \<Rightarrow> uint32 \<Rightarrow> uint32 \<Rightarrow> uint32 \<Rightarrow> mem" where
  "memmove m dst src n =
     (if src < dst \<and> src + n > dst then copy_down m (dst + n) (src + n) (unat n)
      else copy_up m dst src (unat n))"

lemma stosb_mem_fill: "n \<le> 2 ^ 32 \<Longrightarrow> stosb m a c n = mem_fill m a n c"
proof (induction n arbitrary: m a)
  case (Suc n)
  then have n: "n < 2 ^ 32" by simp
  have "stosb m a c (Suc n) = mem_fill (m(a := c)) (a + 1) n c"
    using Suc by simp
  also have "\<dots> = mem_fill m a (Suc n) c"
    by (rule ext) (simp add: mem_fill_apply in_range_Suc [OF n])
  finally show ?case .
qed simp

definition spread :: "uint8 \<Rightarrow> uint32" where
  "spread b = push_bit 24 (ucast b) OR push_bit 16 (ucast b) OR push_bit 8 (ucast b) OR ucast b"

lemma spread_bytes:
  "ucast (spread b) = b" "ucast (drop_bit 8 (spread b)) = b"
  "ucast (drop_bit 16 (spread b)) = b" "ucast (drop_bit 24 (spread b)) = b"
proof -
  have hi: "\<not> bit b (8 + n)" "\<not> bit b (16 + n)" "\<not> bit b (24 + n)" for n
    by (auto dest: bit_imp_le_length)
  show "ucast (spread b) = b"
    by (rule bit_word_eqI) (auto simp: spread_def bit_simps)
  show "ucast (drop_bit 8 (spread b)) = b"
    by (rule bit_word_eqI) (auto simp: spread_def bit_simps hi)
  show "ucast (drop_bit 16 (spread b)) = b"
    by (rule bit_word_eqI) (auto simp: spread_def bit_simps hi)
  show "ucast (drop_bit 24 (spread b)) = b"
    by (rule bit_word_eqI) (auto simp: spread_def bit_simps hi)
qed

lemma and_0xFF: "c AND 0xFF = (ucast (ucast c :: uint8) :: uint32)"
proof -
  have "c AND 0xFF = take_bit 8 c"
    by (simp add: take_bit_eq_mask mask_eq_exp_minus_1)
  also have "\<dots> = ucast (ucast c :: uint8)"
    by (rule bit_word_eqI) (auto simp: bit_simps)
  finally show ?thesis .
qed

lemma stosl_stosb: "stosl m a (spread b) n = stosb m a b (4 * n)"
proof (induction n arbitrary: m a)
  case (Suc n)
  have "store32 m a (spread b) = m(a := b, a + 1 := b, a + 2 := b, a + 3 := b)"
    by (simp only: store32_def spread_bytes)
  moreover have "4 * Suc n = Suc (Suc (Suc (Suc (4 * n))))" by simp
  ultimately show ?case
    using Suc by (simp only: stosb.simps stosl.simps) (simp add: add.assoc fun_upd_def)
qed simp

lemma smod4_aligned: "sint dst smod 4 = 0 \<longleftrightarrow> aligned 2 dst"
proof -
  have "sint dst smod 4 = 0 \<longleftrightarrow> 4 dvd sint dst"
    by (auto simp: signed_modulo_int_def sgn_0_0 mod_eq_0_iff_dvd)
  also have "\<dots> \<longleftrightarrow> 4 dvd uint dst"
  proof -
    have "uint dst = sint dst mod 2 ^ 32"
      by (simp add: uint_sint take_bit_eq_mod)
    moreover have "(4::int) dvd 2 ^ 32" by simp
    ultimately show ?thesis by (simp only: dvd_mod_iff)
  qed
  also have "\<dots> \<longleftrightarrow> aligned 2 dst"
    by (simp add: aligned_iff_dvd flip: int_dvd_int_iff)
  finally show ?thesis .
qed

lemma memset_mem_fill: "memset m dst c n = mem_fill m dst (unat n) (ucast c)"
proof -
  have le: "unat n \<le> 2 ^ 32" 
    using unat_bound32 [of n] by simp
  have "stosl m dst (spread (ucast c)) (unat (n div 4)) = mem_fill m dst (unat n) (ucast c)" if "n mod 4 = 0"
  proof -
    have "unat (n mod 4) = unat n mod 4" by (simp add: unat_mod)
    then have "unat n mod 4 = 0" using that by simp
    then have "4 * (unat n div 4) = unat n" by presburger
    then show ?thesis using le by (simp add: stosl_stosb stosb_mem_fill unat_div)
  qed
  then show ?thesis
    using le by (simp add: memset_def Let_def and_0xFF stosb_mem_fill flip: spread_def)
qed

lemma in_range_offset: "in_range d n x \<Longrightarrow> \<exists>k < n. x = d + of_nat k"
  by (intro exI [of _ "unat (x - d)"]) (simp add: in_range_def)

lemma in_range_of_nat: "k < n \<Longrightarrow> n \<le> 2 ^ 32 \<Longrightarrow> in_range d n (d + of_nat k)"
  by (simp add: in_range_def unat_of_nat32)

lemma copy_up_mem_copy:
  assumes "n \<le> 2 ^ 32" "\<And>k. 0 < k \<Longrightarrow> k < n \<Longrightarrow> s + of_nat k \<noteq> d"
  shows "copy_up m d s n = mem_copy m d s n"
  using assms
proof (induction n arbitrary: m d s)
  case (Suc n)
  have "copy_up m d s (Suc n) = mem_copy (m(d := m s)) (d + 1) (s + 1) n"
    using Suc.prems Suc.IH [of "s + 1" "d + 1"] by (simp add: add.commute add.left_commute) 
  also have "\<dots> = mem_copy m d s (Suc n)"
  proof (rule ext)
    fix x
    show "mem_copy (m(d := m s)) (d + 1) (s + 1) n x = mem_copy m d s (Suc n) x"
    proof (cases "in_range (d + 1) n x")
      case True
      then obtain k where k: "k < n" "x = d + 1 + of_nat k" using in_range_offset by blast
      have "s + of_nat (Suc k) \<noteq> d" using Suc.prems(2) [of "Suc k"] k(1) by simp
      moreover have "in_range d (Suc n) x" using True Suc.prems(1) by (simp add: in_range_Suc)
      ultimately show ?thesis using True k
        by (simp add: mem_copy_apply algebra_simps)
    next
      case False
      then show ?thesis using Suc.prems(1) by (simp add: mem_copy_apply in_range_Suc)
    qed
  qed
  finally show ?case .
qed simp

lemma copy_down_mem_copy:
  assumes "n \<le> 2 ^ 32" "\<And>k. 0 < k \<Longrightarrow> k < n \<Longrightarrow> d + of_nat k \<noteq> s"
  shows "copy_down m (d + of_nat n) (s + of_nat n) n = mem_copy m d s n"
  using assms
proof (induction n arbitrary: m)
  case (Suc n)
  let ?m = "m(d + of_nat n := m (s + of_nat n))"
  have "copy_down m (d + of_nat (Suc n)) (s + of_nat (Suc n)) (Suc n) = mem_copy ?m d s n"
  proof -
    have "d + of_nat (Suc n) - 1 = d + of_nat n" "s + of_nat (Suc n) - 1 = s + of_nat n"
      by simp_all
    moreover have "copy_down ?m (d + of_nat n) (s + of_nat n) n = mem_copy ?m d s n"
      by (rule Suc.IH) (use Suc.prems in auto)
    ultimately show ?thesis by (simp only: copy_down.simps)
  qed
  also have "\<dots> = mem_copy m d s (Suc n)"
  proof (rule ext)
    fix x
    have last: "in_range d (Suc n) x \<longleftrightarrow> in_range d n x \<or> x = d + of_nat n"
    proof -
      have "unat (x - d) = n \<longleftrightarrow> x - d = of_nat n"
        using Suc.prems(1) by (auto simp: unat_of_nat32)
      then show ?thesis by (auto simp: in_range_def less_Suc_eq algebra_simps)
    qed
    show "mem_copy ?m d s n x = mem_copy m d s (Suc n) x"
    proof (cases "in_range d n x")
      case True
      then obtain k where k: "k < n" "x = d + of_nat k" using in_range_offset by blast
      have "d + of_nat (n - k) \<noteq> s" using Suc.prems(2) [of "n - k"] k(1) by simp
      then have "s + of_nat k \<noteq> d + of_nat n"
        using k(1) by (auto simp: of_nat_diff algebra_simps)
      then show ?thesis using True k(2) last by (simp add: mem_copy_apply)
    next
      case False
      then show ?thesis using last by (simp add: mem_copy_apply)
    qed
  qed
  finally show ?case .
qed simp

lemma memmove_mem_copy:
  assumes "unat src + unat n < 2 ^ 32" "unat dst + unat n \<le> 2 ^ 32"
  shows "memmove m dst src n = mem_copy m dst src (unat n)"
proof (cases "src < dst \<and> src + n > dst")
  case True
  have "dst + of_nat k \<noteq> src" if "0 < k" "k < unat n" for k
  proof -
    have "unat (dst + of_nat k) = unat dst + k"
      using assms(2) that by (simp add: unat_word_ariths unat_of_nat)
    then show ?thesis using True that by (auto simp: word_less_nat_alt)
  qed
  then have "copy_down m (dst + of_nat (unat n)) (src + of_nat (unat n)) (unat n) = mem_copy m dst src (unat n)"
    using assms(2) by (intro copy_down_mem_copy) auto
  then show ?thesis using True by (simp add: memmove_def)
next
  case False
  have "src + of_nat k \<noteq> dst" if "0 < k" "k < unat n" for k
  proof
    assume eq: "src + of_nat k = dst"
    have "unat (src + of_nat k) = unat src + k" "unat (src + n) = unat src + unat n"
      using assms(1) that by (simp_all add: unat_word_ariths unat_of_nat)
    then show False using False that eq by (simp add: word_less_nat_alt)
  qed
  then have "copy_up m dst src (unat n) = mem_copy m dst src (unat n)"
    using assms(1) by (intro copy_up_mem_copy) auto
  then show ?thesis
    using False by (auto simp: memmove_def)
qed

definition memcpy :: "mem \<Rightarrow> uint32 \<Rightarrow> uint32 \<Rightarrow> uint32 \<Rightarrow> mem" where
  "memcpy m dst src n = memmove m dst src n"

section \<open>String routines\<close>

fun strncmp_loop :: "mem \<Rightarrow> uint32 \<Rightarrow> uint32 \<Rightarrow> nat \<Rightarrow> int" where
  "strncmp_loop m p q 0 = 0"
| "strncmp_loop m p q (Suc n) =
     (if m p \<noteq> 0 \<and> m p = m q then strncmp_loop m (p + 1) (q + 1) n
      else uint (m p) - uint (m q))"

definition strncmp :: "mem \<Rightarrow> uint32 \<Rightarrow> uint32 \<Rightarrow> uint32 \<Rightarrow> int" where
  "strncmp m p q n = strncmp_loop m p q (unat n)"

fun pad_zero :: "mem \<Rightarrow> uint32 \<Rightarrow> nat \<Rightarrow> mem" where
  "pad_zero m s 0 = m"
| "pad_zero m s (Suc n) = pad_zero (m(s := 0)) (s + 1) n"

fun strncpy_loop :: "mem \<Rightarrow> uint32 \<Rightarrow> uint32 \<Rightarrow> nat \<Rightarrow> mem" where
  "strncpy_loop m s t 0 = m"
| "strncpy_loop m s t (Suc n) =
     (if m t \<noteq> 0 then strncpy_loop (m(s := m t)) (s + 1) (t + 1) n
      else pad_zero (m(s := m t)) (s + 1) n)"

definition strncpy :: "mem \<Rightarrow> uint32 \<Rightarrow> uint32 \<Rightarrow> int \<Rightarrow> mem" where
  "strncpy m s t n = strncpy_loop m s t (nat n)"

fun safestrcpy_loop :: "mem \<Rightarrow> uint32 \<Rightarrow> uint32 \<Rightarrow> nat \<Rightarrow> mem" where
  "safestrcpy_loop m s t 0 = m(s := 0)"
| "safestrcpy_loop m s t (Suc n) =
     (if m t \<noteq> 0 then safestrcpy_loop (m(s := m t)) (s + 1) (t + 1) n
      else m(s := m t, s + 1 := 0))"

definition safestrcpy :: "mem \<Rightarrow> uint32 \<Rightarrow> uint32 \<Rightarrow> int \<Rightarrow> mem" where
  "safestrcpy m s t n = (if n \<le> 0 then m else safestrcpy_loop m s t (nat (n - 1)))"

partial_function (option) strlen_from :: "mem \<Rightarrow> uint32 \<Rightarrow> nat \<Rightarrow> nat option" where
  "strlen_from m s n = (if m (s + of_nat n) \<noteq> 0 then strlen_from m s (Suc n) else Some n)"

definition strlen :: "mem \<Rightarrow> uint32 \<Rightarrow> nat option" where
  "strlen m s = strlen_from m s 0"

partial_function (option) mystrcmp :: "mem \<Rightarrow> uint32 \<Rightarrow> uint32 \<Rightarrow> int option" where
  "mystrcmp m p q =
     (if m p \<noteq> 0 \<and> m p = m q then mystrcmp m (p + 1) (q + 1)
      else Some (uint (m p) - uint (m q)))"

function itoa_advance :: "int \<Rightarrow> uint32 \<Rightarrow> uint32" where
  "itoa_advance shift p =
     (if shift sdiv 10 \<noteq> 0 then itoa_advance (shift sdiv 10) (p + 1) else p + 1)"
  by pat_completeness auto
termination
  by (relation "measure (\<lambda>(i, p). nat \<bar>i\<bar>)") (auto simp: signed_divide_int_def abs_mult)

function itoa_digits :: "mem \<Rightarrow> int \<Rightarrow> uint32 \<Rightarrow> mem option" where
  "itoa_digits m i p =
     (if i smod 10 < 0 then None
      else let m = m(p - 1 := of_int (48 + i smod 10)) in
        if i sdiv 10 \<noteq> 0 then itoa_digits m (i sdiv 10) (p - 1) else Some m)"
  by pat_completeness auto
termination
  by (relation "measure (\<lambda>(m, i, p). nat \<bar>i\<bar>)") (auto simp: signed_divide_int_def abs_mult)

definition itoa :: "mem \<Rightarrow> uint32 \<Rightarrow> uint32 \<Rightarrow> mem option" where
  "itoa m i s =
     (let neg = sint i < 0;
          m = (if neg then m(s := 0x2D) else m);
          p = (if neg then s + 1 else s);
          i = (if neg then i * - 1 else i);
          p = itoa_advance (sint i) p;
          m = m(p := 0)
      in itoa_digits m (sint i) p)"

partial_function (option) atoi_from :: "mem \<Rightarrow> uint32 \<Rightarrow> uint32 \<Rightarrow> uint32 option" where
  "atoi_from m s n =
     (if 48 \<le> m s \<and> m s \<le> 57 then atoi_from m (s + 1) (n * 10 + ucast (m s) - 48) else Some n)"

definition atoi :: "mem \<Rightarrow> uint32 \<Rightarrow> uint32 option" where
  "atoi m s = atoi_from m s 0"


declare itoa_advance.simps [simp del] itoa_digits.simps [simp del]

lemma memcmp_eq_0_iff:
  "memcmp m a b n = 0 \<longleftrightarrow> load_bytes m a (unat n) = load_bytes m b (unat n)"
proof -
  have "memcmp_loop m a b k = 0 \<longleftrightarrow> (\<forall>i<k. m (a + of_nat i) = m (b + of_nat i))" for k
  proof (induction k arbitrary: a b)
    case (Suc k)
    have "(\<forall>i<Suc k. m (a + of_nat i) = m (b + of_nat i)) \<longleftrightarrow>
       m a = m b \<and> (\<forall>i<k. m (a + 1 + of_nat i) = m (b + 1 + of_nat i))"
      by (auto simp: less_Suc_eq_0_disj add.assoc)
    then show ?case using Suc by (simp add: word_uint_eq_iff)
  qed simp
  then show ?thesis by (auto simp: memcmp_def load_bytes_def)
qed

lemma strlen_from_first:
  assumes "n \<le> k" "m (s + of_nat k) = 0" "\<And>j. n \<le> j \<Longrightarrow> j < k \<Longrightarrow> m (s + of_nat j) \<noteq> 0"
  shows "strlen_from m s n = Some k"
  using assms
proof (induction "k - n" arbitrary: n)
  case 0
  then show ?case by (simp add: strlen_from.simps)
next
  case (Suc d)
  then have "m (s + of_nat n) \<noteq> 0" by simp
  moreover have "strlen_from m s (Suc n) = Some k"
    using Suc by (intro Suc.hyps(1)) auto
  ultimately show ?case by (subst strlen_from.simps) simp
qed

lemma safestrcpy_loop_spec:
  assumes "k < 2 ^ 32" "\<And>i. i \<le> k \<Longrightarrow> \<not> in_range s (Suc k) (t + of_nat i)"
  shows "\<exists>j \<le> k. safestrcpy_loop m s t k (s + of_nat j) = 0
     \<and> (\<forall>i<j. safestrcpy_loop m s t k (s + of_nat i) = m (t + of_nat i) \<and> m (t + of_nat i) \<noteq> 0)
     \<and> (j = k \<or> m (t + of_nat j) = 0)
     \<and> (\<forall>x. \<not> in_range s (Suc k) x \<longrightarrow> safestrcpy_loop m s t k x = m x)"
  using assms
proof (induction k arbitrary: m s t)
  case 0
  then show ?case by (auto simp: in_range_Suc)
next
  case (Suc k)
  note k = Suc.prems(1)
  have rng: "in_range s (Suc (Suc k)) x \<longleftrightarrow> x = s \<or> in_range (s + 1) (Suc k) x" for x
    using k by (simp add: in_range_Suc)
  have src: "t + of_nat i \<noteq> s" "\<not> in_range (s + 1) (Suc k) (t + of_nat i)" if "i \<le> Suc k" for i
    using Suc.prems(2) [OF that] rng by auto
  show ?case
  proof (cases "m t = 0")
    case True
    then show ?thesis
      using k by (intro exI [of _ 0]) (auto simp: rng in_range_Suc)
  next
    case False
    define m' where "m' = m(s := m t)"
    let ?r = "safestrcpy_loop m' (s + 1) (t + 1) k"
    have s1: "\<not> in_range (s + 1) (Suc k) s"
      using k by (intro not_in_range_before) simp
    have dis: "\<And>i. i \<le> k \<Longrightarrow> \<not> in_range (s + 1) (Suc k) (t + 1 + of_nat i)"
      using src(2) [of "Suc i" for i] by (simp add: add.assoc)
    obtain j where j: "j \<le> k" "?r (s + 1 + of_nat j) = 0"
      "\<And>i. i < j \<Longrightarrow> ?r (s + 1 + of_nat i) = m' (t + 1 + of_nat i) \<and> m' (t + 1 + of_nat i) \<noteq> 0"
      "j = k \<or> m' (t + 1 + of_nat j) = 0"
      "\<And>x. \<not> in_range (s + 1) (Suc k) x \<Longrightarrow> ?r x = m' x"
      using Suc.IH [of "s + 1" "t + 1" m'] k dis by auto
    have t: "m' (t + 1 + of_nat i) = m (t + of_nat (Suc i))" if "i \<le> k" for i
      using src(1) [of "Suc i"] that by (simp add: m'_def add.assoc)
    have "safestrcpy_loop m s t (Suc k) = ?r" using False by (simp add: m'_def)
    moreover have "?r (s + of_nat i) = m (t + of_nat i) \<and> m (t + of_nat i) \<noteq> 0" if "i < Suc j" for i
    proof (cases i)
      case 0
      then show ?thesis using j(5) [OF s1] False by (simp add: m'_def)
    next
      case (Suc i')
      then show ?thesis using j(3) [of i'] t [of i'] j(1) that by (simp add: add.assoc)
    qed
    ultimately show ?thesis
      using j(1,2,4,5) t [of j] rng
      by (intro exI [of _ "Suc j"]) (auto simp: add.assoc m'_def)
  qed
qed

lemma store_bytes_apply:
  "length bs \<le> 2 ^ 32 \<Longrightarrow>
   store_bytes m a bs x = (if in_range a (length bs) x then bs ! unat (x - a) else m x)"
proof (induction bs arbitrary: m a)
  case (Cons b bs)
  have r: "in_range a (Suc (length bs)) x \<longleftrightarrow> x = a \<or> in_range (a + 1) (length bs) x"
    using Cons.prems by (simp add: in_range_Suc)
  have off: "unat (x - a) = Suc (unat (x - (a + 1)))" if "x \<noteq> a"
    using that unat_minus_one [of "x - a"] unat_gt_0 [of "x - a"] by (simp add: diff_diff_eq)
  have na: "\<not> in_range (a + 1) (length bs) a"
    using Cons.prems by (intro not_in_range_before) simp
  show ?case
  proof (cases "x = a")
    case True
    then show ?thesis using Cons na r by simp
  next
    case False
    then show ?thesis using Cons r off by simp
  qed
qed simp


section \<open>Decimal conversion\<close>

fun dec :: "nat \<Rightarrow> uint8 list" where
  "dec n = (if n < 10 then [] else dec (n div 10)) @ [of_nat (48 + n mod 10)]"

declare dec.simps [simp del]

lemma dec_nonempty [simp]: "dec n \<noteq> []"
  by (subst dec.simps) simp

lemma length_dec_pos: "0 < length (dec n)"
  by simp

lemma dec_step: "10 \<le> n \<Longrightarrow> dec n = dec (n div 10) @ [of_nat (48 + n mod 10)]"
  by (subst dec.simps) simp

lemma dec_digit: "n < 10 \<Longrightarrow> dec n = [of_nat (48 + n)]"
  by (subst dec.simps) simp

lemma length_dec: "n < 10 ^ Suc k \<Longrightarrow> length (dec n) \<le> Suc k"
proof (induction k arbitrary: n)
  case 0
  then show ?case by (simp add: dec_digit)
next
  case (Suc k)
  show ?case
  proof (cases "n < 10")
    case False
    have "n div 10 < 10 ^ Suc k" using Suc.prems by (simp add: less_mult_imp_div_less)
    then show ?thesis using Suc.IH [of "n div 10"] False dec_step [of n] by simp
  qed (simp add: dec_digit)
qed

lemma dec_digits: "d \<in> set (dec n) \<Longrightarrow> 48 \<le> d \<and> d \<le> 57"
proof (induction n rule: dec.induct)
  case (1 n)
  have "unat (of_nat (48 + n mod 10) :: uint8) = 48 + n mod 10"
    by (subst unat_of_nat) simp
  moreover have "n mod 10 \<le> 9" by simp
  ultimately have "48 \<le> (of_nat (48 + n mod 10) :: uint8) \<and> (of_nat (48 + n mod 10) :: uint8) \<le> 57"
    by (simp only: word_le_nat_alt) simp
  then show ?case
    using 1 dec_step [of n] by (cases "n < 10") (auto simp: dec_digit)
qed

lemma sdiv10 [simp]: "int n sdiv 10 = int (n div 10)"
  by (cases "n = 0") (simp_all add: signed_divide_int_def zdiv_int)

lemma smod10 [simp]: "int n smod 10 = int (n mod 10)"
  by (cases "n = 0") (simp_all add: signed_modulo_int_def zmod_int)

lemma itoa_advance_dec: "itoa_advance (int n) p = p + of_nat (length (dec n))"
proof (induction n arbitrary: p rule: less_induct)
  case (less n)
  show ?case
  proof (cases "n < 10")
    case True
    then show ?thesis by (subst itoa_advance.simps) (simp add: dec_digit)
  next
    case False
    then have "itoa_advance (int n) p = itoa_advance (int (n div 10)) (p + 1)"
      by (subst itoa_advance.simps) (simp add: div_eq_0_iff)
    also have "\<dots> = p + 1 + of_nat (length (dec (n div 10)))"
      using False by (intro less.IH) simp
    also have "\<dots> = p + of_nat (length (dec n))"
      using dec_step [of n] False by simp
    finally show ?thesis .
  qed
qed

lemma store_bytes_append:
  "store_bytes m a (xs @ ys) = store_bytes (store_bytes m a xs) (a + of_nat (length xs)) ys"
  by (induction xs arbitrary: m a) (simp_all add: add.assoc)

lemma store_bytes_update:
  assumes "length bs < 2 ^ 32" "x = a + of_nat (length bs)"
  shows "(store_bytes m a bs)(x := v) = store_bytes (m(x := v)) a bs"
  using assms by (intro ext) (auto simp: store_bytes_apply in_range_def unat_of_nat32)

lemma itoa_digits_dec:
  assumes "length (dec n) < 2 ^ 32"
  shows "itoa_digits m (int n) (p + of_nat (length (dec n))) = Some (store_bytes m p (dec n))"
  using assms
proof (induction n arbitrary: m rule: less_induct)
  case (less n)
  show ?case
  proof (cases "n < 10")
    case True
    then show ?thesis by (subst itoa_digits.simps) (simp add: dec_digit)
  next
    case False
    let ?k = "n div 10" and ?d = "of_nat (48 + n mod 10) :: uint8"
    let ?q = "p + of_nat (length (dec ?k))"
    have "itoa_digits m (int n) (p + of_nat (length (dec n))) = itoa_digits (m(?q := ?d)) (int ?k) ?q"
      using False dec_step [of n] by (subst itoa_digits.simps) (simp add: Let_def div_eq_0_iff)
    also have "\<dots> = Some (store_bytes (m(?q := ?d)) p (dec ?k))"
      using False less.prems dec_step [of n] by (intro less.IH) simp_all
    also have "store_bytes (m(?q := ?d)) p (dec ?k) = (store_bytes m p (dec ?k))(?q := ?d)"
      using False less.prems dec_step [of n] by (intro store_bytes_update [symmetric]) simp_all
    also have "\<dots> = store_bytes m p (dec n)"
      using False dec_step [of n] by (simp add: store_bytes_append)
    finally show ?thesis .
  qed
qed

lemma itoa_dec:
  assumes "n < 2 ^ 31"
  shows "itoa m (of_nat n) s = Some (store_bytes m s (dec n @ [0]))"
proof -
  have s: "sint (of_nat n :: uint32) = int n"
    using assms by (simp add: signed_of_nat signed_take_bit_int_eq_self)
  have "length (dec n) \<le> Suc 9" using assms by (intro length_dec) simp
  then have "length (dec n) < 2 ^ 32" by simp
  then show ?thesis
    by (simp add: itoa_def Let_def s itoa_advance_dec itoa_digits_dec store_bytes_append store_bytes_update)
qed

lemma atoi_from_digits:
  assumes "\<And>i. i < length ds \<Longrightarrow> m (s + of_nat i) = ds ! i" "\<And>d. d \<in> set ds \<Longrightarrow> 48 \<le> d \<and> d \<le> 57"
    "m (s + of_nat (length ds)) = 0"
  shows "atoi_from m s a = Some (foldl (\<lambda>a d. a * 10 + ucast d - 48) a ds)"
  using assms
proof (induction ds arbitrary: s a)
  case Nil
  then show ?case by (simp add: atoi_from.simps)
next
  case (Cons d ds)
  have "m s = d" using Cons.prems(1) [of 0] by simp
  moreover have "atoi_from m (s + 1) b = Some (foldl (\<lambda>a d. a * 10 + ucast d - 48) b ds)" for b
  proof (rule Cons.IH)
    show "m (s + 1 + of_nat i) = ds ! i" if "i < length ds" for i
      using Cons.prems(1) [of "Suc i"] that by (simp add: add.assoc)
  qed (use Cons.prems(2,3) in \<open>auto simp: add.assoc\<close>)
  ultimately show ?case
    using Cons.prems(2) [of d] by (subst atoi_from.simps) simp
qed

lemma foldl_dec: "foldl (\<lambda>a d. a * 10 + ucast d - 48) (0 :: uint32) (dec n) = of_nat n"
proof (induction n rule: dec.induct)
  case (1 n)
  have d: "ucast (of_nat (48 + n mod 10) :: uint8) = (of_nat (48 + n mod 10) :: uint32)"
    by (subst unsigned_of_nat) (simp add: take_bit_nat_eq_self)
  show ?case
  proof (cases "n < 10")
    case True
    then show ?thesis using d by (simp add: dec_digit)
  next
    case False
    have "of_nat (n div 10 * 10 + n mod 10) = (of_nat n :: uint32)"
      by (simp only: div_mult_mod_eq)
    then have "of_nat (n div 10) * 10 + of_nat (n mod 10) = (of_nat n :: uint32)"
      by (simp only: of_nat_add of_nat_mult of_nat_numeral)
    then show ?thesis using 1 False d dec_step [of n] by simp
  qed
qed

section \<open>Correctness of the string library\<close>

text \<open>\<open>memset\<close> writes its byte to exactly the \<open>n\<close> addresses from \<open>dst\<close> on, whether it takes the
  word-wise path (aligned pointer and length) or the byte-wise one.\<close>

theorem memset_fill:
  "memset m dst c n x = (if unat (x - dst) < unat n then ucast c else m x)"
  by (simp add: memset_mem_fill mem_fill_apply in_range_def)

text \<open>C36. \<open>memmove\<close> copies \<open>n\<close> bytes as if through a temporary buffer, also when the two ranges
  overlap: every destination byte is the old source byte, every other byte is unchanged.\<close>

theorem memmove_copy:
  assumes "unat src + unat n < 2 ^ 32" "unat dst + unat n \<le> 2 ^ 32"
  shows "memmove m dst src n x = (if unat (x - dst) < unat n then m (src + (x - dst)) else m x)"
  by (simp add: memmove_mem_copy [OF assms] mem_copy_apply in_range_def)

theorem memmove_copy_witness:
  "memmove (\<lambda>a. ucast a) 0x1002 0x1000 8 0x1005 = 3 \<and> memmove (\<lambda>a. ucast a) 0x1002 0x1000 8 0x100A = 0x0A"
  using memmove_copy [of "0x1000" 8 "0x1002" "\<lambda>a. ucast a" "0x1005"]
    memmove_copy [of "0x1000" 8 "0x1002" "\<lambda>a. ucast a" "0x100A"] by simp

text \<open>\<open>safestrcpy\<close> with a positive size always leaves a terminated string inside the \<open>n\<close> bytes of
  the destination: a prefix of the source, cut only where the size ends, and no byte outside
  the destination is touched.\<close>

theorem safestrcpy_terminates:
  assumes "0 < n" "n < 2 ^ 31" "\<forall>i < nat n. \<not> in_range s (nat n) (t + of_nat i)"
  shows "\<exists>j < nat n. safestrcpy m s t n (s + of_nat j) = 0
     \<and> (\<forall>i < j. safestrcpy m s t n (s + of_nat i) = m (t + of_nat i) \<and> m (t + of_nat i) \<noteq> 0)
     \<and> (j = nat n - 1 \<or> m (t + of_nat j) = 0)
     \<and> (\<forall>x. \<not> in_range s (nat n) x \<longrightarrow> safestrcpy m s t n x = m x)"
proof -
  obtain k where k: "nat n = Suc k" using assms(1) by (cases "nat n") auto
  then have "safestrcpy m s t n = safestrcpy_loop m s t k"
    using assms(1) by (simp add: safestrcpy_def nat_diff_distrib)
  moreover have "k < 2 ^ 32" using assms(2) k by simp
  ultimately show ?thesis
    using safestrcpy_loop_spec [of k s t m] assms(3) unfolding k by (auto simp: less_Suc_eq_le)
qed

theorem safestrcpy_terminates_witness:
  "\<exists>j < 4. safestrcpy (\<lambda>a. 0x41) 0x2000 0x1000 4 (0x2000 + of_nat j) = 0
    \<and> (\<forall>x. \<not> in_range 0x2000 4 x \<longrightarrow> safestrcpy (\<lambda>a. 0x41) 0x2000 0x1000 4 x = 0x41)"
proof -
  have "\<forall>i < nat 4. \<not> in_range (0x2000 :: uint32) (nat 4) (0x1000 + of_nat i)"
  proof (intro allI impI)
    fix i :: nat
    assume "i < nat 4"
    then have "i = 0 \<or> i = 1 \<or> i = 2 \<or> i = 3" by auto
    then show "\<not> in_range (0x2000 :: uint32) (nat 4) (0x1000 + of_nat i)" by (auto simp: in_range_def)
  qed
  then show ?thesis using safestrcpy_terminates [of 4 "0x2000" "0x1000" "\<lambda>a. 0x41"] by (auto intro!: exI [of _ 3])
qed

text \<open>The decimal text \<open>itoa\<close> writes for a non-negative \<open>int\<close> is read back by \<open>atoi\<close> of ulib.c as
  the same number.\<close>

theorem itoa_atoi:
  assumes "n < 2 ^ 31"
  shows "\<exists>m'. itoa m (of_nat n) s = Some m' \<and> atoi m' s = Some (of_nat n)"
proof -
  have "length (dec n) \<le> Suc 9" using assms by (intro length_dec) simp
  then have "atoi (store_bytes m s (dec n @ [0])) s = Some (of_nat n)"
    unfolding atoi_def
    by (subst atoi_from_digits [of "dec n"])
       (auto simp: store_bytes_apply in_range_def unat_of_nat32 nth_append dec_digits foldl_dec)
  then show ?thesis using itoa_dec [OF assms] by blast
qed

theorem itoa_atoi_witness:
  "\<exists>m'. itoa (\<lambda>_. 0) 2048 0x1000 = Some m' \<and> atoi m' 0x1000 = Some 2048"
  using itoa_atoi [of 2048 "\<lambda>_. 0" "0x1000"] by simp

text \<open>The most negative \<open>int\<close> stays negative after \<open>i *= -1\<close>, so its first digit index is below 0.\<close>

lemma itoa_int_min: "itoa m 0x80000000 s = None"
  by (simp add: itoa_def Let_def itoa_digits.simps [of _ "- 2147483648"] signed_modulo_int_def sgn_if)

end
