(* ===== verification/Kalloc.thy ===== *)
theory Kalloc
  imports Spinlock Cstring
begin

text \<open>
  kalloc.c: the physical page allocator with share counts. Free pages form a linked list
  through their own first word, so the state is the byte memory and the \<open>kmem\<close> structure.
  The array \<open>pc_sh\<close> has \<open>PHYSTOP >> PGSHIFT\<close> entries; an index beyond it is an outcome
  \<open>Fault\<close>.
\<close>

record kmem =
  use_lock :: uint32
  freelist :: uint32
  fpgn :: uint32
  pc_sh :: "uint32 \<Rightarrow> uint16"

record kheap = machine +
  memory :: mem
  kmem :: kmem

section \<open>Operations\<close>

definition PC_SH_SIZE :: uint32 where
  "PC_SH_SIZE = drop_bit 12 PHYSTOP"

definition lock_kmem :: "(unit, 'a kheap_scheme) kop" where
  "lock_kmem = kbind (kget (\<lambda>s. use_lock (kmem s))) (\<lambda>u. kwhen (u \<noteq> 0) (acquire L_kmem))"

definition unlock_kmem :: "(unit, 'a kheap_scheme) kop" where
  "unlock_kmem = kbind (kget (\<lambda>s. use_lock (kmem s))) (\<lambda>u. kwhen (u \<noteq> 0) (release L_kmem))"

definition upd_kmem :: "(kmem \<Rightarrow> kmem) \<Rightarrow> (unit, 'a kheap_scheme) kop" where
  "upd_kmem f = kmod (\<lambda>s. s\<lparr>kmem := f (kmem s)\<rparr>)"

definition upd_memory :: "(mem \<Rightarrow> mem) \<Rightarrow> (unit, 'a kheap_scheme) kop" where
  "upd_memory f = kmod (\<lambda>s. s\<lparr>memory := f (memory s)\<rparr>)"

definition set_share :: "uint32 \<Rightarrow> uint16 \<Rightarrow> (unit, 'a kheap_scheme) kop" where
  "set_share i c = (if i < PC_SH_SIZE then upd_kmem (\<lambda>k. k\<lparr>pc_sh := (pc_sh k)(i := c)\<rparr>) else kfault)"

definition get_share :: "uint32 \<Rightarrow> (uint16, 'a kheap_scheme) kop" where
  "get_share i = (if i < PC_SH_SIZE then kget (\<lambda>s. pc_sh (kmem s) i) else kfault)"

definition kfree :: "uint32 \<Rightarrow> (unit, 'a kheap_scheme) kop" where
  "kfree v =
     kbind (kget kend) (\<lambda>end.
     if v mod PGSIZE \<noteq> 0 \<or> v < end \<or> V2P v \<ge> PHYSTOP then kpanic ''kfree'' else
     kseq lock_kmem (
     kbind (get_share (drop_bit 12 (V2P v))) (\<lambda>c.
     kseq (kwhen (c > 0) (set_share (drop_bit 12 (V2P v)) (c - 1))) (
     kbind (get_share (drop_bit 12 (V2P v))) (\<lambda>c.
     kseq (kwhen (c = 0) (
        kseq (upd_memory (\<lambda>m. memset m v 1 PGSIZE)) (
        kseq (upd_kmem (\<lambda>k. k\<lparr>fpgn := fpgn k + 1\<rparr>)) (
        kbind (kget (\<lambda>s. freelist (kmem s))) (\<lambda>fl.
        kseq (upd_memory (\<lambda>m. store32 m v fl)) (
        upd_kmem (\<lambda>k. k\<lparr>freelist := v\<rparr>))))))) unlock_kmem)))))"

definition kalloc :: "(uint32, 'a kheap_scheme) kop" where
  "kalloc =
     kseq lock_kmem (
     kbind (kget (\<lambda>s. freelist (kmem s))) (\<lambda>r.
     kseq (kwhen (r \<noteq> 0) (
        kseq (upd_kmem (\<lambda>k. k\<lparr>fpgn := fpgn k - 1\<rparr>)) (
        kbind (kget (\<lambda>s. load32 (memory s) r)) (\<lambda>nx.
        kseq (upd_kmem (\<lambda>k. k\<lparr>freelist := nx\<rparr>)) (
        set_share (drop_bit 12 (V2P r)) 1))))) (
     kseq unlock_kmem (kret r))))"

definition get_free_pages_num :: "(uint32, 'a kheap_scheme) kop" where
  "get_free_pages_num =
     kseq (acquire L_kmem) (
     kbind (kget (\<lambda>s. fpgn (kmem s))) (\<lambda>t.
     kseq (release L_kmem) (kret t)))"

definition bad_share_addr :: "uint32 \<Rightarrow> uint32 \<Rightarrow> bool" where
  "bad_share_addr end pg_addr \<longleftrightarrow> PHYSTOP <s pg_addr \<or> pg_addr < V2P end"

definition share_index :: "uint32 \<Rightarrow> uint32" where
  "share_index pg_addr = signed_drop_bit 12 pg_addr"

definition add_page_share :: "uint32 \<Rightarrow> (unit, 'a kheap_scheme) kop" where
  "add_page_share pg_addr =
     kbind (kget kend) (\<lambda>end.
     kseq (kassert (\<not> bad_share_addr end pg_addr) ''add_page_share'') (
     kseq (acquire L_kmem) (
     kbind (get_share (share_index pg_addr)) (\<lambda>c.
     kseq (set_share (share_index pg_addr) (c + 1)) (release L_kmem)))))"

definition red_page_share :: "uint32 \<Rightarrow> (unit, 'a kheap_scheme) kop" where
  "red_page_share pg_addr =
     kbind (kget kend) (\<lambda>end.
     kseq (kassert (\<not> bad_share_addr end pg_addr) ''red_page_share'') (
     kseq (acquire L_kmem) (
     kbind (get_share (share_index pg_addr)) (\<lambda>c.
     kseq (set_share (share_index pg_addr) (c - 1)) (release L_kmem)))))"

definition get_page_share :: "uint32 \<Rightarrow> (uint16, 'a kheap_scheme) kop" where
  "get_page_share pg_addr =
     kbind (kget kend) (\<lambda>end.
     kseq (kassert (\<not> bad_share_addr end pg_addr) ''get page share!'') (
     kseq (acquire L_kmem) (
     kbind (get_share (share_index pg_addr)) (\<lambda>pcs.
     kseq (release L_kmem) (kret pcs)))))"

text \<open>There are \<open>2 ^ 20\<close> page addresses, so a loop that steps by \<open>PGSIZE\<close> and is still
  running after that many rounds never stops.\<close>

definition page_fuel :: nat where
  "page_fuel = Suc (2 ^ 20)"

fun freerange_loop :: "nat \<Rightarrow> uint32 \<Rightarrow> uint32 \<Rightarrow> (unit, 'a kheap_scheme) kop" where
  "freerange_loop 0 p vend = kspin"
| "freerange_loop (Suc n) p vend =
     (if p + PGSIZE \<le> vend then
        kseq (kfree p) (
        kseq (set_share (drop_bit 12 (V2P p)) 0) (
        freerange_loop n (p + PGSIZE) vend))
      else kret ())"

definition freerange :: "uint32 \<Rightarrow> uint32 \<Rightarrow> (unit, 'a kheap_scheme) kop" where
  "freerange vstart vend = freerange_loop page_fuel (PGROUNDUP vstart) vend"

definition kinit1 :: "uint32 \<Rightarrow> uint32 \<Rightarrow> (unit, 'a kheap_scheme) kop" where
  "kinit1 vstart vend =
     kseq (initlock L_kmem) (
     kseq (upd_kmem (\<lambda>k. k\<lparr>use_lock := 0\<rparr>)) (
     kseq (upd_kmem (\<lambda>k. k\<lparr>fpgn := 0\<rparr>)) (
     freerange vstart vend)))"

definition kinit2 :: "uint32 \<Rightarrow> uint32 \<Rightarrow> (unit, 'a kheap_scheme) kop" where
  "kinit2 vstart vend =
     kseq (freerange vstart vend) (upd_kmem (\<lambda>k. k\<lparr>use_lock := 1\<rparr>))"

section \<open>The free list\<close>

abbreviation flist :: "mem \<Rightarrow> uint32 \<Rightarrow> uint32 list \<Rightarrow> bool" where
  "flist m \<equiv> chain (load32 m)"

fun walk_list :: "mem \<Rightarrow> uint32 \<Rightarrow> nat \<Rightarrow> uint32 list" where
  "walk_list m p 0 = []"
| "walk_list m p (Suc n) = (if p = 0 then [] else p # walk_list m (load32 m p) n)"

definition free_pages :: "'a kheap_scheme \<Rightarrow> uint32 list" where
  "free_pages s = walk_list (memory s) (freelist (kmem s)) (unat (fpgn (kmem s)))"

definition valid_page :: "'a kheap_scheme \<Rightarrow> uint32 \<Rightarrow> bool" where
  "valid_page s v \<longleftrightarrow> aligned 12 v \<and> kend s \<le> v \<and> V2P v < PHYSTOP"

definition page_refs :: "'a kheap_scheme \<Rightarrow> uint32 \<Rightarrow> nat" where
  "page_refs s v = unat (pc_sh (kmem s) (drop_bit 12 (V2P v)))"

definition kmem_lock_ok :: "'a kheap_scheme \<Rightarrow> bool" where
  "kmem_lock_ok s \<longleftrightarrow> use_lock (kmem s) \<noteq> 0 \<and> lock_ok L_kmem s"

definition kmem_inv :: "'a kheap_scheme \<Rightarrow> bool" where
  "kmem_inv s \<longleftrightarrow>
     flist (memory s) (freelist (kmem s)) (free_pages s)
     \<and> length (free_pages s) = unat (fpgn (kmem s))
     \<and> distinct (free_pages s)
     \<and> (\<forall>p \<in> set (free_pages s). valid_page s p \<and> page_refs s p = 0)
     \<and> (use_lock (kmem s) = 0 \<or> lock_ok L_kmem s)
     \<and> 0 < kend s"


section \<open>Each operation as one state change\<close>

lemma entered_kheap [simp]:
  "memory (entered l s) = memory s" "kmem (entered l s) = kmem s"
  by (simp_all add: entered_def Let_def)

lemma PC_SH_SIZE_eq: "PC_SH_SIZE = 0xE000"
  by (simp add: PC_SH_SIZE_def)

lemma share_in_bounds: "p < PHYSTOP \<Longrightarrow> drop_bit 12 p < PC_SH_SIZE"
  by (simp add: PC_SH_SIZE_eq word_less_nat_alt drop_bit_eq_div unat_div)

lemma share_index_inj:
  "aligned 12 p \<Longrightarrow> aligned 12 q \<Longrightarrow> drop_bit 12 (V2P p) = drop_bit 12 (V2P q) \<longleftrightarrow> p = q"
  using aligned_push_drop [OF aligned_V2P [of p]] aligned_push_drop [OF aligned_V2P [of q]]
  by (metis P2V_V2P)

lemma kalloc_run:
  assumes "use_lock (kmem s) = 0 \<or> lock_ok L_kmem s"
    and "freelist (kmem s) \<noteq> 0 \<longrightarrow> V2P (freelist (kmem s)) < PHYSTOP"
  shows "kalloc s = (let r = freelist (kmem s) in
     if r = 0 then Done 0 s
     else Done r (s\<lparr>kmem := (kmem s)\<lparr>freelist := load32 (memory s) r, fpgn := fpgn (kmem s) - 1,
        pc_sh := (pc_sh (kmem s))(drop_bit 12 (V2P r) := 1)\<rparr>\<rparr>))"
proof (cases "use_lock (kmem s) = 0")
  case True
  then show ?thesis
    using assms(2) by (simp add: kalloc_def lock_kmem_def unlock_kmem_def upd_kmem_def set_share_def
        share_in_bounds kmonad Let_def)
next
  case False
  then have ok: "lock_ok L_kmem s" using assms(1) by simp
  show ?thesis
    using False assms(2)
    by (simp add: kalloc_def lock_kmem_def unlock_kmem_def upd_kmem_def set_share_def
        share_in_bounds kmonad Let_def acquire_entered [OF ok] release_entered [OF ok])
      (simp add: entered_def Let_def)
qed

lemmas kmem_ops = lock_kmem_def unlock_kmem_def upd_kmem_def upd_memory_def set_share_def get_share_def
  share_in_bounds kmonad Let_def

text \<open>The page of a last reference is filled with ones and becomes the head of the free list.\<close>

definition push_free :: "uint32 \<Rightarrow> 'a kheap_scheme \<Rightarrow> 'a kheap_scheme" where
  "push_free v s = s\<lparr>memory := store32 (mem_fill (memory s) v 4096 1) v (freelist (kmem s)),
     kmem := (kmem s)\<lparr>pc_sh := (pc_sh (kmem s))(drop_bit 12 (V2P v) := 0),
        fpgn := fpgn (kmem s) + 1, freelist := v\<rparr>\<rparr>"

lemma mod_aligned: "aligned 12 v \<longleftrightarrow> v mod 4096 = 0"
  using take_bit_eq_mod [of 12 v] by (simp add: aligned_def)

lemma share_id: "pc_sh k i = c \<Longrightarrow> k\<lparr>pc_sh := (pc_sh k)(i := c)\<rparr> = k"
  by (simp add: fun_upd_idem)

lemma word16_dec: "(c :: uint16) \<noteq> 0 \<Longrightarrow> c - 1 = 0 \<longleftrightarrow> c = 1" 
  by auto

lemma word16_cases:
  obtains "(c :: uint16) = 0" | "c = 1" | "\<not> c \<le> 1" "0 < c" "c \<noteq> 0" "c \<noteq> 1" "c - 1 \<noteq> 0"
proof (cases "c \<le> 1")
  case True
  then have "c = 0 \<or> c = 1" by (auto simp: word_le_nat_alt word_unat_eq_iff le_Suc_eq)
  then show ?thesis using that by blast
next
  case False
  then have "0 < c" "c \<noteq> 0" "c \<noteq> 1"
    by (simp_all add: word_le_nat_alt word_less_nat_alt word_unat_eq_iff)
  then show ?thesis using False that by simp
qed

definition drop_share :: "uint32 \<Rightarrow> 'a kheap_scheme \<Rightarrow> 'a kheap_scheme" where
  "drop_share v s = (let c = pc_sh (kmem s) (drop_bit 12 (V2P v)) in
     if c \<le> 1 then push_free v s
     else s\<lparr>memory := memory s, kmem := (kmem s)\<lparr>pc_sh := (pc_sh (kmem s))(drop_bit 12 (V2P v) := c - 1)\<rparr>\<rparr>)"

lemma kfree_steps:
  assumes "valid_page s v"
  shows "kfree v s = kseq lock_kmem (kseq (kmod (drop_share v)) unlock_kmem) s"
proof -
  have v: "v mod 4096 = 0" "\<not> v < kend s" "\<not> PHYSTOP \<le> V2P v"
    and b: "drop_bit 12 (V2P v) < PC_SH_SIZE"
    using assms by (simp_all add: valid_page_def mod_aligned not_less not_le share_in_bounds)
  have "kbind (get_share (drop_bit 12 (V2P v))) (\<lambda>c.
     kseq (kwhen (c > 0) (set_share (drop_bit 12 (V2P v)) (c - 1))) (
     kbind (get_share (drop_bit 12 (V2P v))) (\<lambda>c.
     kseq (kwhen (c = 0) (
        kseq (upd_memory (\<lambda>m. memset m v 1 PGSIZE)) (
        kseq (upd_kmem (\<lambda>k. k\<lparr>fpgn := fpgn k + 1\<rparr>)) (
        kbind (kget (\<lambda>s. freelist (kmem s))) (\<lambda>fl.
        kseq (upd_memory (\<lambda>m. store32 m v fl)) (
        upd_kmem (\<lambda>k. k\<lparr>freelist := v\<rparr>))))))) unlock_kmem))) t = unlock_kmem (drop_share v t)"
    for t :: "'a kheap_scheme"
    by (cases rule: word16_cases [of "pc_sh (kmem t) (drop_bit 12 (V2P v))"])
      (simp_all add: b upd_kmem_def upd_memory_def set_share_def get_share_def kmonad Let_def
        memset_mem_fill drop_share_def push_free_def fun_upd_idem)
  then show ?thesis
    unfolding kfree_def
    by (simp add: kmonad v split: outcome.splits)
qed

lemma entered_leave:
  "(entered l s)\<lparr>memory := M, kmem := K, cpus := cpus s, eflags := eflags s, locks := locks s\<rparr>
     = s\<lparr>memory := M, kmem := K\<rparr>"
  by (simp add: entered_def Let_def)

lemma drop_share_shape:
  "drop_share v s = s\<lparr>memory := memory (drop_share v s), kmem := kmem (drop_share v s)\<rparr>"
  "use_lock (kmem (drop_share v s)) = use_lock (kmem s)"
  by (simp_all add: drop_share_def push_free_def Let_def)

lemma drop_share_entered:
  "memory (drop_share v (entered l s)) = memory (drop_share v s)"
  "kmem (drop_share v (entered l s)) = kmem (drop_share v s)"
  by (simp_all add: drop_share_def push_free_def Let_def)

lemma kfree_run:
  assumes "use_lock (kmem s) = 0 \<or> lock_ok L_kmem s"
  shows "kfree v s = (if valid_page s v then Done () (drop_share v s) else Panic ''kfree'')"
proof (cases "valid_page s v")
  case False
  then have "v mod 4096 \<noteq> 0 \<or> v < kend s \<or> PHYSTOP \<le> V2P v"
    by (simp add: valid_page_def mod_aligned not_less not_le)
  then show ?thesis using False by (simp add: kfree_def kmonad)
next
  case True
  show ?thesis
  proof (cases "use_lock (kmem s) = 0")
    case u: True
    then show ?thesis
      using True drop_share_shape(2) [of v s]
      by (simp add: kfree_steps lock_kmem_def unlock_kmem_def kmonad)
  next
    case False
    then have ok: "lock_ok L_kmem s" using assms by simp
    let ?t = "drop_share v (entered L_kmem s)"
    have t: "?t = (entered L_kmem s)\<lparr>memory := memory (drop_share v s), kmem := kmem (drop_share v s)\<rparr>"
      using drop_share_shape(1) [of v "entered L_kmem s"] by (simp add: drop_share_entered)
    have "release L_kmem ?t = Done () (?t\<lparr>cpus := cpus s, eflags := eflags s, locks := locks s\<rparr>)"
      by (rule release_entered [OF ok]) (simp_all add: t)
    also have "?t\<lparr>cpus := cpus s, eflags := eflags s, locks := locks s\<rparr> = drop_share v s"
      unfolding t entered_leave by (rule drop_share_shape(1) [symmetric])
    finally have "release L_kmem ?t = Done () (drop_share v s)" .
    moreover have "use_lock (kmem ?t) \<noteq> 0" using False by (simp add: drop_share_shape(2))
    ultimately show ?thesis
      using True False by (simp add: kfree_steps lock_kmem_def unlock_kmem_def kmonad acquire_entered [OF ok])
  qed
qed

section \<open>The allocator as a list of free pages and a table of share counts\<close>

type_synonym page_pool = "uint32 list \<times> (uint32 \<Rightarrow> nat)"

definition pool :: "'a kheap_scheme \<Rightarrow> page_pool" where
  "pool s = (free_pages s, \<lambda>v. if valid_page s v then page_refs s v else 0)"

fun alloc_spec :: "page_pool \<Rightarrow> uint32 \<times> page_pool" where
  "alloc_spec ([], r) = (0, ([], r))"
| "alloc_spec (p # ps, r) = (p, (ps, r(p := 1)))"

fun free_spec :: "uint32 \<Rightarrow> page_pool \<Rightarrow> page_pool" where
  "free_spec v (ps, r) = (if r v \<le> 1 then (v # ps, r(v := 0)) else (ps, r(v := r v - 1)))"

lemma flist_walk: "flist m p xs \<Longrightarrow> walk_list m p (length xs) = xs"
  by (induction xs arbitrary: p) auto

lemma kmem_invI:
  assumes "flist (memory s) (freelist (kmem s)) xs" "length xs = unat (fpgn (kmem s))" "distinct xs"
    "\<And>p. p \<in> set xs \<Longrightarrow> valid_page s p \<and> page_refs s p = 0"
    "use_lock (kmem s) = 0 \<or> lock_ok L_kmem s" "0 < kend s"
  shows "free_pages s = xs" "kmem_inv s"
proof -
  show "free_pages s = xs"
    using flist_walk [OF assms(1)] assms(2) by (simp add: free_pages_def)
  then show "kmem_inv s" using assms by (auto simp: kmem_inv_def)
qed

lemma valid_page_nonzero: "valid_page s v \<Longrightarrow> 0 < kend s \<Longrightarrow> v \<noteq> 0"
  by (auto simp: valid_page_def)

lemma valid_page_cong: "kend t = kend s \<Longrightarrow> valid_page t v = valid_page s v"
  by (simp add: valid_page_def)

lemma kmem_inv_valid: "kmem_inv s \<Longrightarrow> p \<in> set (free_pages s) \<Longrightarrow> valid_page s p"
  by (simp add: kmem_inv_def)

lemma kmem_inv_lock: "kmem_inv s \<Longrightarrow> use_lock (kmem s) = 0 \<or> lock_ok L_kmem s"
  by (simp add: kmem_inv_def)

lemma kmem_inv_freelist:
  assumes "kmem_inv s"
  shows "freelist (kmem s) = (case free_pages s of [] \<Rightarrow> 0 | p # _ \<Rightarrow> p)"
  using assms by (cases "free_pages s") (auto simp: kmem_inv_def)

lemma lock_ok_cong:
  "cpus t = cpus s \<Longrightarrow> lapicid t = lapicid s \<Longrightarrow> eflags t = eflags s \<Longrightarrow> locks t = locks s \<Longrightarrow>
   lock_ok l t = lock_ok l s"
  by (simp add: lock_ok_def cpu_ok_def lock_free_def this_cpu_def)

lemma lock_ok_kheap [simp]:
  "lock_ok l (s\<lparr>memory := m\<rparr>) = lock_ok l s" "lock_ok l (s\<lparr>kmem := k\<rparr>) = lock_ok l s"
  by (simp_all add: lock_ok_def cpu_ok_def lock_free_def this_cpu_def)

lemma kalloc_empty:
  assumes "kmem_inv s" "free_pages s = []"
  shows "kalloc s = Done 0 s"
  using kmem_inv_freelist [OF assms(1)] assms by (simp add: kalloc_run kmem_inv_lock)

definition take_free :: "uint32 \<Rightarrow> 'a kheap_scheme \<Rightarrow> 'a kheap_scheme" where
  "take_free p s = s\<lparr>kmem := (kmem s)\<lparr>freelist := load32 (memory s) p, fpgn := fpgn (kmem s) - 1,
        pc_sh := (pc_sh (kmem s))(drop_bit 12 (V2P p) := 1)\<rparr>\<rparr>"

lemma kalloc_cons:
  assumes "kmem_inv s" "free_pages s = p # ps"
  shows "kalloc s = Done p (take_free p s)"
proof -
  have "valid_page s p" using kmem_inv_valid [OF assms(1)] assms(2) by simp
  moreover have "0 < kend s" using assms(1) by (simp add: kmem_inv_def)
  ultimately show ?thesis
    using kmem_inv_freelist [OF assms(1)] assms valid_page_nonzero [of s p]
    by (simp add: kalloc_run kmem_inv_lock take_free_def valid_page_def)
qed

lemma page_refs_share:
  assumes "aligned 12 p" "aligned 12 q"
  shows "page_refs (s\<lparr>kmem := k\<lparr>pc_sh := f(drop_bit 12 (V2P p) := c)\<rparr>\<rparr>) q
      = (if q = p then unat c else unat (f (drop_bit 12 (V2P q))))"
  using share_index_inj [OF assms(2,1)] by (simp add: page_refs_def)

lemma take_free_inv:
  assumes inv: "kmem_inv s" and fp: "free_pages s = p # ps"
  shows "kmem_inv (take_free p s)" "pool (take_free p s) = (ps, (snd (pool s))(p := 1))"
proof -
  let ?t = "take_free p s"
  have fl: "flist (memory s) (load32 (memory s) p) ps" and d: "p \<notin> set ps" "distinct ps"
    and len: "Suc (length ps) = unat (fpgn (kmem s))"
    and ok: "\<And>q. q \<in> set (p # ps) \<Longrightarrow> valid_page s q \<and> page_refs s q = 0"
    using inv fp by (auto simp: kmem_inv_def)
  have al: "aligned 12 q" if "valid_page s q" for q using that by (simp add: valid_page_def)
  have refs: "page_refs ?t q = (if q = p then 1 else page_refs s q)" if "valid_page s q" for q
    using that ok [of p] by (simp add: take_free_def page_refs_share al page_refs_def share_index_inj)
  have vp: "valid_page ?t q = valid_page s q" for q by (simp add: valid_page_def take_free_def)
  have "fpgn (kmem s) \<noteq> 0" using len by auto
  then have "unat (fpgn (kmem s) - 1) = length ps" using len by (simp add: unat_minus_one)
  then have "free_pages ?t = ps \<and> kmem_inv ?t"
    using fl d ok refs vp inv
    by (intro conjI kmem_invI [of ?t ps]) (auto simp: take_free_def kmem_inv_def)
  then show "kmem_inv ?t" "pool ?t = (ps, (snd (pool s))(p := 1))"
    using refs vp ok [of p] by (auto simp: pool_def)
qed

lemma distinct_pages_bound:
  assumes "distinct (ps :: uint32 list)" "0 \<notin> set ps"
  shows "length ps < 2 ^ 32"
proof -
  have "card (set (0 # ps)) \<le> card (UNIV :: uint32 set)"
    by (rule card_mono) simp_all
  moreover have "card (UNIV :: uint32 set) = 2 ^ 32" by (simp add: card_word)
  ultimately show ?thesis using assms by (simp add: distinct_card)
qed

lemma push_free_inv:
  assumes inv: "kmem_inv s" and v: "valid_page s v" and nv: "v \<notin> set (free_pages s)"
  shows "kmem_inv (push_free v s)" "pool (push_free v s) = (v # free_pages s, (snd (pool s))(v := 0))"
proof -
  let ?t = "push_free v s" and ?ps = "free_pages s"
  have fl: "flist (memory s) (freelist (kmem s)) ?ps" and d: "distinct ?ps"
    and len: "length ?ps = unat (fpgn (kmem s))" and ke: "0 < kend s"
    and ok: "\<And>q. q \<in> set ?ps \<Longrightarrow> valid_page s q \<and> page_refs s q = 0"
    using inv by (auto simp: kmem_inv_def)
  have al: "aligned 12 q" if "valid_page s q" for q using that by (simp add: valid_page_def)
  have vp: "valid_page ?t q = valid_page s q" for q by (simp add: valid_page_def push_free_def)
  have refs: "page_refs ?t q = (if q = v then 0 else page_refs s q)" if "valid_page s q" for q
    using that v al share_index_inj [of q v] by (simp add: push_free_def page_refs_def)
  have "load32 (memory ?t) x = load32 (memory s) x" if "x \<in> set ?ps" for x
  proof -
    have "aligned 12 x" "x \<noteq> v" using ok [OF that] al nv that by blast+
    then have "load32 (store32 (mem_fill (memory s) v 4096 1) v y) x = load32 (memory s) x" for y
      using load32_store_page [of v x 0 0] load32_fill_page [of v x 0] al [OF v] by simp
    then show ?thesis by (simp add: push_free_def)
  qed
  then have "flist (memory ?t) (freelist (kmem s)) ?ps" using fl chain_cong [of ?ps "load32 (memory ?t)" "load32 (memory s)"] by simp
  then have fl': "flist (memory ?t) (freelist (kmem ?t)) (v # ?ps)"
    using valid_page_nonzero [OF v ke] by (simp add: push_free_def)
  have "0 \<notin> set (v # ?ps)" using valid_page_nonzero v ok ke by auto
  then have "length (v # ?ps) < 2 ^ 32" using d nv by (intro distinct_pages_bound) auto
  then have "unat (fpgn (kmem s) + 1) = length (v # ?ps)" using len by (simp add: unat_word_ariths)
  then have "free_pages ?t = v # ?ps \<and> kmem_inv ?t"
    using fl' d nv ok refs vp inv v
    by (intro conjI kmem_invI [of ?t "v # ?ps"]) (auto simp: push_free_def kmem_inv_def)
  then show "kmem_inv ?t" "pool ?t = (v # ?ps, (snd (pool s))(v := 0))"
    using refs vp v by (auto simp: pool_def)
qed

lemma share_update_inv:
  fixes c :: uint16
  assumes inv: "kmem_inv s" and v: "valid_page s v" and nv: "v \<notin> set (free_pages s)"
  defines "t \<equiv> s\<lparr>kmem := (kmem s)\<lparr>pc_sh := (pc_sh (kmem s))(drop_bit 12 (V2P v) := c)\<rparr>\<rparr>"
  shows "kmem_inv t" "pool t = (free_pages s, (snd (pool s))(v := unat c))"
proof -
  have al: "aligned 12 q" if "valid_page s q" for q using that by (simp add: valid_page_def)
  have vp: "valid_page t q = valid_page s q" for q by (simp add: valid_page_def t_def)
  have refs: "page_refs t q = (if q = v then unat c else page_refs s q)" if "valid_page s q" for q
    using that v al share_index_inj [of q v] by (simp add: t_def page_refs_def)
  have fp: "free_pages t = free_pages s" by (simp add: t_def free_pages_def)
  then show "kmem_inv t"
    using inv nv vp refs by (auto simp: kmem_inv_def t_def)
  show "pool t = (free_pages s, (snd (pool s))(v := unat c))"
    using fp refs vp v by (auto simp: pool_def)
qed

text \<open>Writing to pages that are not free does not disturb the allocator.\<close>

lemma kmem_inv_memory:
  assumes "kmem_inv s" "changes_only P (memory s) m'" "P \<inter> set (free_pages s) = {}"
  shows "kmem_inv (s\<lparr>memory := m'\<rparr>)" "pool (s\<lparr>memory := m'\<rparr>) = pool s"
    "free_pages (s\<lparr>memory := m'\<rparr>) = free_pages s"
proof -
  let ?t = "s\<lparr>memory := m'\<rparr>" and ?ps = "free_pages s"
  have "load32 m' x = load32 (memory s) x" if "x \<in> set ?ps" for x
    using changes_only_load32_0 [OF assms(2), of x] that assms(1,3) by (auto simp: kmem_inv_def valid_page_def)
  then have "flist m' (freelist (kmem s)) ?ps"
    using chain_cong [of ?ps "load32 m'" "load32 (memory s)"] assms(1) by (simp add: kmem_inv_def)
  then have "free_pages ?t = ?ps \<and> kmem_inv ?t"
    using assms(1) by (intro conjI kmem_invI [of ?t ?ps]) (auto simp: kmem_inv_def valid_page_def page_refs_def)
  then show "kmem_inv ?t" "pool ?t = pool s" "free_pages ?t = ?ps"
    by (auto simp: pool_def page_refs_def valid_page_def)
qed

definition same_machine :: "'a kheap_scheme \<Rightarrow> 'a kheap_scheme \<Rightarrow> bool" where
  "same_machine s t \<longleftrightarrow> t = s\<lparr>memory := memory t, kmem := kmem t\<rparr> \<and> use_lock (kmem t) = use_lock (kmem s)"

lemma same_machine_refl [simp]: "same_machine s s"
  by (simp add: same_machine_def)

lemma same_machine_trans: "same_machine s t \<Longrightarrow> same_machine t u \<Longrightarrow> same_machine s u"
proof -
  assume st: "same_machine s t" and tu: "same_machine t u"
  have "u = t\<lparr>memory := memory u, kmem := kmem u\<rparr>" using tu by (simp add: same_machine_def)
  also have "t = s\<lparr>memory := memory t, kmem := kmem t\<rparr>" using st by (simp add: same_machine_def)
  finally have "u = s\<lparr>memory := memory u, kmem := kmem u\<rparr>" by simp
  then show ?thesis using st tu by (simp add: same_machine_def)
qed

lemma same_machine_memory: "same_machine s (s\<lparr>memory := m\<rparr>)"
  by (simp add: same_machine_def)

lemma same_machine_upd: "same_machine s t \<Longrightarrow> same_machine s (t\<lparr>memory := m\<rparr>)"
  using same_machine_trans same_machine_memory by blast

lemma same_machine_valid: "same_machine s t \<Longrightarrow> valid_page t v = valid_page s v"
proof -
  assume "same_machine s t"
  then have "kend t = kend (s\<lparr>memory := memory t, kmem := kmem t\<rparr>)" by (simp add: same_machine_def)
  then show ?thesis by (simp add: valid_page_def)
qed

lemma kalloc_pool:
  assumes "kmem_inv s"
  shows "\<exists>t. kalloc s = Done (fst (alloc_spec (pool s))) t \<and> pool t = snd (alloc_spec (pool s))
     \<and> kmem_inv t \<and> same_machine s t \<and> memory t = memory s"
proof (cases "free_pages s")
  case Nil
  then show ?thesis using kalloc_empty [OF assms] assms by (auto simp: pool_def)
next
  case (Cons p ps)
  then show ?thesis
    using kalloc_cons [OF assms Cons] take_free_inv [OF assms Cons]
    by (auto simp: same_machine_def take_free_def pool_def)
qed

lemma kfree_pool:
  assumes "kmem_inv s" "valid_page s v" "v \<notin> set (free_pages s)"
  shows "\<exists>t. kfree v s = Done () t \<and> pool t = free_spec v (pool s) \<and> kmem_inv t \<and> same_machine s t"
proof (cases "pc_sh (kmem s) (drop_bit 12 (V2P v)) \<le> 1")
  case True
  then have "snd (pool s) v \<le> 1" using assms(2) by (simp add: pool_def page_refs_def word_le_nat_alt)
  moreover have "drop_share v s = push_free v s" using True by (simp add: drop_share_def)
  ultimately show ?thesis
    using assms push_free_inv [OF assms]
    by (auto simp: kfree_run kmem_inv_lock pool_def [of s] same_machine_def push_free_def)
next
  case False
  let ?c = "pc_sh (kmem s) (drop_bit 12 (V2P v))"
  have c: "1 < unat ?c" using False by (simp add: word_le_nat_alt)
  then have "unat (?c - 1) = unat ?c - 1" by (intro unat_minus_one) auto
  moreover have "snd (pool s) v = unat ?c" using assms(2) by (simp add: pool_def page_refs_def)
  ultimately show ?thesis
    using False c assms share_update_inv [OF assms, of "?c - 1"]
    by (auto simp: kfree_run kmem_inv_lock pool_def [of s] same_machine_def Let_def drop_share_def)
qed

section \<open>The interface the rest of the kernel uses\<close>

fun alloc_list :: "nat \<Rightarrow> (uint32, 's) kop \<Rightarrow> (uint32 list, 's) kop" where
  "alloc_list 0 al = kret []"
| "alloc_list (Suc n) al = kbind al (\<lambda>p. kbind (alloc_list n al) (\<lambda>ps. kret (p # ps)))"

locale page_allocator =
  fixes alloc :: "(uint32, 's) kop"
    and free :: "uint32 \<Rightarrow> (unit, 's) kop"
    and inv :: "'s \<Rightarrow> bool"
    and view :: "'s \<Rightarrow> page_pool"
    and valid :: "'s \<Rightarrow> uint32 \<Rightarrow> bool"
  assumes alloc_refines: "inv s \<Longrightarrow>
      \<exists>t. alloc s = Done (fst (alloc_spec (view s))) t \<and> view t = snd (alloc_spec (view s))
        \<and> inv t \<and> valid t = valid s"
    and free_refines: "inv s \<Longrightarrow> valid s v \<Longrightarrow> v \<notin> set (fst (view s)) \<Longrightarrow>
      \<exists>t. free v s = Done () t \<and> view t = free_spec v (view s) \<and> inv t \<and> valid t = valid s"
    and free_valid: "inv s \<Longrightarrow> p \<in> set (fst (view s)) \<Longrightarrow> valid s p \<and> p \<noteq> 0 \<and> snd (view s) p = 0"
    and free_distinct: "inv s \<Longrightarrow> distinct (fst (view s))"
begin

lemma alloc_then_free:
  assumes "inv s" "fst (view s) = p # ps"
  shows "\<exists>t u. alloc s = Done p t \<and> snd (view t) p = 1 \<and> p \<notin> set (fst (view t))
     \<and> free p t = Done () u \<and> view u = view s \<and> inv u"
proof -
  obtain r where v: "view s = (p # ps, r)" using assms(2) by (cases "view s") auto
  obtain t where t: "alloc s = Done p t" "view t = (ps, r(p := 1))" "inv t" "valid t = valid s"
    using alloc_refines [OF assms(1)] v by auto
  have p: "valid s p" "r p = 0" using free_valid [OF assms(1), of p] v by auto
  have np: "p \<notin> set ps" using free_distinct [OF assms(1)] v by simp
  then obtain u where u: "free p t = Done () u" "view u = free_spec p (view t)" "inv u"
    using free_refines [OF t(3), of p] t(2,4) p by auto
  have "view u = view s" using u(2) t(2) v p by (simp add: fun_upd_idem)
  then show ?thesis using t u np by auto
qed

lemma alloc_list_pages:
  assumes "inv s" "n \<le> length (fst (view s))"
  shows "\<exists>t. alloc_list n alloc s = Done (take n (fst (view s))) t \<and> fst (view t) = drop n (fst (view s)) \<and> inv t"
  using assms
proof (induction n arbitrary: s)
  case (Suc n)
  then obtain p ps r where v: "view s = (p # ps, r)"
    by (cases "view s"; cases "fst (view s)") auto
  obtain t where t: "alloc s = Done p t" "view t = (ps, r(p := 1))" "inv t"
    using alloc_refines [OF Suc.prems(1)] v by auto
  then obtain u where "alloc_list n alloc t = Done (take n ps) u" "fst (view u) = drop n ps" "inv u"
    using Suc.IH [OF t(3)] Suc.prems(2) v by auto
  then show ?case using t(1) v by (simp add: kmonad)
qed (simp add: kmonad)

lemma free_shared:
  assumes "inv s" "valid s v" "v \<notin> set (fst (view s))" "j < snd (view s) v"
  shows "\<exists>t. krep j (free v) s = Done () t \<and> inv t \<and> valid t = valid s
     \<and> view t = (fst (view s), (snd (view s))(v := snd (view s) v - j))"
  using assms
proof (induction j arbitrary: s)
  case 0
  then show ?case by (auto simp: kmonad)
next
  case (Suc j)
  obtain ps r where v: "view s = (ps, r)" by (cases "view s")
  obtain t where t: "free v s = Done () t" "view t = (ps, r(v := r v - 1))" "inv t" "valid t = valid s"
    using free_refines [OF Suc.prems(1-3)] Suc.prems(4) v by auto
  define q where "q = r(v := r v - 1)"
  have q: "view t = (ps, q)" "j < q v" "q(v := q v - j) = r(v := r v - Suc j)"
    using t(2) Suc.prems(4) v by (simp_all add: q_def)
  then have "\<exists>u. krep j (free v) t = Done () u \<and> inv u \<and> valid u = valid s \<and> view u = (ps, q(v := q v - j))"
    using Suc.IH [OF t(3)] Suc.prems(2,3) v t(4) by (simp add: fun_upd_def)
  then show ?case using t(1) v unfolding q(3) by (simp add: kmonad fun_upd_def)
qed

lemma free_last:
  assumes "inv s" "valid s v" "v \<notin> set (fst (view s))" "0 < snd (view s) v"
  shows "\<exists>t. krep (snd (view s) v) (free v) s = Done () t \<and> inv t
     \<and> view t = (v # fst (view s), (snd (view s))(v := 0))"
proof -
  let ?n = "snd (view s) v"
  obtain t where t: "krep (?n - 1) (free v) s = Done () t" "inv t" "valid t = valid s"
    "view t = (fst (view s), (snd (view s))(v := 1))"
    using free_shared [OF assms(1-3), of "?n - 1"] assms(4) by auto
  then obtain u where "free v t = Done () u" "inv u" "view u = (v # fst (view s), (snd (view s))(v := 0))"
    using free_refines [OF t(2), of v] assms by auto
  moreover have "krep ?n (free v) = kseq (krep (?n - 1) (free v)) (free v)"
    using assms(4) krep_Suc_right [of "free v" "?n - 1"] by (cases ?n) auto
  ultimately show ?thesis using t(1) by (auto simp: kmonad)
qed

end

interpretation kpages: page_allocator kalloc kfree kmem_inv pool valid_page
proof
  fix s :: "'a kheap_scheme" and v p
  assume inv: "kmem_inv s"
  show "\<exists>t. kalloc s = Done (fst (alloc_spec (pool s))) t \<and> pool t = snd (alloc_spec (pool s))
      \<and> kmem_inv t \<and> valid_page t = valid_page s"
    using kalloc_pool [OF inv] same_machine_valid by fast
  show "\<exists>t. kfree v s = Done () t \<and> pool t = free_spec v (pool s) \<and> kmem_inv t \<and> valid_page t = valid_page s"
    if "valid_page s v" "v \<notin> set (fst (pool s))"
    using kfree_pool [OF inv that(1)] that(2) same_machine_valid by (fastforce simp: pool_def)
  show "valid_page s p \<and> p \<noteq> 0 \<and> snd (pool s) p = 0" if "p \<in> set (fst (pool s))"
    using inv that valid_page_nonzero [of s p] by (auto simp: pool_def kmem_inv_def)
  show "distinct (fst (pool s))"
    using inv by (simp add: pool_def kmem_inv_def)
qed

section \<open>Share counts\<close>

lemma share_index_phys: "pa < PHYSTOP \<Longrightarrow> share_index pa = drop_bit 12 pa"
proof -
  assume "pa < PHYSTOP"
  then have "take_bit 31 pa = pa" by (intro take_bit_small) (simp add: word_less_nat_alt)
  then have b: "bit pa n \<Longrightarrow> n < 31" for n using bit_take_bit_iff [of 31 pa n] by simp
  show ?thesis
    unfolding share_index_def by (rule bit_word_eqI) (auto simp: bit_simps dest: b)
qed

lemma sint_small: "uint (a :: uint32) < 2 ^ 31 \<Longrightarrow> sint a = uint a"
  using signed_take_bit_int_eq_self [of 31 "uint a"] uint_ge_0 [of a] by (simp add: sint_uint)

lemma not_bad_share:
  assumes "V2P e \<le> pa" "pa < PHYSTOP"
  shows "\<not> bad_share_addr e pa"
proof -
  have "uint pa < 0xE000000" using assms(2) by (simp add: word_less_def)
  then have "\<not> PHYSTOP <s pa" by (simp add: word_sless_alt sint_small)
  then show ?thesis using assms(1) by (simp add: bad_share_addr_def not_less)
qed

lemma add_page_share_run:
  assumes "lock_ok L_kmem s" "V2P (kend s) \<le> pa" "pa < PHYSTOP"
  shows "add_page_share pa s = Done () (s\<lparr>kmem := (kmem s)\<lparr>pc_sh :=
      (pc_sh (kmem s))(drop_bit 12 pa := pc_sh (kmem s) (drop_bit 12 pa) + 1)\<rparr>\<rparr>)"
  using assms not_bad_share [OF assms(2,3)]
  by (simp add: add_page_share_def kmem_ops share_index_phys acquire_entered [OF assms(1)] release_entered [OF assms(1)])
    (simp add: entered_def Let_def)

lemma red_page_share_run:
  assumes "lock_ok L_kmem s" "V2P (kend s) \<le> pa" "pa < PHYSTOP"
  shows "red_page_share pa s = Done () (s\<lparr>kmem := (kmem s)\<lparr>pc_sh :=
      (pc_sh (kmem s))(drop_bit 12 pa := pc_sh (kmem s) (drop_bit 12 pa) - 1)\<rparr>\<rparr>)"
  using assms not_bad_share [OF assms(2,3)]
  by (simp add: red_page_share_def kmem_ops share_index_phys acquire_entered [OF assms(1)] release_entered [OF assms(1)])
    (simp add: entered_def Let_def)

lemma get_page_share_run:
  assumes "lock_ok L_kmem s" "V2P (kend s) \<le> pa" "pa < PHYSTOP"
  shows "get_page_share pa s = Done (pc_sh (kmem s) (drop_bit 12 pa)) s"
  using assms not_bad_share [OF assms(2,3)]
  by (simp add: get_page_share_def kmem_ops share_index_phys acquire_entered [OF assms(1)] release_entered [OF assms(1)])
    (simp add: entered_def Let_def)

lemma get_free_pages_num_run:
  assumes "lock_ok L_kmem s"
  shows "get_free_pages_num s = Done (fpgn (kmem s)) s"
  using assms
  by (simp add: get_free_pages_num_def kmem_ops acquire_entered release_entered)
    (simp add: entered_def Let_def)

lemma get_page_share_PHYSTOP:
  assumes "lock_ok L_kmem s" "V2P (kend s) < PHYSTOP"
  shows "get_page_share PHYSTOP s = Fault"
  using assms acquire_entered [OF assms(1)]
  by (simp add: get_page_share_def kmem_ops bad_share_addr_def not_less PC_SH_SIZE_eq share_index_def)

section \<open>Filling the free list\<close>

fun page_seq :: "uint32 \<Rightarrow> nat \<Rightarrow> uint32 list" where
  "page_seq p 0 = []"
| "page_seq p (Suc n) = p # page_seq (p + PGSIZE) n"

lemma unat_add_page:
  "unat p + 4096 * Suc n \<le> 0x8E000000 \<Longrightarrow> unat (p + 4096 :: uint32) = unat p + 4096"
  by (simp add: unat_word_ariths)

lemma page_seq_above:
  "unat p + 4096 * n \<le> 0x8E000000 \<Longrightarrow> q \<in> set (page_seq p n) \<Longrightarrow> unat p \<le> unat q"
proof (induction n arbitrary: p)
  case (Suc n)
  have "unat (p + 4096) = unat p + 4096" using unat_add_page [OF Suc.prems(1)] .
  then show ?case using Suc.IH [of "p + 4096"] Suc.prems by auto
qed simp

lemma kfree_fresh:
  assumes "kmem_inv s" "valid_page s p" "p \<notin> set (free_pages s)" "snd (pool s) p \<le> 1"
  shows "kseq (kfree p) (set_share (drop_bit 12 (V2P p)) 0) s = Done () (push_free p s)"
proof -
  let ?t = "push_free p s"
  have "pc_sh (kmem s) (drop_bit 12 (V2P p)) \<le> 1"
    using assms(2,4) by (simp add: pool_def page_refs_def word_le_nat_alt)
  then have "kfree p s = Done () ?t" using assms(1,2) by (simp add: kfree_run kmem_inv_lock Let_def drop_share_def)
  moreover have "V2P p < PHYSTOP" using assms(2) by (simp add: valid_page_def)
  ultimately show ?thesis by (simp add: kmem_ops push_free_def)
qed

lemma freerange_loop_pages:
  assumes "kmem_inv s" "aligned 12 p" "kend s \<le> p" "KERNBASE \<le> kend s"
    "unat p + 4096 * n \<le> unat vend" "unat vend < unat p + 4096 * Suc n" "unat vend \<le> 0x8E000000"
    "set (page_seq p n) \<inter> set (free_pages s) = {}"
    "\<And>q. q \<in> set (page_seq p n) \<Longrightarrow> snd (pool s) q \<le> 1" "n < fuel"
  shows "\<exists>t. freerange_loop fuel p vend s = Done () t \<and> kmem_inv t \<and> same_machine s t
     \<and> free_pages t = rev (page_seq p n) @ free_pages s"
  using assms
proof (induction n arbitrary: s p fuel)
  case 0
  obtain f where f: "fuel = Suc f" using 0 by (cases fuel) auto
  have "unat (p + 4096) = unat p + 4096" using 0 by (simp add: unat_word_ariths)
  then have "\<not> p + 4096 \<le> vend" using 0 by (simp add: word_le_nat_alt)
  then show ?case using f 0 by (simp add: kmonad)
next
  case (Suc n)
  obtain f where f: "fuel = Suc f" "n < f" using Suc.prems by (cases fuel) auto
  have up: "unat (p + 4096) = unat p + 4096" using Suc.prems by (simp add: unat_word_ariths)
  then have le: "p + 4096 \<le> vend" using Suc.prems by (simp add: word_le_nat_alt)
  have kp: "KERNBASE \<le> p" using Suc.prems(3,4) by (rule order_trans [rotated])
  then have "unat (V2P p) = unat p - 0x80000000" by (simp add: V2P_def unat_sub)
  moreover have "unat p < 0x8E000000" using Suc.prems by simp
  ultimately have vp: "valid_page s p"
    using Suc.prems kp by (simp add: valid_page_def word_less_nat_alt word_le_nat_alt)
  have np: "p \<notin> set (free_pages s)" and r: "snd (pool s) p \<le> 1"
    using Suc.prems by auto
  let ?t = "push_free p s"
  have t: "kmem_inv ?t" "pool ?t = (p # free_pages s, (snd (pool s))(p := 0))"
    using push_free_inv [OF Suc.prems(1) vp np] by auto
  then have fp: "free_pages ?t = p # free_pages s" by (simp add: pool_def)
  have above: "p \<noteq> q" if "q \<in> set (page_seq (p + 4096) n)" for q
    using page_seq_above [of "p + 4096" n q] that up Suc.prems(5,7) by auto
  have "\<exists>u. freerange_loop f (p + 4096) vend ?t = Done () u \<and> kmem_inv u \<and> same_machine ?t u
     \<and> free_pages u = rev (page_seq (p + 4096) n) @ free_pages ?t"
  proof (rule Suc.IH [OF t(1)])
    show "aligned 12 (p + 4096)" using Suc.prems(2) aligned_plus [of 12 p 4096] by simp
    show "kend ?t \<le> p + 4096" using Suc.prems(3) up by (simp add: push_free_def word_le_nat_alt)
    show "set (page_seq (p + 4096) n) \<inter> set (free_pages ?t) = {}"
      using Suc.prems(8) above by (auto simp: fp)
    show "snd (pool ?t) q \<le> 1" if "q \<in> set (page_seq (p + 4096) n)" for q
      using Suc.prems(9) that t(2) by auto
  qed (use Suc.prems up f in \<open>simp_all add: push_free_def\<close>)
  moreover have "same_machine s u" if "same_machine ?t u" for u
    using that by (auto simp: same_machine_def push_free_def)
  moreover have "freerange_loop fuel p vend s = freerange_loop f (p + 4096) vend ?t"
    using kfree_fresh [OF Suc.prems(1) vp np r] f le
    by (simp add: kseq_assoc [symmetric]) (simp add: kseq_run [of "kseq _ _"])
  ultimately show ?case by (auto simp: fp)
qed

section \<open>Correctness of the allocator\<close>

text \<open>A small heap used to show that hypotheses can hold: two free pages, and a page that
  three page tables share.\<close>

definition sample_kmem :: kmem where
  "sample_kmem = \<lparr>use_lock = 1, freelist = 0x80400000, fpgn = 2, pc_sh = (\<lambda>_. 0)(0x402 := 3)\<rparr>"

definition sample_memory :: mem where
  "sample_memory = store32 (\<lambda>_. 0) 0x80400000 0x80401000"

definition sample_heap :: kheap where
  "sample_heap = \<lparr>cpus = [sample_cpu], lapicid = 0, eflags = 512, cr2 = 0, cr3 = 0, tr = 0, gdtr = None,
     locks = (\<lambda>_. \<lparr>sl_locked = 0, sl_cpu = None\<rparr>), kend = 0x80110000, kdata = 0x80108000,
     memory = sample_memory, kmem = sample_kmem\<rparr>"

lemma sample_memory_loads [simp]:
  "load32 sample_memory 0x80400000 = 0x80401000" "load32 sample_memory 0x80401000 = 0"
  "load32 sample_memory 0x80402000 = 0"
  by (simp_all add: sample_memory_def load32_store32_aligned) (simp_all add: load32_def)

lemma walk_list_numeral [simp]:
  "walk_list m p (numeral n) = (if p = 0 then [] else p # walk_list m (load32 m p) (pred_numeral n))"
  by (simp add: numeral_eq_Suc)

lemma sample_free_pages [simp]: "free_pages sample_heap = [0x80400000, 0x80401000]"
  by (simp add: free_pages_def sample_heap_def sample_kmem_def)

lemma sample_lock_ok [simp]: "lock_ok l sample_heap"
  by (simp add: lock_ok_def cpu_ok_def lock_free_def this_cpu_def cpu_index_def sample_heap_def sample_cpu_def Let_def)

lemma sample_valid [simp]:
  "valid_page sample_heap v \<longleftrightarrow> aligned 12 v \<and> 0x80110000 \<le> v \<and> V2P v < 0xE000000"
  by (simp add: valid_page_def sample_heap_def)

lemma sample_refs [simp]:
  "page_refs sample_heap v = (if drop_bit 12 (V2P v) = 0x402 then 3 else 0)"
  by (simp add: page_refs_def sample_heap_def sample_kmem_def)

lemma sample_inv [simp]: "kmem_inv sample_heap"
proof -
  have "flist (memory sample_heap) (freelist (kmem sample_heap)) [0x80400000, 0x80401000]"
    by (simp add: sample_heap_def sample_kmem_def)
  moreover have "fpgn (kmem sample_heap) = 2" "0 < kend sample_heap" by (simp_all add: sample_heap_def sample_kmem_def)
  ultimately show ?thesis by (simp add: kmem_inv_def V2P_def)
qed

text \<open>C2. \<open>kalloc\<close> implements the allocator specification: with the free list well formed it
  returns, takes the first free page (or returns 0 when there is none), gives that page share
  count 1, keeps the other counts, the rest of the free list, the byte memory and the rest of
  the machine, and keeps the free list well formed.\<close>

theorem kalloc_refines:
  assumes "kmem_inv s"
  shows "\<exists>t. kalloc s = Done (fst (alloc_spec (pool s))) t \<and> pool t = snd (alloc_spec (pool s))
     \<and> kmem_inv t \<and> same_machine s t \<and> memory t = memory s"
  by (rule kalloc_pool [OF assms])

theorem kalloc_refines_witness:
  "\<exists>t. kalloc sample_heap = Done 0x80400000 t \<and> fst (pool t) = [0x80401000] \<and> kmem_inv t"
  using kalloc_refines [OF sample_inv] by (auto simp: pool_def [of sample_heap])

text \<open>C3. \<open>kfree\<close> of a page that is not on the free list implements the specification: it drops
  one share, and only when no share is left does the page become the head of the free list.\<close>

theorem kfree_refines:
  assumes "kmem_inv s" "valid_page s v" "v \<notin> set (free_pages s)"
  shows "\<exists>t. kfree v s = Done () t \<and> pool t = free_spec v (pool s) \<and> kmem_inv t \<and> same_machine s t"
  by (rule kfree_pool [OF assms])

theorem kfree_refines_witness:
  "\<exists>t. kfree 0x80402000 sample_heap = Done () t \<and> snd (pool t) 0x80402000 = 2
     \<and> fst (pool t) = [0x80400000, 0x80401000]"
  using kfree_refines [OF sample_inv, of "0x80402000"] by (auto simp: pool_def [of sample_heap] V2P_def)

text \<open>Freeing a page just allocated restores the allocator exactly: the same free list and
  the same share counts.\<close>

theorem kalloc_kfree_roundtrip:
  assumes "kmem_inv s" "free_pages s = p # ps"
  shows "\<exists>t u. kalloc s = Done p t \<and> snd (pool t) p = 1 \<and> kfree p t = Done () u \<and> pool u = pool s \<and> kmem_inv u"
  using kpages.alloc_then_free [OF assms(1), of p ps] assms(2) by (auto simp: pool_def [of s])

theorem kalloc_kfree_roundtrip_witness:
  "\<exists>t u. kalloc sample_heap = Done 0x80400000 t \<and> kfree 0x80400000 t = Done () u \<and> pool u = pool sample_heap"
  using kalloc_kfree_roundtrip [OF sample_inv, of "0x80400000" "[0x80401000]"] by auto

text \<open>C33. A page with \<open>n\<close> shares survives \<open>n - 1\<close> calls of \<open>kfree\<close> and is on the free list after
  exactly \<open>n\<close>.\<close>

theorem kfree_last_reference:
  assumes "kmem_inv s" "valid_page s v" "v \<notin> set (free_pages s)" "snd (pool s) v = Suc n"
  shows "\<exists>t u. krep n (kfree v) s = Done () t \<and> pool t = (free_pages s, (snd (pool s))(v := 1))
     \<and> krep (Suc n) (kfree v) s = Done () u \<and> pool u = (v # free_pages s, (snd (pool s))(v := 0))"
  using kpages.free_shared [OF assms(1,2), of n] kpages.free_last [OF assms(1,2)] assms(3,4)
  by (auto simp: pool_def [of s])

theorem kfree_last_reference_witness:
  "\<exists>u. krep 3 (kfree 0x80402000) sample_heap = Done () u \<and> fst (pool u) = [0x80402000, 0x80400000, 0x80401000]"
  using kfree_last_reference [OF sample_inv, of "0x80402000" 2]
  by (auto simp: pool_def [of sample_heap] V2P_def numeral_3_eq_3)

text \<open>C34. \<open>freerange\<close> returns and puts every whole page between its two bounds on the free list,
  last page first, in front of what was there.\<close>

theorem freerange_fills:
  assumes "kmem_inv s" "KERNBASE \<le> kend s" "kend s \<le> vstart"
    "unat (PGROUNDUP vstart) \<le> unat vend" "unat vend \<le> 0x8E000000" "unat vstart \<le> unat vend"
    "n = (unat vend - unat (PGROUNDUP vstart)) div 4096"
    "set (page_seq (PGROUNDUP vstart) n) \<inter> set (free_pages s) = {}"
    "\<forall>q \<in> set (page_seq (PGROUNDUP vstart) n). snd (pool s) q \<le> 1"
  shows "\<exists>t. freerange vstart vend s = Done () t \<and> kmem_inv t
     \<and> free_pages t = rev (page_seq (PGROUNDUP vstart) n) @ free_pages s"
proof -
  let ?p = "PGROUNDUP vstart"
  have "unat vend - unat ?p = 4096 * n + (unat vend - unat ?p) mod 4096"
    unfolding assms(7) by simp
  moreover have "(unat vend - unat ?p) mod 4096 < 4096" by simp
  ultimately have n: "unat ?p + 4096 * n \<le> unat vend" "unat vend < unat ?p + 4096 * Suc n"
    unfolding mult_Suc_right using assms(4) by linarith+
  have p: "aligned 12 ?p" "vstart \<le> ?p"
    using PGROUNDUP_bounds [of vstart] assms(5,6) by auto
  have "kend s \<le> ?p" using assms(3) p(2) by (rule order_trans)
  moreover have "n < page_fuel" using n assms(5) by (simp add: page_fuel_def)
  ultimately show ?thesis
    unfolding freerange_def
    using freerange_loop_pages [OF assms(1) p(1) _ assms(2) n assms(5) assms(8)] assms(9) by blast
qed

theorem freerange_fills_witness:
  "\<exists>t. freerange 0x80500001 0x80503000 sample_heap = Done () t \<and>
     free_pages t = [0x80502000, 0x80501000, 0x80400000, 0x80401000]"
proof -
  have r: "PGROUNDUP 0x80500001 = 0x80501000" by (simp add: PGROUNDUP_def)
  have s: "page_seq 0x80501000 2 = [0x80501000, 0x80502000]" by (simp add: numeral_2_eq_2)
  have k: "kend sample_heap = 0x80110000" by (simp add: sample_heap_def)
  have c: "snd (pool sample_heap) 0x80501000 = 0" "snd (pool sample_heap) 0x80502000 = 0"
    by (simp_all add: pool_def V2P_def)
  have "\<exists>t. freerange 0x80500001 0x80503000 sample_heap = Done () t \<and> kmem_inv t
     \<and> free_pages t = rev (page_seq (PGROUNDUP 0x80500001) 2) @ free_pages sample_heap"
    by (rule freerange_fills [OF sample_inv]) (simp_all add: r s k c)
  then show ?thesis by (auto simp: r s)
qed

text \<open>C35. The bound check of the share-count functions admits the address \<open>PHYSTOP\<close> itself, whose
  index is one past the end of \<open>pc_sh\<close>: the access is out of bounds instead of a panic.\<close>

theorem get_page_share_overrun:
  assumes "lock_ok L_kmem s" "V2P (kend s) < PHYSTOP"
  shows "get_page_share PHYSTOP s = Fault"
  by (rule get_page_share_PHYSTOP [OF assms])

theorem get_page_share_overrun_witness: "get_page_share PHYSTOP sample_heap = Fault"
proof -
  have "V2P (kend sample_heap) < PHYSTOP" by (simp add: sample_heap_def V2P_def)
  then show ?thesis by (intro get_page_share_overrun sample_lock_ok)
qed

end
