(* ===== verification/Ptable.thy ===== *)
theory Ptable
  imports Kalloc
begin

text \<open>
  The process table of proc.c and proc.h with the operations that only need the table: the
  current process, sleeping and waking, giving up the processor, killing, and the sleep locks
  of sleeplock.c. Processes are entries of the table and pointers to them are indices. A call
  that reaches \<open>swtch\<close> in \<open>sched\<close> ends with the outcome \<open>Switch\<close>; what a sleeping process does
  when it runs again is \<open>sleep_resume\<close>.
\<close>

datatype procstate = UNUSED | EMBRYO | SLEEPING | RUNNABLE | RUNNING | ZOMBIE

datatype sleep_id = S_inode nat | S_buf nat

datatype chan =
    C_proc nat | C_sleeplock sleep_id | C_buf nat | C_log | C_ticks | C_input
  | C_piperead uint32 | C_pipewrite uint32

text \<open>The name of a process is the string its 16 bytes hold; \<open>tf\<close>, \<open>context\<close> and the list heads are
  addresses in the byte memory.\<close>

record proc =
  sz :: uint32
  pgdir :: uint32
  kstack :: uint32
  pstate :: procstate
  pid :: uint32
  parent :: "nat option"
  tf :: uint32
  ctx :: uint32
  pchan :: "chan option"
  killed :: uint32
  ofile :: "nat option list"
  cwd :: "nat option"
  pname :: string
  stacksize :: uint32
  stack_growing :: uint32
  num_mem_page_entries :: uint32
  num_virtual_page :: uint32
  vpfile :: "nat option list"
  mem_page_head :: uint32
  mem_page_tail :: uint32
  mem_queue_head :: uint32
  mem_queue_tail :: uint32
  virtual_page_head :: uint32
  virtual_page_tail :: uint32
  shrmem_sigs :: "uint32 list"

record sleeplock =
  slk_locked :: uint32
  slk_pid :: uint32

record kproc = kheap +
  ptable :: "proc list"
  nextpid :: uint32
  initproc :: "nat option"
  sleeplocks :: "sleep_id \<Rightarrow> sleeplock"
  sym_trapret :: uint32
  sym_forkret :: uint32

section \<open>Access to the table\<close>

definition upd_proc :: "nat \<Rightarrow> (proc \<Rightarrow> proc) \<Rightarrow> (unit, 'a kproc_scheme) kop" where
  "upd_proc i f = kmod (\<lambda>s. s\<lparr>ptable := (ptable s)[i := f (ptable s ! i)]\<rparr>)"

definition get_proc :: "nat \<Rightarrow> (proc \<Rightarrow> 'b) \<Rightarrow> ('b, 'a kproc_scheme) kop" where
  "get_proc i f = kget (\<lambda>s. f (ptable s ! i))"

definition myproc :: "(nat option, 'a machine_scheme) kop" where
  "myproc =
     kseq pushcli (
     kbind mycpu (\<lambda>c.
     kbind (kget (\<lambda>s. cpu_proc (cpus s ! c))) (\<lambda>p.
     kseq popcli (kret p))))"

text \<open>Most callers use the result of \<open>myproc\<close> without a null check.\<close>

definition with_proc :: "(nat \<Rightarrow> ('b, 'a machine_scheme) kop) \<Rightarrow> ('b, 'a machine_scheme) kop" where
  "with_proc f = kbind myproc (\<lambda>p. case p of None \<Rightarrow> kfault | Some i \<Rightarrow> f i)"

definition pinit :: "(unit, 'a kproc_scheme) kop" where
  "pinit = initlock L_ptable"

definition cpuid :: "(nat, 'a machine_scheme) kop" where
  "cpuid = mycpu"

section \<open>Giving up the processor\<close>

definition sched :: "(unit, 'a kproc_scheme) kop" where
  "sched =
     kbind myproc (\<lambda>p.
     kbind (holding L_ptable) (\<lambda>h.
     kseq (kassert h ''sched ptable.lock'') (
     kbind mycpu (\<lambda>c.
     kbind (kget (\<lambda>s. ncli (cpus s ! c))) (\<lambda>n.
     kseq (kassert (n = 1) ''sched locks'') (
     case p of None \<Rightarrow> kfault | Some i \<Rightarrow>
     kbind (get_proc i pstate) (\<lambda>st.
     kseq (kassert (st \<noteq> RUNNING) ''sched running'') (
     kbind (kget eflags) (\<lambda>fl.
     kseq (kassert (fl AND FL_IF = 0) ''sched interruptible'') kswitch)))))))))"

definition yield :: "(unit, 'a kproc_scheme) kop" where
  "yield = kseq (acquire L_ptable) (with_proc (\<lambda>p.
     kseq (upd_proc p (\<lambda>q. q\<lparr>pstate := RUNNABLE\<rparr>)) (
     kseq sched (release L_ptable))))"

definition sleep_resume :: "nat \<Rightarrow> lock_id \<Rightarrow> (unit, 'a kproc_scheme) kop" where
  "sleep_resume i lk =
     kseq (upd_proc i (\<lambda>q. q\<lparr>pchan := None\<rparr>)) (
     kwhen (lk \<noteq> L_ptable) (kseq (release L_ptable) (acquire lk)))"

definition sleep :: "chan \<Rightarrow> lock_id \<Rightarrow> (unit, 'a kproc_scheme) kop" where
  "sleep ch lk =
     kbind myproc (\<lambda>p.
     case p of None \<Rightarrow> kpanic ''sleep'' | Some i \<Rightarrow>
     kseq (kwhen (lk \<noteq> L_ptable) (kseq (acquire L_ptable) (release lk))) (
     kseq (upd_proc i (\<lambda>q. q\<lparr>pchan := Some ch\<rparr>)) (
     kseq (upd_proc i (\<lambda>q. q\<lparr>pstate := SLEEPING\<rparr>)) (
     kseq sched (sleep_resume i lk)))))"

definition wakeup_proc :: "chan \<Rightarrow> proc \<Rightarrow> proc" where
  "wakeup_proc ch p = (if pstate p = SLEEPING \<and> pchan p = Some ch then p\<lparr>pstate := RUNNABLE\<rparr> else p)"

definition wakeup1 :: "chan \<Rightarrow> (unit, 'a kproc_scheme) kop" where
  "wakeup1 ch = kmod (\<lambda>s. s\<lparr>ptable := map (wakeup_proc ch) (ptable s)\<rparr>)"

definition wakeup :: "chan \<Rightarrow> (unit, 'a kproc_scheme) kop" where
  "wakeup ch = kseq (acquire L_ptable) (kseq (wakeup1 ch) (release L_ptable))"

definition kill :: "uint32 \<Rightarrow> (int, 'a kproc_scheme) kop" where
  "kill n =
     kseq (acquire L_ptable) (
     kbind (kget (\<lambda>s. find_index (\<lambda>p. pid p = n) (ptable s))) (\<lambda>r.
     case r of
       Some i \<Rightarrow>
         kseq (upd_proc i (\<lambda>p. p\<lparr>killed := 1\<rparr>)) (
         kbind (get_proc i pstate) (\<lambda>st.
         kseq (kwhen (st = SLEEPING) (upd_proc i (\<lambda>p. p\<lparr>pstate := RUNNABLE\<rparr>))) (
         kseq (release L_ptable) (kret 0))))
     | None \<Rightarrow> kseq (release L_ptable) (kret (- 1))))"

section \<open>Sleep locks\<close>

fun sleep_spin :: "sleep_id \<Rightarrow> lock_id" where
  "sleep_spin (S_inode i) = L_inode i"
| "sleep_spin (S_buf i) = L_buf i"

definition upd_sleeplock :: "sleep_id \<Rightarrow> (sleeplock \<Rightarrow> sleeplock) \<Rightarrow> (unit, 'a kproc_scheme) kop" where
  "upd_sleeplock k f = kmod (\<lambda>s. s\<lparr>sleeplocks := (sleeplocks s)(k := f (sleeplocks s k))\<rparr>)"

definition initsleeplock :: "sleep_id \<Rightarrow> (unit, 'a kproc_scheme) kop" where
  "initsleeplock k =
     kseq (initlock (sleep_spin k)) (
     kseq (upd_sleeplock k (\<lambda>l. l\<lparr>slk_locked := 0\<rparr>)) (
     upd_sleeplock k (\<lambda>l. l\<lparr>slk_pid := 0\<rparr>)))"

definition acquiresleep :: "sleep_id \<Rightarrow> (unit, 'a kproc_scheme) kop" where
  "acquiresleep k =
     kseq (acquire (sleep_spin k)) (
     kbind (kget (\<lambda>s. slk_locked (sleeplocks s k))) (\<lambda>l.
     if l \<noteq> 0 then sleep (C_sleeplock k) (sleep_spin k) else
     kseq (upd_sleeplock k (\<lambda>l. l\<lparr>slk_locked := 1\<rparr>)) (
     with_proc (\<lambda>p. kbind (get_proc p pid) (\<lambda>n.
     kseq (upd_sleeplock k (\<lambda>l. l\<lparr>slk_pid := n\<rparr>)) (
     release (sleep_spin k)))))))"

definition releasesleep :: "sleep_id \<Rightarrow> (unit, 'a kproc_scheme) kop" where
  "releasesleep k =
     kseq (acquire (sleep_spin k)) (
     kseq (upd_sleeplock k (\<lambda>l. l\<lparr>slk_locked := 0\<rparr>)) (
     kseq (upd_sleeplock k (\<lambda>l. l\<lparr>slk_pid := 0\<rparr>)) (
     kseq (wakeup (C_sleeplock k)) (
     release (sleep_spin k)))))"

definition holdingsleep :: "sleep_id \<Rightarrow> (uint32, 'a kproc_scheme) kop" where
  "holdingsleep k =
     kseq (acquire (sleep_spin k)) (
     kbind (kget (\<lambda>s. slk_locked (sleeplocks s k))) (\<lambda>r.
     kseq (release (sleep_spin k)) (kret r)))"


section \<open>Running the operations\<close>

definition cur :: "'a machine_scheme \<Rightarrow> nat option" where
  "cur s = cpu_proc (cpus s ! this_cpu s)"

lemma entered_kproc [simp]:
  "ptable (entered l s) = ptable s" "nextpid (entered l s) = nextpid s" "initproc (entered l s) = initproc s"
  "sleeplocks (entered l s) = sleeplocks s"
  by (simp_all add: entered_def Let_def)

lemma cur_entered [simp]: "cpu_ok s \<Longrightarrow> cur (entered l s) = cur s"
  by (simp add: cur_def cpu_ok_def) (simp add: entered_def Let_def)

lemma lock_ok_kproc [simp]:
  "lock_ok l (s\<lparr>ptable := p\<rparr>) = lock_ok l s" "lock_ok l (s\<lparr>sleeplocks := k\<rparr>) = lock_ok l s"
  "lock_ok l (s\<lparr>nextpid := n\<rparr>) = lock_ok l s"
  by (simp_all add: lock_ok_def cpu_ok_def lock_free_def this_cpu_def)

lemma lock_ok_cpu_ok: "lock_ok l s \<Longrightarrow> cpu_ok s"
  by (simp add: lock_ok_def)

lemma mycpu_ok: "cpu_ok s \<Longrightarrow> eflags s AND 512 = 0 \<Longrightarrow> mycpu s = Done (this_cpu s) s"
  by (intro mycpu_run) (simp_all add: cpu_ok_def)

lemma pushcli_cpu_proc:
  assumes "cpu_ok s" "pushcli s = Done () t"
  shows "this_cpu t = this_cpu s" "cpu_proc (cpus t ! this_cpu s) = cpu_proc (cpus s ! this_cpu s)"
  using assms by (auto simp: pushcli_run cpu_ok_def Let_def this_cpu_def)

lemma myproc_run:
  assumes "cpu_ok s" shows "myproc s = Done (cur s) s"
proof -
  obtain t where t: "pushcli s = Done () t" "cpu_ok t" "eflags t AND FL_IF = 0" "popcli t = Done () s"
    using pushcli_popcli [OF assms] by blast
  then show ?thesis
    using pushcli_cpu_proc [OF assms t(1)] by (simp add: myproc_def kmonad mycpu_ok cur_def)
qed

lemma with_proc_run: "cpu_ok s \<Longrightarrow> cur s = Some p \<Longrightarrow> with_proc f s = f p s"
  by (simp add: with_proc_def kmonad myproc_run)

lemma wakeup_run:
  assumes "lock_ok L_ptable s"
  shows "wakeup ch s = Done () (s\<lparr>ptable := map (wakeup_proc ch) (ptable s)\<rparr>)"
  unfolding wakeup_def wakeup1_def
  by (rule locked_kmod [OF assms]) (simp_all, simp add: entered_def Let_def)

lemma sched_run:
  assumes "lock_ok L_ptable s" "ncli (cpus s ! this_cpu s) = 0" "cur s = Some p"
    "pstate (q ! p) \<noteq> RUNNING"
  shows "sched ((entered L_ptable s)\<lparr>ptable := q\<rparr>) = Switch ((entered L_ptable s)\<lparr>ptable := q\<rparr>)"
proof -
  let ?t = "(entered L_ptable s)\<lparr>ptable := q\<rparr>"
  have ok: "cpu_ok ?t" and c: "cur ?t = Some p" and th: "this_cpu ?t = this_cpu s"
    using entered_cpu_ok [of s L_ptable] cur_entered [of s L_ptable] assms
      this_cpu_entered [of L_ptable s]
    by (simp_all add: lock_ok_def cpu_ok_def this_cpu_def cur_def)
  have fl: "eflags ?t AND 512 = 0" by (simp add: entered_def Let_def)
  have i: "this_cpu s < length (cpus s)" using assms(1) by (simp add: lock_ok_def cpu_ok_def)
  have l: "locks ?t L_ptable = \<lparr>sl_locked = 1, sl_cpu = Some (this_cpu s)\<rparr>"
    by (simp add: entered_def Let_def)
  have n: "ncli (cpus ?t ! this_cpu s) = 1" using assms(2) i by (simp add: entered_def Let_def)
  show ?thesis
    using assms(4) c fl l n th
    by (simp add: sched_def kmonad myproc_run [OF ok] holding_def mycpu_ok [OF ok fl] get_proc_def kswitch_def)
qed

lemma entered_ptable_upd:
  "i < length (ptable s) \<Longrightarrow>
   upd_proc i f ((entered l s)\<lparr>ptable := q\<rparr>) = Done () ((entered l s)\<lparr>ptable := q[i := f (q ! i)]\<rparr>)"
  by (simp add: upd_proc_def)

lemma sleep_run:
  assumes "lock_ok lk s" "lock_ok L_ptable s" "ncli (cpus s ! this_cpu s) = 0" "cur s = Some p"
    "p < length (ptable s)"
  shows "sleep ch lk (entered lk s) = Switch ((entered L_ptable s)\<lparr>ptable :=
     (ptable s)[p := (ptable s ! p)\<lparr>pchan := Some ch, pstate := SLEEPING\<rparr>]\<rparr>)"
proof -
  have ok: "cpu_ok (entered lk s)" and c: "cur (entered lk s) = Some p"
    using entered_cpu_ok lock_ok_cpu_ok [OF assms(1)] assms(4) by auto
  have "kwhen (lk \<noteq> L_ptable) (kseq (acquire L_ptable) (release lk)) (entered lk s) = Done () (entered L_ptable s)"
  proof (cases "lk = L_ptable")
    case False
    then show ?thesis
      using acquire_entered [OF entered_lock_ok [OF assms(2,1)]] release_outer [OF assms(1,2)]
      by (simp add: kmonad)
  qed (simp add: kmonad)
  then show ?thesis
    using sched_run [OF assms(2,3,4), of "(ptable s)[p := (ptable s ! p)\<lparr>pchan := Some ch, pstate := SLEEPING\<rparr>]"]
      assms(5)
    by (simp add: sleep_def kmonad myproc_run [OF ok] c upd_proc_def)
qed

lemma kill_run:
  assumes "lock_ok L_ptable s"
  shows "kill n s = (case find_index (\<lambda>p. pid p = n) (ptable s) of
      None \<Rightarrow> Done (- 1) s
    | Some i \<Rightarrow> Done 0 (s\<lparr>ptable := (ptable s)[i := (ptable s ! i)\<lparr>killed := 1,
        pstate := (if pstate (ptable s ! i) = SLEEPING then RUNNABLE else pstate (ptable s ! i))\<rparr>]\<rparr>))"
proof (cases "find_index (\<lambda>p. pid p = n) (ptable s)")
  case None
  have "release L_ptable (entered L_ptable s) = Done () s"
    using release_entered [OF assms, of "entered L_ptable s"] by (simp add: entered_def Let_def)
  then show ?thesis using None by (simp add: kill_def kmonad acquire_entered [OF assms])
next
  case (Some i)
  have i: "i < length (ptable s)" using find_index_Some [OF Some] by simp
  have "release L_ptable ((entered L_ptable s)\<lparr>ptable := q\<rparr>) = Done () (s\<lparr>ptable := q\<rparr>)" for q
    using release_entered [OF assms, of "(entered L_ptable s)\<lparr>ptable := q\<rparr>"]
    by (simp add: entered_def Let_def)
  then show ?thesis
    using Some i
    by (simp add: kill_def kmonad acquire_entered [OF assms] upd_proc_def get_proc_def)
qed

lemma release_sleeplock:
  assumes "lock_ok l s"
  shows "release l ((entered l s)\<lparr>ptable := q, sleeplocks := k\<rparr>) = Done () (s\<lparr>ptable := q, sleeplocks := k\<rparr>)"
  using release_entered [OF assms, of "(entered l s)\<lparr>ptable := q, sleeplocks := k\<rparr>"]
  by (simp add: entered_def Let_def)

lemma sleeplock_upd [simp]: "r\<lparr>slk_locked := a, slk_pid := b\<rparr> = \<lparr>slk_locked = a, slk_pid = b\<rparr>"
  by (cases r) simp

lemma sleep_spin_ptable [simp]: "sleep_spin k \<noteq> L_ptable" "L_ptable \<noteq> sleep_spin k"
  by (cases k; simp)+

lemma acquiresleep_free:
  assumes "lock_ok (sleep_spin k) s" "slk_locked (sleeplocks s k) = 0" "cur s = Some p"
  shows "acquiresleep k s =
     Done () (s\<lparr>sleeplocks := (sleeplocks s)(k := \<lparr>slk_locked = 1, slk_pid = pid (ptable s ! p)\<rparr>)\<rparr>)"
proof -
  let ?l = "sleep_spin k"
  let ?t = "\<lambda>f. (entered ?l s)\<lparr>sleeplocks := f\<rparr>"
  have ok: "cpu_ok (?t f)" and c: "cur (?t f) = Some p" for f
    using entered_cpu_ok [of s ?l] cur_entered [of s ?l] assms
    by (simp_all add: lock_ok_def cpu_ok_def this_cpu_def cur_def)
  have "release ?l (?t f) = Done () (s\<lparr>sleeplocks := f\<rparr>)" for f
    using release_sleeplock [OF assms(1), where q = "ptable s" and k = f] by (simp add: entered_def Let_def)
  then show ?thesis
    using assms(2)
    by (simp add: acquiresleep_def kmonad acquire_entered [OF assms(1)] upd_sleeplock_def
        with_proc_run [OF ok c] get_proc_def)
qed

lemma acquiresleep_busy:
  assumes "lock_ok (sleep_spin k) s" "slk_locked (sleeplocks s k) \<noteq> 0" "cur s = Some p"
    "lock_ok L_ptable s" "ncli (cpus s ! this_cpu s) = 0" "p < length (ptable s)"
  shows "acquiresleep k s = Switch ((entered L_ptable s)\<lparr>ptable :=
     (ptable s)[p := (ptable s ! p)\<lparr>pchan := Some (C_sleeplock k), pstate := SLEEPING\<rparr>]\<rparr>)"
  using assms sleep_run [OF assms(1,4,5,3,6)]
  by (simp add: acquiresleep_def kmonad acquire_entered [OF assms(1)])

lemma releasesleep_run:
  assumes "lock_ok (sleep_spin k) s" "lock_ok L_ptable s"
  shows "releasesleep k s = Done () (s\<lparr>ptable := map (wakeup_proc (C_sleeplock k)) (ptable s),
     sleeplocks := (sleeplocks s)(k := \<lparr>slk_locked = 0, slk_pid = 0\<rparr>)\<rparr>)"
proof -
  let ?l = "sleep_spin k" and ?f = "(sleeplocks s)(k := \<lparr>slk_locked = 0, slk_pid = 0\<rparr>)"
  let ?t = "(entered ?l s)\<lparr>sleeplocks := ?f\<rparr>"
  have "lock_ok L_ptable ?t" using entered_lock_ok [OF assms(2,1)] by simp
  then have "wakeup (C_sleeplock k) ?t
     = Done () ((entered ?l s)\<lparr>ptable := map (wakeup_proc (C_sleeplock k)) (ptable s), sleeplocks := ?f\<rparr>)"
    by (simp add: wakeup_run)
  then show ?thesis
    using release_sleeplock [OF assms(1)]
    by (simp add: releasesleep_def kmonad acquire_entered [OF assms(1)] upd_sleeplock_def)
qed

lemma holdingsleep_run:
  assumes "lock_ok (sleep_spin k) s"
  shows "holdingsleep k s = Done (slk_locked (sleeplocks s k)) s"
  using release_sleeplock [OF assms, where q = "ptable s" and k = "sleeplocks s"]
  by (simp add: holdingsleep_def kmonad acquire_entered [OF assms]) (simp add: entered_def Let_def)

section \<open>Correctness of sleeping and waking\<close>

definition sample_proc :: proc where
  "sample_proc = \<lparr>sz = 0, pgdir = 0, kstack = 0, pstate = UNUSED, pid = 0, parent = None, tf = 0, ctx = 0,
     pchan = None, killed = 0, ofile = replicate 16 None, cwd = None, pname = [], stacksize = 0,
     stack_growing = 0, num_mem_page_entries = 0, num_virtual_page = 0, vpfile = replicate 4 None,
     mem_page_head = 0, mem_page_tail = 0, mem_queue_head = 0, mem_queue_tail = 0,
     virtual_page_head = 0, virtual_page_tail = 0, shrmem_sigs = replicate 128 0\<rparr>"

definition sample_kproc :: kproc where
  "sample_kproc = \<lparr>cpus = [sample_cpu], lapicid = 0, eflags = 512, cr2 = 0, cr3 = 0, tr = 0, gdtr = None,
     locks = (\<lambda>_. \<lparr>sl_locked = 0, sl_cpu = None\<rparr>), kend = 0x80110000, kdata = 0x80108000,
     memory = sample_memory, kmem = sample_kmem,
     ptable = [sample_proc\<lparr>pstate := RUNNING, pid := 1\<rparr>,
       sample_proc\<lparr>pstate := SLEEPING, pid := 2, pchan := Some (C_sleeplock (S_buf 0))\<rparr>]
       @ replicate 62 sample_proc,
     nextpid = 3, initproc = Some 0,
     sleeplocks = (\<lambda>_. \<lparr>slk_locked = 0, slk_pid = 0\<rparr>)(S_buf 0 := \<lparr>slk_locked = 1, slk_pid = 1\<rparr>),
     sym_trapret = 0x80105000, sym_forkret = 0x80104000\<rparr>"

lemma sample_kproc_lock [simp]: "lock_ok l sample_kproc"
  by (simp add: lock_ok_def cpu_ok_def lock_free_def this_cpu_def cpu_index_def sample_kproc_def sample_cpu_def Let_def)

lemma sample_kproc_cur [simp]: "cur sample_kproc = Some 0" "ncli (cpus sample_kproc ! this_cpu sample_kproc) = 0"
  by (simp_all add: cur_def this_cpu_def cpu_index_def sample_kproc_def sample_cpu_def)



text \<open>\<open>wakeup\<close> makes runnable exactly the processes that sleep on its channel and changes nothing
  else of any process.\<close>

theorem wakeup_exact:
  assumes "lock_ok L_ptable s"
  shows "\<exists>t. wakeup ch s = Done () t \<and> length (ptable t) = length (ptable s) \<and>
     (\<forall>i < length (ptable s). ptable t ! i =
        (if pstate (ptable s ! i) = SLEEPING \<and> pchan (ptable s ! i) = Some ch
         then (ptable s ! i)\<lparr>pstate := RUNNABLE\<rparr> else ptable s ! i))
     \<and> t = s\<lparr>ptable := ptable t\<rparr>"
  using wakeup_run [OF assms, of ch] by (auto simp: wakeup_proc_def)

theorem wakeup_exact_witness:
  "\<exists>t. wakeup (C_sleeplock (S_buf 0)) sample_kproc = Done () t \<and> pstate (ptable t ! 1) = RUNNABLE
     \<and> pstate (ptable t ! 0) = RUNNING"
proof -
  have "ptable sample_kproc ! 1 = sample_proc\<lparr>pstate := SLEEPING, pid := 2, pchan := Some (C_sleeplock (S_buf 0))\<rparr>"
    "ptable sample_kproc ! 0 = sample_proc\<lparr>pstate := RUNNING, pid := 1\<rparr>" "length (ptable sample_kproc) = 64"
    by (simp_all add: sample_kproc_def)
  then show ?thesis using wakeup_exact [of sample_kproc "C_sleeplock (S_buf 0)"] by auto
qed



text \<open>\<open>releasesleep\<close> frees the lock and makes every process that waits for it runnable.\<close>

theorem releasesleep_hands_over:
  assumes "lock_ok (sleep_spin k) s" "lock_ok L_ptable s" "p < length (ptable s)"
    "pstate (ptable s ! p) = SLEEPING" "pchan (ptable s ! p) = Some (C_sleeplock k)"
  shows "\<exists>t. releasesleep k s = Done () t \<and> slk_locked (sleeplocks t k) = 0
     \<and> pstate (ptable t ! p) = RUNNABLE"
  using releasesleep_run [OF assms(1,2)] assms(3-5) by (simp add: wakeup_proc_def)

theorem releasesleep_hands_over_witness:
  "\<exists>t. releasesleep (S_buf 0) sample_kproc = Done () t \<and> pstate (ptable t ! 1) = RUNNABLE"
proof -
  have "ptable sample_kproc ! 1 = sample_proc\<lparr>pstate := SLEEPING, pid := 2, pchan := Some (C_sleeplock (S_buf 0))\<rparr>"
    "length (ptable sample_kproc) = 64"
    by (simp_all add: sample_kproc_def)
  then show ?thesis using releasesleep_hands_over [of "S_buf 0" sample_kproc 1] by auto
qed

end
