(* ===== verification/PageLists.thy ===== *)
theory PageLists
  imports Ptable
begin

text \<open>
  The page lists of a process (proc.c and the slot functions of vm.c). Resident pages are
  recorded in entries \<open>{vaddr, next, prev}\<close> of \<open>struct mem_page\<close>, 256 of them per 4096-byte page at
  offset 8, and linked into a first-in first-out queue; pages in the swap files are recorded in
  \<open>struct virtual_page\<close>, 64 entries of one word. All of it lives in the byte memory at the field
  offsets of the C structures.
\<close>

abbreviation (input) "NUM_MEM_PAGE_ENTRIES \<equiv> 256 :: nat"
abbreviation (input) "NUM_VIRTUAL_PAGE_ENTRIES \<equiv> 64 :: nat"
abbreviation (input) "NUM_MEM_PAGES \<equiv> 32 :: nat"
abbreviation (input) "MAX_VPFILES \<equiv> 4 :: nat"
abbreviation (input) "PROC_SHR_MEM_NUM \<equiv> 128 :: nat"
abbreviation (input) "MEM_CAPACITY \<equiv> 8192 :: uint32"
abbreviation (input) "VIRTUAL_PAGE_OFFSET \<equiv> 0x40000 :: uint32"

section \<open>Fields in memory\<close>

definition st32 :: "uint32 \<Rightarrow> uint32 \<Rightarrow> (unit, 'a kheap_scheme) kop" where
  "st32 a v = upd_memory (\<lambda>m. store32 m a v)"

definition ld32 :: "uint32 \<Rightarrow> (uint32, 'a kheap_scheme) kop" where
  "ld32 a = kget (\<lambda>s. load32 (memory s) a)"

text \<open>Access to a field of the structure a pointer points to.\<close>

definition pst :: "uint32 \<Rightarrow> uint32 \<Rightarrow> uint32 \<Rightarrow> (unit, 'a kheap_scheme) kop" where
  "pst p off v = (if p = 0 then kfault else st32 (p + off) v)"

definition pld :: "uint32 \<Rightarrow> uint32 \<Rightarrow> (uint32, 'a kheap_scheme) kop" where
  "pld p off = (if p = 0 then kfault else ld32 (p + off))"

definition mp_entry :: "uint32 \<Rightarrow> nat \<Rightarrow> uint32" where
  "mp_entry page i = page + 8 + 12 * of_nat i"

definition vp_entry :: "uint32 \<Rightarrow> nat \<Rightarrow> uint32" where
  "vp_entry page i = page + 8 + 4 * of_nat i"

section \<open>Resident pages\<close>

fun clear_entries :: "uint32 \<Rightarrow> nat \<Rightarrow> mem \<Rightarrow> mem" where
  "clear_entries page 0 m = m"
| "clear_entries page (Suc n) m =
     (let m = clear_entries page n m; e = mp_entry page n in
      store32 (store32 (store32 m (e + 8) 0) (e + 4) 0) e SLOT_USABLE)"

definition mem_page_clear :: "uint32 \<Rightarrow> bool \<Rightarrow> (unit, 'a kheap_scheme) kop" where
  "mem_page_clear page clear_link = upd_memory (\<lambda>m.
     let m = clear_entries page NUM_MEM_PAGE_ENTRIES m in
     if clear_link then store32 (store32 m (page + 4) 0) page 0 else m)"

definition mem_page_alloc :: "(uint32, 'a kheap_scheme) kop" where
  "mem_page_alloc = kbind kalloc (\<lambda>p.
     if p = 0 then kret 0 else kseq (mem_page_clear p True) (kret p))"

fun mem_clear_loop :: "nat \<Rightarrow> uint32 \<Rightarrow> (unit, 'a kheap_scheme) kop" where
  "mem_clear_loop 0 p = kspin"
| "mem_clear_loop (Suc n) p =
     (if p = 0 then kret ()
      else kseq (mem_page_clear p False) (kbind (ld32 (p + 4)) (mem_clear_loop n)))"

definition mem_clear :: "nat \<Rightarrow> (unit, 'a kproc_scheme) kop" where
  "mem_clear pr =
     kbind (get_proc pr mem_page_head) (\<lambda>p.
     kseq (mem_clear_loop page_fuel p) (
     kseq (upd_proc pr (\<lambda>q. q\<lparr>num_mem_page_entries := 0\<rparr>)) (
     kseq (upd_proc pr (\<lambda>q. q\<lparr>mem_queue_head := 0\<rparr>)) (
     upd_proc pr (\<lambda>q. q\<lparr>mem_queue_tail := 0\<rparr>)))))"

fun mem_alloc_loop :: "nat \<Rightarrow> uint32 \<Rightarrow> uint32 \<Rightarrow> (uint32, 'a kheap_scheme) kop" where
  "mem_alloc_loop 0 slow head = kret head"
| "mem_alloc_loop (Suc n) slow head =
     kbind mem_page_alloc (\<lambda>fast.
     if fast = 0 then kret 0 else
     kseq (st32 (slow + 4) fast) (
     kseq (st32 fast slow) (
     mem_alloc_loop n fast head)))"

definition mem_alloc :: "(uint32, 'a kheap_scheme) kop" where
  "mem_alloc = kbind mem_page_alloc (\<lambda>slow.
     if slow = 0 then kret 0 else mem_alloc_loop (NUM_MEM_PAGES - 1) slow slow)"

section \<open>Swapped pages\<close>

fun clear_ventries :: "uint32 \<Rightarrow> nat \<Rightarrow> mem \<Rightarrow> mem" where
  "clear_ventries page 0 m = m"
| "clear_ventries page (Suc n) m = store32 (clear_ventries page n m) (vp_entry page n) SLOT_USABLE"

definition virtual_page_clear :: "uint32 \<Rightarrow> bool \<Rightarrow> (unit, 'a kheap_scheme) kop" where
  "virtual_page_clear page clear_link = upd_memory (\<lambda>m.
     let m = clear_ventries page NUM_VIRTUAL_PAGE_ENTRIES m in
     if clear_link then store32 (store32 m (page + 4) 0) page 0 else m)"

definition virtual_page_alloc :: "(uint32, 'a kheap_scheme) kop" where
  "virtual_page_alloc = kbind kalloc (\<lambda>p.
     if p = 0 then kret 0 else kseq (virtual_page_clear p True) (kret p))"

fun vmem_clear_loop :: "nat \<Rightarrow> uint32 \<Rightarrow> (unit, 'a kheap_scheme) kop" where
  "vmem_clear_loop 0 p = kspin"
| "vmem_clear_loop (Suc n) p =
     (if p = 0 then kret ()
      else kseq (virtual_page_clear p False) (kbind (ld32 (p + 4)) (vmem_clear_loop n)))"

definition vmem_clear :: "nat \<Rightarrow> (unit, 'a kproc_scheme) kop" where
  "vmem_clear pr = kbind (get_proc pr virtual_page_head) (vmem_clear_loop page_fuel)"

definition vmem_growpage :: "nat \<Rightarrow> (int, 'a kproc_scheme) kop" where
  "vmem_growpage pr =
     kbind (get_proc pr virtual_page_head) (\<lambda>head.
     if head = 0 then
       kbind virtual_page_alloc (\<lambda>p.
       kseq (upd_proc pr (\<lambda>q. q\<lparr>virtual_page_head := p\<rparr>)) (
       if p = 0 then kret (- 1) else
       kseq (upd_proc pr (\<lambda>q. q\<lparr>virtual_page_tail := p\<rparr>)) (kret 0)))
     else
       kbind (get_proc pr virtual_page_tail) (\<lambda>temp.
       kbind virtual_page_alloc (\<lambda>p.
       kseq (upd_proc pr (\<lambda>q. q\<lparr>virtual_page_tail := p\<rparr>)) (
       if p = 0 then kret (- 1) else
       kseq (pst temp 4 p) (
       kseq (pst p 0 temp) (kret 0))))))"

section \<open>Copying the lists for a child\<close>

fun copy_queue :: "nat \<Rightarrow> uint32 \<Rightarrow> nat \<Rightarrow> uint32 \<Rightarrow> uint32 \<Rightarrow> (uint32, 'a kheap_scheme) kop" where
  "copy_queue 0 curpg curpos cursrcent olddstent = kspin"
| "copy_queue (Suc n) curpg curpos cursrcent olddstent =
     (if cursrcent = 0 then kret olddstent else
      let e = mp_entry curpg curpos in
      kseq (kwhen (olddstent \<noteq> 0) (st32 (olddstent + 4) e)) (
      if curpg = 0 then kfault else
      kseq (st32 (e + 8) olddstent) (
      kbind (ld32 cursrcent) (\<lambda>va.
      kseq (st32 e va) (
      kbind (ld32 (cursrcent + 4)) (\<lambda>nx.
      if Suc curpos = NUM_MEM_PAGE_ENTRIES
      then kbind (ld32 (curpg + 4)) (\<lambda>pg. copy_queue n pg 0 nx e)
      else copy_queue n curpg (Suc curpos) nx e))))))"

fun copy_mem_grow :: "nat \<Rightarrow> nat \<Rightarrow> nat \<Rightarrow> (bool, 'a kproc_scheme) kop" where
  "copy_mem_grow 0 dst src = kspin"
| "copy_mem_grow (Suc n) dst src =
     kbind (get_proc src num_virtual_page) (\<lambda>a.
     kbind (get_proc dst num_virtual_page) (\<lambda>b.
     if b <s a then
       kbind (vmem_growpage dst) (\<lambda>r. if r = 0 then kret False else copy_mem_grow n dst src)
     else kret True))"

fun copy_ventries :: "uint32 \<Rightarrow> uint32 \<Rightarrow> nat \<Rightarrow> mem \<Rightarrow> mem" where
  "copy_ventries dst src 0 m = m"
| "copy_ventries dst src (Suc n) m =
     (let m = copy_ventries dst src n m in store32 m (vp_entry dst n) (load32 m (vp_entry src n)))"

fun copy_vpages :: "nat \<Rightarrow> uint32 \<Rightarrow> uint32 \<Rightarrow> (unit, 'a kheap_scheme) kop" where
  "copy_vpages 0 srccurpg dstcurpg = kspin"
| "copy_vpages (Suc n) srccurpg dstcurpg =
     (if srccurpg = 0 then kret () else
      if dstcurpg = 0 then kfault else
      kseq (upd_memory (copy_ventries dstcurpg srccurpg NUM_VIRTUAL_PAGE_ENTRIES)) (
      kbind (ld32 (dstcurpg + 4)) (\<lambda>d.
      kbind (ld32 (srccurpg + 4)) (\<lambda>sr.
      copy_vpages n sr d))))"

definition copy_mem :: "nat \<Rightarrow> nat \<Rightarrow> (int, 'a kproc_scheme) kop" where
  "copy_mem dst src =
     kseq (mem_clear dst) (
     kbind (get_proc src num_mem_page_entries) (\<lambda>n.
     kseq (upd_proc dst (\<lambda>q. q\<lparr>num_mem_page_entries := n\<rparr>)) (
     kseq (upd_proc dst (\<lambda>q. q\<lparr>mem_queue_head := 0\<rparr>)) (
     kseq (upd_proc dst (\<lambda>q. q\<lparr>mem_queue_tail := 0\<rparr>)) (
     kbind (get_proc dst mem_page_head) (\<lambda>curpg.
     kbind (get_proc src mem_queue_head) (\<lambda>cursrcent.
     kseq (kwhen (cursrcent \<noteq> 0) (upd_proc dst (\<lambda>q. q\<lparr>mem_queue_head := mp_entry curpg 0\<rparr>))) (
     kbind (copy_queue page_fuel curpg 0 cursrcent 0) (\<lambda>old.
     kseq (upd_proc dst (\<lambda>q. q\<lparr>mem_queue_tail := old\<rparr>)) (
     kbind (copy_mem_grow page_fuel dst src) (\<lambda>ok.
     if \<not> ok then kret (- 1) else
     kbind (get_proc src virtual_page_head) (\<lambda>sp.
     kbind (get_proc dst virtual_page_head) (\<lambda>dp.
     kseq (copy_vpages page_fuel sp dp) (kret 0))))))))))))))"

section \<open>Recording a new resident page\<close>

definition free_slot :: "mem \<Rightarrow> uint32 \<Rightarrow> nat option" where
  "free_slot m page = find_index (\<lambda>i. load32 m (mp_entry page i) = SLOT_USABLE) [0..<NUM_MEM_PAGE_ENTRIES]"

definition take_slot :: "uint32 \<Rightarrow> uint32 \<Rightarrow> nat \<Rightarrow> (unit, 'a kproc_scheme) kop" where
  "take_slot e va pr =
     kseq (st32 e va) (
     kbind (get_proc pr mem_queue_head) (\<lambda>h.
     kseq (st32 (e + 4) h) (
     if h = 0 then
       kseq (upd_proc pr (\<lambda>q. q\<lparr>mem_queue_tail := e\<rparr>)) (upd_proc pr (\<lambda>q. q\<lparr>mem_queue_head := e\<rparr>))
     else
       kseq (st32 (h + 8) e) (upd_proc pr (\<lambda>q. q\<lparr>mem_queue_head := e\<rparr>)))))"

fun find_slot_loop :: "nat \<Rightarrow> uint32 \<Rightarrow> uint32 \<Rightarrow> nat \<Rightarrow> (unit, 'a kproc_scheme) kop" where
  "find_slot_loop 0 curpg va pr = kspin"
| "find_slot_loop (Suc n) curpg va pr =
     (if curpg = 0 then kpanic ''[ERROR] No free slot in memory.'' else
      kbind (kget (\<lambda>s. free_slot (memory s) curpg)) (\<lambda>r.
      case r of
        Some i \<Rightarrow> take_slot (mp_entry curpg i) va pr
      | None \<Rightarrow> kbind (ld32 (curpg + 4)) (\<lambda>pg. find_slot_loop n pg va pr)))"

definition find_slot :: "uint32 \<Rightarrow> nat \<Rightarrow> (unit, 'a kproc_scheme) kop" where
  "find_slot va pr = kbind (get_proc pr mem_page_head) (\<lambda>p. find_slot_loop page_fuel p va pr)"

definition add_page :: "uint32 \<Rightarrow> (unit, 'a kproc_scheme) kop" where
  "add_page va = with_proc (\<lambda>p.
     kseq (find_slot va p) (
     upd_proc p (\<lambda>q. q\<lparr>num_mem_page_entries := num_mem_page_entries q + 1\<rparr>)))"

section \<open>New processes\<close>

definition vpminit :: "(unit, 'a kproc_scheme) kop" where
  "vpminit =
     kseq (acquire L_ptable) (
     kseq (kmod (\<lambda>s. s\<lparr>ptable := map (\<lambda>p. p\<lparr>num_mem_page_entries := 0, mem_page_head := 0, mem_page_tail := 0,
        virtual_page_head := 0, virtual_page_tail := 0, mem_queue_head := 0, mem_queue_tail := 0,
        num_virtual_page := 0, vpfile := map (\<lambda>_. None) (vpfile p)\<rparr>) (ptable s)\<rparr>)) (
     release L_ptable))"

definition allocproc :: "(nat option, 'a kproc_scheme) kop" where
  "allocproc =
     kseq (acquire L_ptable) (
     kbind (kget (\<lambda>s. find_index (\<lambda>p. pstate p = UNUSED) (ptable s))) (\<lambda>r.
     case r of
       None \<Rightarrow> kseq (release L_ptable) (kret None)
     | Some p \<Rightarrow>
         kseq (upd_proc p (\<lambda>q. q\<lparr>pstate := EMBRYO\<rparr>)) (
         kbind (kget nextpid) (\<lambda>n.
         kseq (upd_proc p (\<lambda>q. q\<lparr>pid := n\<rparr>)) (
         kseq (kmod (\<lambda>s. s\<lparr>nextpid := n + 1\<rparr>)) (
         kseq (release L_ptable) (
         kbind kalloc (\<lambda>ks.
         kseq (upd_proc p (\<lambda>q. q\<lparr>kstack := ks\<rparr>)) (
         if ks = 0 then kseq (upd_proc p (\<lambda>q. q\<lparr>pstate := UNUSED\<rparr>)) (kret None) else
         let sp = ks + KSTACKSIZE - 76 in
         kseq (upd_proc p (\<lambda>q. q\<lparr>tf := sp\<rparr>)) (
         let sp = sp - 4 in
         kbind (kget sym_trapret) (\<lambda>tr.
         kseq (st32 sp tr) (
         let sp = sp - 20 in
         kseq (upd_proc p (\<lambda>q. q\<lparr>ctx := sp\<rparr>)) (
         kseq (upd_memory (\<lambda>m. memset m sp 0 20)) (
         kbind (kget sym_forkret) (\<lambda>fr.
         kseq (st32 (sp + 16) fr) (
         kbind (get_proc p mem_page_head) (\<lambda>mh.
         kbind (if mh = 0
            then kbind mem_alloc (\<lambda>h. kseq (upd_proc p (\<lambda>q. q\<lparr>mem_page_head := h\<rparr>)) (kret (h \<noteq> 0)))
            else kseq (mem_clear p) (kret True)) (\<lambda>ok.
         if \<not> ok then kret None else
         kseq (upd_proc p (\<lambda>q. q\<lparr>num_mem_page_entries := 0\<rparr>)) (
         kseq (upd_proc p (\<lambda>q. q\<lparr>mem_queue_head := 0\<rparr>)) (
         kseq (upd_proc p (\<lambda>q. q\<lparr>mem_queue_tail := 0\<rparr>)) (
         kseq (upd_proc p (\<lambda>q. q\<lparr>shrmem_sigs := replicate PROC_SHR_MEM_NUM 0\<rparr>)) (
         kret (Some p)))))))))))))))))))))))"

section \<open>Geometry of the structures\<close>

lemma load32_field:
  assumes "aligned 12 p" "4 dvd k" "4 dvd j" "k + 4 \<le> 4096" "j + 4 \<le> 4096"
  shows "load32 (store32 m (p + of_nat k) v) (p + of_nat j) = (if k = j then v else load32 m (p + of_nat j))"
proof (cases "k = j")
  case False
  have "aligned 2 (p + of_nat k)" "aligned 2 (p + of_nat j)"
    using assms by (auto intro!: aligned_plus aligned_mono [of 12 p 2] aligned_of_nat)
  moreover have "of_nat k \<noteq> (of_nat j :: uint32)"
    using False assms(4,5) by (simp add: word_unat_eq_iff unat_of_nat)
  ultimately show ?thesis using False by (simp add: load32_store32_aligned)
qed simp

lemma mp_entry_off:
  "mp_entry p i = p + of_nat (8 + 12 * i)" "mp_entry p i + 4 = p + of_nat (12 + 12 * i)"
  "mp_entry p i + 8 = p + of_nat (16 + 12 * i)"
  by (simp_all add: mp_entry_def algebra_simps)

lemma vp_entry_off: "vp_entry p i = p + of_nat (8 + 4 * i)"
  by (simp add: vp_entry_def algebra_simps)

definition is_slot :: "uint32 \<Rightarrow> bool" where
  "is_slot e \<longleftrightarrow> (\<exists>p i. aligned 12 p \<and> i < 256 \<and> e = mp_entry p i)"

lemma is_slot_entry: "aligned 12 p \<Longrightarrow> i < 256 \<Longrightarrow> is_slot (mp_entry p i)"
  by (auto simp: is_slot_def)

lemma slot_field_eq:
  assumes "is_slot e" "is_slot f" "j < 3" "k < 3"
  shows "e + of_nat (4 * j) = f + of_nat (4 * k) \<longleftrightarrow> e = f \<and> j = k"
proof -
  obtain p i where e: "aligned 12 p" "i < 256" "e = p + of_nat (8 + 12 * i)"
    using assms(1) by (auto simp: is_slot_def mp_entry_off(1))
  obtain q h where f: "aligned 12 q" "h < 256" "f = q + of_nat (8 + 12 * h)"
    using assms(2) by (auto simp: is_slot_def mp_entry_off(1))
  have "e + of_nat (4 * j) = p + of_nat (8 + 12 * i + 4 * j)" "f + of_nat (4 * k) = q + of_nat (8 + 12 * h + 4 * k)"
    using e f by (simp_all add: add.assoc)
  moreover have u: "unat (of_nat (8 + 12 * i + 4 * j) :: uint32) = 8 + 12 * i + 4 * j"
    "unat (of_nat (8 + 12 * h + 4 * k) :: uint32) = 8 + 12 * h + 4 * k"
    using e f assms by (simp_all add: unat_of_nat del: of_nat_add of_nat_mult)
  ultimately have "e + of_nat (4 * j) = f + of_nat (4 * k) \<longleftrightarrow> p = q \<and> 8 + 12 * i + 4 * j = 8 + 12 * h + 4 * k"
    using aligned_add_eq_iff [OF e(1) f(1), of "of_nat (8 + 12 * i + 4 * j)" "of_nat (8 + 12 * h + 4 * k)"]
      e(2) f(2) assms(3,4)
    by (simp add: word_unat_eq_iff del: of_nat_add of_nat_mult)
  also have "\<dots> \<longleftrightarrow> p = q \<and> i = h \<and> j = k"
  proof -
    have "8 + 12 * i + 4 * j = 8 + 12 * h + 4 * k \<longleftrightarrow> i = h \<and> j = k" using assms(3,4) by presburger
    then show ?thesis by simp
  qed
  also have "\<dots> \<longleftrightarrow> e = f \<and> j = k"
  proof -
    have "unat (of_nat (8 + 12 * i) :: uint32) = 8 + 12 * i" "unat (of_nat (8 + 12 * h) :: uint32) = 8 + 12 * h"
      using e f by (simp_all add: unat_of_nat del: of_nat_add of_nat_mult)
    then have "e = f \<longleftrightarrow> p = q \<and> 8 + 12 * i = 8 + 12 * h"
      using aligned_add_eq_iff [OF e(1) f(1), of "of_nat (8 + 12 * i)" "of_nat (8 + 12 * h)"] e f
      by (simp add: word_unat_eq_iff del: of_nat_add of_nat_mult)
    then show ?thesis by auto
  qed
  finally show ?thesis .
qed

lemma slot_aligned: "is_slot e \<Longrightarrow> aligned 2 (e + of_nat (4 * j))"
proof -
  assume "is_slot e"
  then obtain p i where e: "aligned 12 p" "e = p + of_nat (8 + 12 * i)"
    by (auto simp: is_slot_def mp_entry_off(1))
  have "2 ^ 2 dvd 8 + 12 * i" "2 ^ 2 dvd 4 * j" by (simp_all add: dvd_add)
  then have "aligned 2 (of_nat (8 + 12 * i))" "aligned 2 (of_nat (4 * j))"
    by (intro aligned_of_nat; simp)+
  moreover have "aligned 2 p" using e(1) by (rule aligned_mono) simp
  ultimately show ?thesis unfolding e(2) by (intro aligned_plus) simp_all
qed

lemma load32_slot:
  assumes "is_slot e" "is_slot f" "j < 3" "k < 3"
  shows "load32 (store32 m (e + of_nat (4 * j)) v) (f + of_nat (4 * k)) =
     (if e = f \<and> j = k then v else load32 m (f + of_nat (4 * k)))"
  using assms slot_field_eq [OF assms] slot_aligned [OF assms(1), of j] slot_aligned [OF assms(2), of k]
  by (auto simp: load32_store32_aligned)

lemmas load32_slot_fields =
  load32_slot [where j = 0 and k = 0, simplified] load32_slot [where j = 0 and k = 1, simplified]
  load32_slot [where j = 0 and k = 2, simplified] load32_slot [where j = 1 and k = 0, simplified]
  load32_slot [where j = 1 and k = 1, simplified] load32_slot [where j = 1 and k = 2, simplified]
  load32_slot [where j = 2 and k = 0, simplified] load32_slot [where j = 2 and k = 1, simplified]
  load32_slot [where j = 2 and k = 2, simplified]

section \<open>Cleared and allocated pages\<close>

lemma clear_entries_Suc:
  "clear_entries p (Suc n) m = store32 (store32 (store32 (clear_entries p n m)
     (p + of_nat (16 + 12 * n)) 0) (p + of_nat (12 + 12 * n)) 0) (p + of_nat (8 + 12 * n)) SLOT_USABLE"
  by (simp add: Let_def mp_entry_def algebra_simps)

lemma clear_entries_load:
  assumes "aligned 12 p" "n \<le> 256" "4 dvd k" "k + 4 \<le> 4096"
  shows "load32 (clear_entries p n m) (p + of_nat k) =
     (if 8 \<le> k \<and> k < 8 + 12 * n then (if (k - 8) mod 12 = 0 then SLOT_USABLE else 0)
      else load32 m (p + of_nat k))"
  using assms(2)
proof (induction n)
  case (Suc n)
  have fit: "8 + 12 * n + 4 \<le> 4096" "12 + 12 * n + 4 \<le> 4096" "16 + 12 * n + 4 \<le> 4096"
    using Suc.prems by simp_all
  have dv: "4 dvd 8 + 12 * n" "4 dvd 12 + 12 * n" "4 dvd 16 + 12 * n" by presburger+
  have "load32 (clear_entries p (Suc n) m) (p + of_nat k) =
      (if 8 + 12 * n = k then SLOT_USABLE else if 12 + 12 * n = k then 0 else if 16 + 12 * n = k then 0
       else load32 (clear_entries p n m) (p + of_nat k))"
    unfolding clear_entries_Suc
    using load32_field [OF assms(1) dv(1) assms(3) fit(1) assms(4)] load32_field [OF assms(1) dv(2) assms(3) fit(2) assms(4)]
      load32_field [OF assms(1) dv(3) assms(3) fit(3) assms(4)] by (simp del: of_nat_add of_nat_mult)
  also have "\<dots> = (if 8 \<le> k \<and> k < 8 + 12 * Suc n then (if (k - 8) mod 12 = 0 then SLOT_USABLE else 0)
      else load32 m (p + of_nat k))"
  proof -
    have "k = 8 + 12 * n \<or> k = 12 + 12 * n \<or> k = 16 + 12 * n \<or> k < 8 + 12 * n \<or> k \<ge> 20 + 12 * n"
      using assms(3) by presburger
    then consider "k = 8 + 12 * n" | "k = 12 + 12 * n" | "k = 16 + 12 * n" | "k < 8 + 12 * n" | "k \<ge> 20 + 12 * n"
      by blast
    then show ?thesis
    proof cases
      case 2
      then have "(k - 8) mod 12 = 4" by simp
      then show ?thesis using 2 by simp
    next
      case 3
      then have "(k - 8) mod 12 = 8" by simp
      then show ?thesis using 3 by simp
    qed (use Suc in auto)
  qed
  finally show ?case .
qed auto

lemma clear_entries_frame:
  "aligned 12 p \<Longrightarrow> n \<le> 256 \<Longrightarrow> changes_only {p} m (clear_entries p n m)"
proof (induction n)
  case (Suc n)
  have "unat (of_nat (8 + 12 * n) :: uint32) + 4 \<le> 4096" "unat (of_nat (12 + 12 * n) :: uint32) + 4 \<le> 4096"
    "unat (of_nat (16 + 12 * n) :: uint32) + 4 \<le> 4096"
    using Suc.prems by (simp_all add: unat_of_nat del: of_nat_add of_nat_mult)
  then show ?case
    unfolding clear_entries_Suc using Suc
    by (meson Suc_leD changes_only_step changes_only_store32 insertI1)
qed simp

definition fresh_mem_page :: "mem \<Rightarrow> uint32 \<Rightarrow> bool" where
  "fresh_mem_page m p \<longleftrightarrow> (\<forall>i < 256. load32 m (mp_entry p i) = SLOT_USABLE
     \<and> load32 m (mp_entry p i + 4) = 0 \<and> load32 m (mp_entry p i + 8) = 0)"

definition cleared_page :: "mem \<Rightarrow> uint32 \<Rightarrow> mem" where
  "cleared_page m p = store32 (store32 (clear_entries p 256 m) (p + 4) 0) p 0"

lemma fresh_mem_page_cong:
  assumes "fresh_mem_page m p" "\<And>k. 8 \<le> k \<Longrightarrow> k + 4 \<le> 4096 \<Longrightarrow> 4 dvd k \<Longrightarrow> load32 m' (p + of_nat k) = load32 m (p + of_nat k)"
  shows "fresh_mem_page m' p"
  unfolding fresh_mem_page_def
proof (intro allI impI)
  fix i :: nat assume i: "i < 256"
  have "load32 m' (mp_entry p i) = load32 m (mp_entry p i)" "load32 m' (mp_entry p i + 4) = load32 m (mp_entry p i + 4)"
     "load32 m' (mp_entry p i + 8) = load32 m (mp_entry p i + 8)"
    using assms(2) [of "8 + 12 * i"] assms(2) [of "12 + 12 * i"] assms(2) [of "16 + 12 * i"] i
    unfolding mp_entry_off(2,3) unfolding mp_entry_off(1) by (simp_all del: of_nat_add of_nat_mult add: dvd_add)
  then show "load32 m' (mp_entry p i) = SLOT_USABLE \<and> load32 m' (mp_entry p i + 4) = 0 \<and> load32 m' (mp_entry p i + 8) = 0"
    using assms(1) i by (simp add: fresh_mem_page_def)
qed

lemma cleared_page_fresh:
  assumes "aligned 12 p"
  shows "fresh_mem_page (cleared_page m p) p" "load32 (cleared_page m p) (p + 4) = 0" "load32 (cleared_page m p) p = 0"
    "changes_only {p} m (cleared_page m p)"
proof -
  have fld: "load32 (cleared_page m p) (p + of_nat k) =
      (if k = 0 \<or> k = 4 then 0 else load32 (clear_entries p 256 m) (p + of_nat k))" if "4 dvd k" "k + 4 \<le> 4096" for k
    unfolding cleared_page_def
    using load32_field [OF assms _ that(1) _ that(2), of 0] load32_field [OF assms _ that(1) _ that(2), of 4] by simp
  show "fresh_mem_page (cleared_page m p) p"
    unfolding fresh_mem_page_def
  proof (intro allI impI)
    fix i :: nat assume i: "i < 256"
    have m1: "(8 + 12 * i - 8) mod 12 = 0" "(12 + 12 * i - 8) mod 12 \<noteq> 0" "(16 + 12 * i - 8) mod 12 \<noteq> 0" by simp_all
    show "load32 (cleared_page m p) (mp_entry p i) = SLOT_USABLE \<and> load32 (cleared_page m p) (mp_entry p i + 4) = 0
        \<and> load32 (cleared_page m p) (mp_entry p i + 8) = 0"
      unfolding mp_entry_off(2,3) unfolding mp_entry_off(1) using i m1
      by (simp add: fld clear_entries_load [OF assms] dvd_add del: of_nat_add of_nat_mult)
  qed
  show "load32 (cleared_page m p) (p + 4) = 0" using fld [of 4] by simp
  show "load32 (cleared_page m p) p = 0" using fld [of 0] by simp
  have "changes_only {p} (clear_entries p 256 m) (store32 (clear_entries p 256 m) (p + 4) 0)"
    by (rule changes_only_store32 [OF assms]) simp_all
  moreover have "changes_only {p} m' (store32 m' p 0)" for m'
    using changes_only_store32 [OF assms, of 0 "{p}" m' 0] by simp
  ultimately show "changes_only {p} m (cleared_page m p)"
    unfolding cleared_page_def using clear_entries_frame [OF assms, of 256 m] by (meson changes_only_step order_refl)
qed

lemma mem_page_alloc_run:
  assumes "kmem_inv s" "free_pages s = p # ps"
  shows "\<exists>t. mem_page_alloc s = Done p t \<and> kmem_inv t \<and> free_pages t = ps \<and> same_machine s t
     \<and> memory t = cleared_page (memory s) p"
proof -
  have p: "valid_page s p" "0 < kend s" "p \<notin> set ps" using assms by (auto simp: kmem_inv_def)
  have al: "aligned 12 p" "p \<noteq> 0" using p valid_page_nonzero by (auto simp: valid_page_def)
  obtain t where t: "kalloc s = Done p t" "pool t = (ps, (snd (pool s))(p := 1))" "kmem_inv t"
      "same_machine s t" "memory t = memory s"
    using kalloc_pool [OF assms(1)] assms(2) by (auto simp: pool_def [of s])
  have fp: "free_pages t = ps" using t(2) by (simp add: pool_def)
  let ?u = "t\<lparr>memory := cleared_page (memory s) p\<rparr>"
  have "kmem_inv ?u" "free_pages ?u = ps"
    using kmem_inv_memory [OF t(3), of "{p}" "cleared_page (memory s) p"] cleared_page_fresh(4) [OF al(1)] t(5) fp p(3)
    by auto
  moreover have "mem_page_alloc s = Done p ?u"
    using t(1,5) al by (simp add: mem_page_alloc_def kmonad mem_page_clear_def upd_memory_def Let_def cleared_page_def)
  moreover have "same_machine s ?u" using t(4) by (rule same_machine_upd)
  ultimately show ?thesis by auto
qed

lemma changes_only_field:
  "changes_only P m m' \<Longrightarrow> aligned 12 q \<Longrightarrow> q \<notin> P \<Longrightarrow> k + 4 \<le> 4096 \<Longrightarrow>
   load32 m' (q + of_nat k) = load32 m (q + of_nat k)"
  by (rule changes_only_load32) (simp_all add: unat_of_nat)

text \<open>Linking a new page behind \<open>slow\<close>.\<close>

definition link_page :: "mem \<Rightarrow> uint32 \<Rightarrow> uint32 \<Rightarrow> mem" where
  "link_page m slow fast = store32 (store32 m (slow + 4) fast) fast slow"

lemma link_page_props:
  assumes "aligned 12 slow" "aligned 12 fast" "slow \<noteq> fast"
  shows "load32 (link_page m slow fast) (slow + 4) = fast"
    "k \<ge> 4 \<Longrightarrow> 4 dvd k \<Longrightarrow> k + 4 \<le> 4096 \<Longrightarrow> load32 (link_page m slow fast) (fast + of_nat k) = load32 m (fast + of_nat k)"
    "k \<ge> 8 \<Longrightarrow> 4 dvd k \<Longrightarrow> k + 4 \<le> 4096 \<Longrightarrow> load32 (link_page m slow fast) (slow + of_nat k) = load32 m (slow + of_nat k)"
    "changes_only {slow, fast} m (link_page m slow fast)"
proof -
  let ?a = "store32 m (slow + 4) fast"
  have a: "changes_only {slow} m ?a" using changes_only_store32 [OF assms(1), of 4 "{slow}" m fast] by simp
  have b: "changes_only {fast} ?a (store32 ?a fast slow)" using changes_only_store32 [OF assms(2), of 0 "{fast}" ?a slow] by simp
  show "load32 (link_page m slow fast) (slow + 4) = fast"
    using changes_only_load32 [OF b assms(1), of 4] assms(3) by (simp add: link_page_def)
  show "load32 (link_page m slow fast) (fast + of_nat k) = load32 m (fast + of_nat k)" if "k \<ge> 4" "4 dvd k" "k + 4 \<le> 4096"
  proof -
    have "load32 (store32 ?a fast slow) (fast + of_nat k) = load32 ?a (fast + of_nat k)"
      using load32_field [OF assms(2), of 0 k ?a slow] that by simp
    then show ?thesis using changes_only_field [OF a assms(2) _ that(3)] assms(3) by (simp add: link_page_def)
  qed
  show "load32 (link_page m slow fast) (slow + of_nat k) = load32 m (slow + of_nat k)" if "k \<ge> 8" "4 dvd k" "k + 4 \<le> 4096"
  proof -
    have "load32 ?a (slow + of_nat k) = load32 m (slow + of_nat k)"
      using load32_field [OF assms(1), of 4 k m fast] that by simp
    then show ?thesis using changes_only_field [OF b assms(1) _ that(3)] assms(3) by (simp add: link_page_def)
  qed
  show "changes_only {slow, fast} m (link_page m slow fast)"
    using changes_only_trans [OF a b] by (simp add: link_page_def insert_commute)
qed

definition page_next :: "mem \<Rightarrow> uint32 \<Rightarrow> uint32" where
  "page_next m p = load32 m (p + 4)"

lemma mem_alloc_loop_run:
  assumes "kmem_inv s" "n \<le> length (free_pages s)" "aligned 12 slow" "slow \<noteq> 0" "slow \<notin> set (free_pages s)"
    "load32 (memory s) (slow + 4) = 0"
  shows "\<exists>t. mem_alloc_loop n slow head s = Done head t \<and> kmem_inv t \<and> free_pages t = drop n (free_pages s)
     \<and> same_machine s t \<and> chain (page_next (memory t)) slow (slow # take n (free_pages s))
     \<and> (\<forall>p \<in> set (take n (free_pages s)). fresh_mem_page (memory t) p)
     \<and> changes_only (insert slow (set (take n (free_pages s)))) (memory s) (memory t)
     \<and> (\<forall>k \<ge> 8. 4 dvd k \<and> k + 4 \<le> 4096 \<longrightarrow> load32 (memory t) (slow + of_nat k) = load32 (memory s) (slow + of_nat k))"
  using assms
proof (induction n arbitrary: s slow)
  case 0
  then show ?case by (auto simp: kmonad page_next_def)
next
  case (Suc n)
  obtain fast ps where fp: "free_pages s = fast # ps" using Suc.prems(2) by (cases "free_pages s") auto
  have f: "aligned 12 fast" "fast \<noteq> 0" "fast \<notin> set ps" "distinct ps"
    using Suc.prems(1) fp valid_page_nonzero by (auto simp: kmem_inv_def valid_page_def)
  have sf: "slow \<noteq> fast" "slow \<notin> set ps" using Suc.prems(5) fp by auto
  obtain t1 where t1: "mem_page_alloc s = Done fast t1" "kmem_inv t1" "free_pages t1 = ps" "same_machine s t1"
    "memory t1 = cleared_page (memory s) fast"
    using mem_page_alloc_run [OF Suc.prems(1) fp] by blast
  let ?m1 = "cleared_page (memory s) fast"
  define m2 where "m2 = link_page ?m1 slow fast"
  note lp = link_page_props [OF Suc.prems(3) f(1) sf(1), where m = ?m1, folded m2_def]
  note cp = cleared_page_fresh [OF f(1), of "memory s"]
  define t2 where "t2 = t1\<lparr>memory := m2\<rparr>"
  have inv2: "kmem_inv t2" "free_pages t2 = ps"
    using kmem_inv_memory [OF t1(2), of "{slow, fast}" m2] lp(4) t1(3,5) f(3) sf(2) by (auto simp: t2_def)
  have m2: "memory t2 = m2" by (simp add: t2_def)
  have nx2: "load32 m2 (fast + 4) = 0" using lp(2) [of 4] cp(2) by simp
  obtain u where u: "mem_alloc_loop n fast head t2 = Done head u" "kmem_inv u" "free_pages u = drop n ps"
     "same_machine t2 u" "chain (page_next (memory u)) fast (fast # take n ps)"
     "\<And>p. p \<in> set (take n ps) \<Longrightarrow> fresh_mem_page (memory u) p"
     "changes_only (insert fast (set (take n ps))) m2 (memory u)"
     "\<And>k. k \<ge> 8 \<Longrightarrow> 4 dvd k \<Longrightarrow> k + 4 \<le> 4096 \<Longrightarrow> load32 (memory u) (fast + of_nat k) = load32 m2 (fast + of_nat k)"
    using Suc.IH [OF inv2(1), of fast] Suc.prems(2) fp f inv2(2) nx2 m2 by auto
  have ns: "slow \<notin> insert fast (set (take n ps))" using sf by (auto dest: in_set_takeD)
  have run: "mem_alloc_loop (Suc n) slow head s = Done head u"
    using t1(1,5) f(2) u(1) by (simp add: kmonad st32_def upd_memory_def t2_def m2_def link_page_def)
  have same: "same_machine s u"
    using t1(4) u(4) same_machine_memory [of t1 m2] unfolding t2_def by (blast intro: same_machine_trans)
  have ch: "chain (page_next (memory u)) slow (slow # take (Suc n) (free_pages s))"
    using u(5) fp Suc.prems(4) changes_only_load32 [OF u(7) Suc.prems(3) ns, of 4] lp(1) by (simp add: page_next_def)
  have ff: "fresh_mem_page (memory u) fast"
    by (rule fresh_mem_page_cong [OF cp(1)]) (use u(8) lp(2) in auto)
  have co: "changes_only (insert slow (set (take (Suc n) (free_pages s)))) (memory s) (memory u)"
  proof -
    have "changes_only ({fast} \<union> {slow, fast} \<union> insert fast (set (take n ps))) (memory s) (memory u)"
      by (rule changes_only_trans [OF changes_only_trans [OF cp(4) lp(4)] u(7)])
    then show ?thesis by (rule changes_only_mono) (simp add: fp)
  qed
  have fld: "load32 (memory u) (slow + of_nat k) = load32 (memory s) (slow + of_nat k)"
    if "k \<ge> 8" "4 dvd k" "k + 4 \<le> 4096" for k
    using changes_only_field [OF u(7) Suc.prems(3) ns that(3)] lp(3) [OF that]
      changes_only_field [OF cp(4) Suc.prems(3) _ that(3)] sf(1) by simp
  show ?case
    using run u(2,3,6) same ch ff co fld by (auto simp: fp)
qed

section \<open>The queue of resident pages\<close>

lemma chain_snoc:
  "chain nx p (xs @ [x]) \<Longrightarrow> nx' x = y \<Longrightarrow> nx' y = 0 \<Longrightarrow> y \<noteq> 0 \<Longrightarrow> (\<And>z. z \<in> set xs \<Longrightarrow> nx' z = nx z) \<Longrightarrow>
   chain nx' p (xs @ [x, y])"
  by (induction xs arbitrary: p) auto

lemma chain_butlast:
  "chain nx p (xs @ [x, y]) \<Longrightarrow> nx' x = 0 \<Longrightarrow> (\<And>z. z \<in> set xs \<Longrightarrow> nx' z = nx z) \<Longrightarrow> chain nx' p (xs @ [x])"
  by (induction xs arbitrary: p) auto

definition ent_next :: "mem \<Rightarrow> uint32 \<Rightarrow> uint32" where
  "ent_next m e = load32 m (e + 4)"

definition ent_prev :: "mem \<Rightarrow> uint32 \<Rightarrow> uint32" where
  "ent_prev m e = load32 m (e + 8)"

definition mem_queue :: "mem \<Rightarrow> proc \<Rightarrow> uint32 list \<Rightarrow> bool" where
  "mem_queue m q xs \<longleftrightarrow> chain (ent_next m) (mem_queue_head q) xs
     \<and> chain (ent_prev m) (mem_queue_tail q) (rev xs)"

definition slots :: "uint32 list \<Rightarrow> uint32 list" where
  "slots pgs = concat (map (\<lambda>p. map (mp_entry p) [0..<256]) pgs)"

text \<open>The lists of a process are in order when its pages form a chain, the queue is doubly linked
  through slots of these pages, and every other slot is marked usable with no predecessor.\<close>

definition page_lists_ok :: "mem \<Rightarrow> proc \<Rightarrow> uint32 list \<Rightarrow> uint32 list \<Rightarrow> bool" where
  "page_lists_ok m q pgs xs \<longleftrightarrow> chain (page_next m) (mem_page_head q) pgs \<and> (\<forall>p \<in> set pgs. aligned 12 p)
     \<and> mem_queue m q xs \<and> set xs \<subseteq> set (slots pgs) \<and> (\<forall>e \<in> set xs. load32 m e \<noteq> SLOT_USABLE)
     \<and> (\<forall>e \<in> set (slots pgs) - set xs. load32 m e = SLOT_USABLE \<and> ent_prev m e = 0)"

definition queue_vas :: "mem \<Rightarrow> uint32 list \<Rightarrow> uint32 list" where
  "queue_vas m xs = map (load32 m) xs"

lemma slots_mem: "e \<in> set (slots pgs) \<longleftrightarrow> (\<exists>p \<in> set pgs. \<exists>i < 256. e = mp_entry p i)"
proof -
  have "e \<in> set (slots pgs) \<longleftrightarrow> (\<exists>p \<in> set pgs. e \<in> mp_entry p ` {0..<256})" by (simp add: slots_def)
  also have "\<dots> \<longleftrightarrow> (\<exists>p \<in> set pgs. \<exists>i < 256. e = mp_entry p i)" by (simp add: image_iff Bex_def)
  finally show ?thesis .
qed

lemma slots_Cons: "set (slots (p # ps)) = mp_entry p ` {..<256} \<union> set (slots ps)"
  by (simp add: slots_def lessThan_atLeast0)

lemma slots_is_slot: "\<forall>p \<in> set pgs. aligned 12 p \<Longrightarrow> e \<in> set (slots pgs) \<Longrightarrow> is_slot e"
  by (auto simp: slots_mem is_slot_entry)

lemma mp_entry_inj:
  assumes "aligned 12 p" "aligned 12 q" "i < 256" "j < 256"
  shows "mp_entry p i = mp_entry q j \<longleftrightarrow> p = q \<and> i = j"
proof -
  have "unat (of_nat (8 + 12 * i) :: uint32) = 8 + 12 * i" "unat (of_nat (8 + 12 * j) :: uint32) = 8 + 12 * j"
    using assms by (simp_all add: unat_of_nat del: of_nat_add of_nat_mult)
  then show ?thesis
    using aligned_add_eq_iff [OF assms(1,2), of "of_nat (8 + 12 * i)" "of_nat (8 + 12 * j)"] assms(3,4)
    by (simp add: mp_entry_off(1) word_unat_eq_iff del: of_nat_add of_nat_mult)
qed

lemma slots_distinct:
  "distinct pgs \<Longrightarrow> \<forall>p \<in> set pgs. aligned 12 p \<Longrightarrow> distinct (slots pgs)"
proof (induction pgs)
  case (Cons p pgs)
  have "distinct (map (mp_entry p) [0..<256])"
    using Cons.prems by (auto simp: distinct_map inj_on_def mp_entry_inj)
  moreover have "set (map (mp_entry p) [0..<256]) \<inter> set (slots pgs) = {}"
    using Cons.prems by (auto simp: slots_mem mp_entry_inj)
  ultimately show ?case using Cons by (simp add: slots_def)
qed (simp add: slots_def)

lemma slots_length: "length (slots pgs) = 256 * length pgs"
  by (induction pgs) (simp_all add: slots_def)

lemma slot_nonzero: "aligned 12 p \<Longrightarrow> i < 256 \<Longrightarrow> mp_entry p i \<noteq> 0"
proof
  assume p: "aligned 12 p" "i < 256" "mp_entry p i = 0"
  have "unat (of_nat (8 + 12 * i) :: uint32) = 8 + 12 * i"
    using p by (simp add: unat_of_nat del: of_nat_add of_nat_mult)
  then show False
    using aligned_add_eq_iff [OF p(1) aligned_0, of "of_nat (8 + 12 * i)" 0] p
    by (simp add: mp_entry_off(1) word_unat_eq_iff del: of_nat_add of_nat_mult)
qed

text \<open>The memory after a slot has become the head of the queue.\<close>

definition push_slot :: "mem \<Rightarrow> uint32 \<Rightarrow> uint32 \<Rightarrow> uint32 \<Rightarrow> mem" where
  "push_slot m e va h = (let m = store32 (store32 m e va) (e + 4) h in if h = 0 then m else store32 m (h + 8) e)"

lemma push_slot_fields:
  assumes "is_slot e" "h = 0 \<or> is_slot h" "is_slot f" "h \<noteq> e"
  shows "load32 (push_slot m e va h) f = (if f = e then va else load32 m f)"
    "ent_next (push_slot m e va h) f = (if f = e then h else ent_next m f)"
    "ent_prev (push_slot m e va h) f = (if f = h \<and> h \<noteq> 0 then e else ent_prev m f)"
  using assms by (auto simp: push_slot_def Let_def ent_next_def ent_prev_def load32_slot_fields)

lemma push_slot_queue:
  assumes "mem_queue m q xs" "\<And>x. x \<in> set xs \<Longrightarrow> is_slot x" "is_slot e" "e \<notin> set xs" "e \<noteq> 0" "ent_prev m e = 0"
  shows "mem_queue (push_slot m e va (mem_queue_head q))
     (q\<lparr>mem_queue_tail := (if mem_queue_head q = 0 then e else mem_queue_tail q), mem_queue_head := e\<rparr>) (e # xs)"
proof -
  let ?h = "mem_queue_head q"
  have nx: "chain (ent_next m) ?h xs" and pv: "chain (ent_prev m) (mem_queue_tail q) (rev xs)"
    using assms(1) by (auto simp: mem_queue_def)
  show ?thesis
  proof (cases xs)
    case Nil
    then have "?h = 0" using nx by simp
    then show ?thesis
      using Nil assms(3,5,6) push_slot_fields [of e ?h e m va] by (simp add: mem_queue_def)
  next
    case (Cons x ys)
    then have h: "?h = x" "x \<noteq> 0" "is_slot x" "x \<noteq> e" using nx assms(2,4) by auto
    note f = push_slot_fields [OF assms(3) _ _ h(4), of _ m va]
    have sl: "is_slot z" if "z \<in> set xs" for z using assms(2) that .
    have "ent_next (push_slot m e va x) z = ent_next m z" if "z \<in> set xs" for z
      using f(2) [OF _ sl [OF that]] h that assms(4) by auto
    then have "chain (ent_next (push_slot m e va x)) x xs"
      using chain_cong [of xs "ent_next (push_slot m e va x)" "ent_next m" x] nx h(1) by blast
    then have "chain (ent_next (push_slot m e va x)) e (e # xs)"
      using assms(3,5) h f(2) by simp
    moreover have "chain (ent_prev (push_slot m e va x)) (mem_queue_tail q) (rev ys @ [x, e])"
    proof (rule chain_snoc)
      show "chain (ent_prev m) (mem_queue_tail q) (rev ys @ [x])" using pv Cons by simp
      have "x \<notin> set ys" using chain_distinct [OF nx] Cons by simp
      then show "ent_prev (push_slot m e va x) z = ent_prev m z" if "z \<in> set (rev ys)" for z
        using that h sl Cons f(3) [of z] by auto
    qed (use h assms(3,5,6) f(3) in auto)
    ultimately show ?thesis using Cons h by (simp add: mem_queue_def)
  qed
qed

lemma page_next_slot:
  assumes "is_slot e" "aligned 12 p" "j < 3"
  shows "page_next (store32 m (e + of_nat (4 * j)) v) p = page_next m p"
proof -
  obtain q i where e: "aligned 12 q" "i < 256" "e = q + of_nat (8 + 12 * i)"
    using assms(1) by (auto simp: is_slot_def mp_entry_off(1))
  have a: "e + of_nat (4 * j) = q + of_nat (8 + 12 * i + 4 * j)" using e(3) by (simp add: add.assoc)
  have fit: "8 + 12 * i + 4 * j + 4 \<le> 4096" "4 dvd 8 + 12 * i + 4 * j" using e(2) assms(3) by (simp_all add: dvd_add)
  show ?thesis
  proof (cases "p = q")
    case True
    then show ?thesis
      using load32_field [OF e(1) fit(2) _ fit(1), of 4 m v] unfolding a page_next_def by simp
  next
    case False
    have "changes_only {q} m (store32 m (q + of_nat (8 + 12 * i + 4 * j)) v)"
      using fit(1) by (intro changes_only_store32 [OF e(1)]) (simp_all add: unat_of_nat del: of_nat_add of_nat_mult)
    from changes_only_load32 [OF this assms(2), of 4] False show ?thesis unfolding a page_next_def by simp
  qed
qed

lemmas page_next_slot_fields = page_next_slot [where j = 0, simplified]
  page_next_slot [where j = 1, simplified] page_next_slot [where j = 2, simplified]

lemma page_next_push:
  assumes "is_slot e" "h = 0 \<or> is_slot h" "aligned 12 p"
  shows "page_next (push_slot m e va h) p = page_next m p"
  using assms by (auto simp: push_slot_def Let_def page_next_slot_fields)

lemma push_slot_ok:
  assumes ok: "page_lists_ok m q pgs xs" and e: "e \<in> set (slots pgs)" "e \<notin> set xs" and va: "va \<noteq> SLOT_USABLE"
  defines "m' \<equiv> push_slot m e va (mem_queue_head q)"
  defines "q' \<equiv> q\<lparr>mem_queue_tail := (if mem_queue_head q = 0 then e else mem_queue_tail q), mem_queue_head := e\<rparr>"
  shows "page_lists_ok m' q' pgs (e # xs)" "queue_vas m' (e # xs) = va # queue_vas m xs"
proof -
  let ?h = "mem_queue_head q"
  have al: "\<forall>p \<in> set pgs. aligned 12 p" and sub: "set xs \<subseteq> set (slots pgs)"
    and free: "\<And>f. f \<in> set (slots pgs) \<Longrightarrow> f \<notin> set xs \<Longrightarrow> load32 m f = SLOT_USABLE \<and> ent_prev m f = 0"
    and mq: "mem_queue m q xs" and ch: "chain (page_next m) (mem_page_head q) pgs"
    and used: "\<And>f. f \<in> set xs \<Longrightarrow> load32 m f \<noteq> SLOT_USABLE"
    using ok by (auto simp: page_lists_ok_def)
  have sl: "is_slot f" if "f \<in> set (slots pgs)" for f using slots_is_slot [OF al that] .
  have h: "?h = 0 \<or> ?h \<in> set xs" using mq by (cases xs) (auto simp: mem_queue_def)
  then have hs: "?h = 0 \<or> is_slot ?h" using sl sub by blast
  have e0: "e \<noteq> 0" using e(1) al slot_nonzero by (auto simp: slots_mem)
  have he: "?h \<noteq> e" using h e e0 by auto
  note f = push_slot_fields [OF sl [OF e(1)] hs _ he, of _ m va, folded m'_def]
  have "mem_queue m' q' (e # xs)"
    unfolding m'_def q'_def
    using push_slot_queue [OF mq _ sl [OF e(1)] e(2) e0] sl sub free e by blast
  moreover have "chain (page_next m') (mem_page_head q') pgs"
    using ch chain_cong [of pgs "page_next m'" "page_next m"] page_next_push [OF sl [OF e(1)] hs] al
    by (simp add: m'_def q'_def)
  moreover have "load32 m' g = SLOT_USABLE \<and> ent_prev m' g = 0" if "g \<in> set (slots pgs) - set (e # xs)" for g
  proof -
    have g: "is_slot g" "g \<noteq> e" "g \<notin> set xs" "g \<in> set (slots pgs)" using that sl by auto
    then have "\<not> (g = ?h \<and> ?h \<noteq> 0)" using h by auto
    then show ?thesis using f(1) [OF g(1)] f(3) [OF g(1)] g(2) free [OF g(4,3)] by auto
  qed
  moreover have "load32 m' g \<noteq> SLOT_USABLE" if g: "g \<in> set (e # xs)" for g
  proof -
    have "is_slot g" using g sl sub e by auto
    then show ?thesis using f(1) g used va e by auto
  qed
  ultimately show "page_lists_ok m' q' pgs (e # xs)"
    using al sub e by (simp add: page_lists_ok_def)
  show "queue_vas m' (e # xs) = va # queue_vas m xs"
    using f(1) sl sub e by (auto simp: queue_vas_def)
qed

lemma take_slot_run:
  assumes "pr < length (ptable s)"
  shows "take_slot e va pr s = (let q = ptable s ! pr in
     Done () (s\<lparr>memory := push_slot (memory s) e va (mem_queue_head q),
        ptable := (ptable s)[pr := q\<lparr>mem_queue_tail := (if mem_queue_head q = 0 then e else mem_queue_tail q),
          mem_queue_head := e\<rparr>]\<rparr>))"
  using assms
  by (simp add: take_slot_def kmonad st32_def upd_memory_def get_proc_def upd_proc_def push_slot_def Let_def)

lemma free_slot_None: "free_slot m p = None \<longleftrightarrow> (\<forall>i < 256. load32 m (mp_entry p i) \<noteq> SLOT_USABLE)"
  by (auto simp: free_slot_def find_index_None)

lemma free_slot_Some: "free_slot m p = Some i \<Longrightarrow> i < 256 \<and> load32 m (mp_entry p i) = SLOT_USABLE"
  using find_index_Some [of "\<lambda>i. load32 m (mp_entry p i) = SLOT_USABLE" "[0..<256]" i]
  by (simp add: free_slot_def)

lemma find_slot_loop_run:
  assumes "chain (page_next (memory s)) cp ps" "length ps < fuel"
  shows "if \<forall>e \<in> set (slots ps). load32 (memory s) e \<noteq> SLOT_USABLE
     then find_slot_loop fuel cp va pr s = Panic ''[ERROR] No free slot in memory.''
     else \<exists>e \<in> set (slots ps). load32 (memory s) e = SLOT_USABLE
        \<and> find_slot_loop fuel cp va pr s = take_slot e va pr s"
  using assms
proof (induction ps arbitrary: cp fuel)
  case Nil
  then show ?case by (cases fuel) (auto simp: slots_def kmonad)
next
  case (Cons p ps)
  obtain n where n: "fuel = Suc n" "length ps < n" using Cons.prems(2) by (cases fuel) auto
  have "page_next (memory s) p = load32 (memory s) (p + 4)" by (simp add: page_next_def)
  then have p: "cp = p" "p \<noteq> 0" "chain (page_next (memory s)) (load32 (memory s) (p + 4)) ps"
    using Cons.prems(1) by auto
  show ?case
  proof (cases "free_slot (memory s) p")
    case None
    then have "find_slot_loop fuel cp va pr s = find_slot_loop n (load32 (memory s) (p + 4)) va pr s"
      using n p by (simp add: kmonad ld32_def)
    then show ?thesis
      using Cons.IH [OF p(3) n(2)] None by (auto simp: slots_Cons free_slot_None split: if_splits)
  next
    case (Some i)
    then have "find_slot_loop fuel cp va pr s = take_slot (mp_entry p i) va pr s"
      using n p by (simp add: kmonad)
    moreover have "mp_entry p i \<in> set (slots (p # ps))" "load32 (memory s) (mp_entry p i) = SLOT_USABLE"
      using free_slot_Some [OF Some] by (auto simp: slots_mem)
    ultimately show ?thesis by auto
  qed
qed

lemma slot_available:
  assumes "page_lists_ok m q pgs xs"
  shows "(\<forall>e \<in> set (slots pgs). load32 m e \<noteq> SLOT_USABLE) \<longleftrightarrow> length xs = 256 * length pgs"
proof -
  have ds: "distinct (slots pgs)" and dx: "distinct xs" and sub: "set xs \<subseteq> set (slots pgs)"
    using assms chain_distinct slots_distinct by (auto simp: page_lists_ok_def mem_queue_def)
  have "(\<forall>e \<in> set (slots pgs). load32 m e \<noteq> SLOT_USABLE) \<longleftrightarrow> set xs = set (slots pgs)"
    using assms sub by (auto simp: page_lists_ok_def)
  also have "\<dots> \<longleftrightarrow> length xs = length (slots pgs)"
    using card_subset_eq [OF _ sub] distinct_card [OF ds] distinct_card [OF dx] by auto
  finally show ?thesis by (simp add: slots_length)
qed

lemma find_slot_spec:
  assumes ok: "page_lists_ok (memory s) (ptable s ! pr) pgs xs" and n: "length pgs < page_fuel"
    and pr: "pr < length (ptable s)" and va: "va \<noteq> SLOT_USABLE"
  shows "if length xs = 256 * length pgs then find_slot va pr s = Panic ''[ERROR] No free slot in memory.''
     else \<exists>t e. find_slot va pr s = Done () t \<and> e \<notin> set xs \<and> page_lists_ok (memory t) (ptable t ! pr) pgs (e # xs)
        \<and> queue_vas (memory t) (e # xs) = va # queue_vas (memory s) xs
        \<and> t = s\<lparr>memory := memory t, ptable := (ptable s)[pr := ptable t ! pr]\<rparr>"
proof -
  let ?q = "ptable s ! pr"
  have ch: "chain (page_next (memory s)) (mem_page_head ?q) pgs" using ok by (simp add: page_lists_ok_def)
  have fs: "find_slot va pr s = find_slot_loop page_fuel (mem_page_head ?q) va pr s"
    by (simp add: find_slot_def kmonad get_proc_def)
  show ?thesis
  proof (cases "length xs = 256 * length pgs")
    case True
    then show ?thesis using find_slot_loop_run [OF ch n, of va pr] slot_available [OF ok] fs by auto
  next
    case False
    then obtain e where e: "e \<in> set (slots pgs)" "load32 (memory s) e = SLOT_USABLE" "find_slot va pr s = take_slot e va pr s"
      using find_slot_loop_run [OF ch n, of va pr] slot_available [OF ok] fs by auto
    then have nx: "e \<notin> set xs" using ok by (auto simp: page_lists_ok_def)
    show ?thesis
      using False e(3) nx push_slot_ok [OF ok e(1) nx va] pr
      by (auto simp: take_slot_run Let_def)
  qed
qed

section \<open>Taking the oldest page\<close>

lemma unlink_queue:
  assumes mq: "mem_queue m q (ys @ [x, y])" and slot: "\<forall>z \<in> set (ys @ [x, y]). is_slot z"
  defines "m' \<equiv> store32 (store32 m (x + 4) 0) (y + 8) 0"
  shows "mem_queue_tail q = y" "ent_prev m y = x" "mem_queue_head q \<noteq> 0" "ent_next m (mem_queue_head q) \<noteq> 0"
    "mem_queue m' (q\<lparr>mem_queue_tail := x\<rparr>) (ys @ [x])" "ent_prev m' y = 0"
    "is_slot z \<Longrightarrow> load32 m' z = load32 m z" "is_slot z \<Longrightarrow> z \<noteq> y \<Longrightarrow> ent_prev m' z = ent_prev m z"
    "aligned 12 p \<Longrightarrow> page_next m' p = page_next m p"
proof -
  have nx: "chain (ent_next m) (mem_queue_head q) (ys @ [x, y])" and pv: "chain (ent_prev m) (mem_queue_tail q) (y # x # rev ys)"
    using mq by (auto simp: mem_queue_def)
  have d: "distinct (ys @ [x, y])" using chain_distinct [OF nx] .
  have sl: "is_slot z" if "z \<in> set (ys @ [x, y])" for z using slot that by blast
  have s: "is_slot x" "is_slot y" "x \<noteq> y" using sl d by auto
  have f: "load32 m' z = load32 m z" "ent_next m' z = (if z = x then 0 else ent_next m z)"
    "ent_prev m' z = (if z = y then 0 else ent_prev m z)" if "is_slot z" for z
    using s that by (simp_all add: m'_def load32_slot_fields ent_next_def ent_prev_def)
  show "mem_queue_tail q = y" "ent_prev m y = x" using pv by auto
  show "mem_queue_head q \<noteq> 0" "ent_next m (mem_queue_head q) \<noteq> 0" using nx by (cases ys; cases "tl ys"; auto)+
  show "load32 m' z = load32 m z" if "is_slot z" using f that by simp
  show "ent_prev m' y = 0" using f s by simp
  show "is_slot z \<Longrightarrow> z \<noteq> y \<Longrightarrow> ent_prev m' z = ent_prev m z" using f by simp
  show "aligned 12 p \<Longrightarrow> page_next m' p = page_next m p" using s by (simp add: m'_def page_next_slot_fields)
  have "chain (ent_next m') (mem_queue_head q) (ys @ [x])"
  proof (rule chain_butlast [OF nx])
    show "ent_next m' x = 0" using f s by simp
    show "ent_next m' z = ent_next m z" if "z \<in> set ys" for z using f(2) [OF sl, of z] that d by auto
  qed
  moreover have "chain (ent_prev m') x (x # rev ys)"
  proof -
    have "ent_prev m' z = ent_prev m z" if "z \<in> set (x # rev ys)" for z
      using f(3) [OF sl, of z] that d by auto
    then show ?thesis using chain_cong [of "x # rev ys" "ent_prev m'" "ent_prev m" x] pv by auto
  qed
  ultimately show "mem_queue m' (q\<lparr>mem_queue_tail := x\<rparr>) (ys @ [x])" by (simp add: mem_queue_def)
qed

text \<open>Evicting the tail and reusing its slot for a new page at the head.\<close>

lemma requeue_ok:
  assumes ok: "page_lists_ok m q pgs (ys @ [x, y])" and va: "va \<noteq> SLOT_USABLE"
  defines "m1 \<equiv> store32 (store32 m (x + 4) 0) (y + 8) 0"
  defines "m2 \<equiv> push_slot m1 y va (mem_queue_head q)"
  defines "q' \<equiv> q\<lparr>mem_queue_tail := x, mem_queue_head := y\<rparr>"
  shows "page_lists_ok m2 q' pgs (y # ys @ [x])" "queue_vas m2 (y # ys @ [x]) = va # queue_vas m (ys @ [x])"
proof -
  let ?h = "mem_queue_head q" and ?xs = "ys @ [x, y]"
  have al: "\<forall>p \<in> set pgs. aligned 12 p" and sub: "set ?xs \<subseteq> set (slots pgs)" and mq: "mem_queue m q ?xs"
    and free: "\<And>f. f \<in> set (slots pgs) \<Longrightarrow> f \<notin> set ?xs \<Longrightarrow> load32 m f = SLOT_USABLE \<and> ent_prev m f = 0"
    and ch: "chain (page_next m) (mem_page_head q) pgs"
    and used: "\<And>f. f \<in> set ?xs \<Longrightarrow> load32 m f \<noteq> SLOT_USABLE"
    using ok by (auto simp: page_lists_ok_def)
  have sl: "is_slot f" if "f \<in> set (slots pgs)" for f using slots_is_slot [OF al that] .
  have slx: "is_slot z" if "z \<in> set ?xs" for z using that sl sub by blast
  have "\<forall>z \<in> set ?xs. is_slot z" using slx by blast
  note u = unlink_queue [OF mq this, folded m1_def]
  have nx: "chain (ent_next m) ?h ?xs" using mq by (simp add: mem_queue_def)
  have y: "is_slot y" "y \<noteq> 0" "y \<notin> set (ys @ [x])" using slx chain_distinct [OF nx] chain_nonzero [OF nx] by auto
  have h: "?h \<in> set (ys @ [x])" using nx by (cases ys) auto
  then have h: "?h \<in> set (ys @ [x])" "?h \<noteq> y" "is_slot ?h" using y(3) slx by auto
  have slb: "is_slot z" if "z \<in> set (ys @ [x])" for z using slx that by auto
  note f = push_slot_fields [OF y(1) _ _ h(2), of _ m1 va, folded m2_def]
  have "mem_queue m2 q' (y # ys @ [x])"
    using push_slot_queue [OF u(5) slb y(1,3,2) u(6), of va] u(3) unfolding m2_def q'_def by simp
  moreover have "chain (page_next m2) (mem_page_head q') pgs"
    using ch chain_cong [of pgs "page_next m2" "page_next m"] page_next_push [OF y(1)] h(3) al u(9)
    by (simp add: m2_def q'_def)
  moreover have "load32 m2 g = SLOT_USABLE \<and> ent_prev m2 g = 0" if "g \<in> set (slots pgs) - set (y # ys @ [x])" for g
  proof -
    have g: "is_slot g" "g \<noteq> y" "g \<noteq> ?h" "g \<notin> set ?xs" "g \<in> set (slots pgs)" using that sl h by auto
    then show ?thesis using f(1,3) [OF _ g(1)] h(3) free [OF g(5,4)] u(7,8) by auto
  qed
  moreover have vals: "load32 m2 g = (if g = y then va else load32 m g)" if "g \<in> set ?xs" for g
    using f(1) [OF _ slx [OF that]] h(3) u(7) [OF slx [OF that]] by auto
  moreover have "load32 m2 g \<noteq> SLOT_USABLE" if "g \<in> set (y # ys @ [x])" for g
    using vals [of g] used [of g] that va by (auto split: if_splits)
  ultimately show "page_lists_ok m2 q' pgs (y # ys @ [x])"
    using al sub by (auto simp: page_lists_ok_def)
  show "queue_vas m2 (y # ys @ [x]) = va # queue_vas m (ys @ [x])"
    using vals y(3) by (auto simp: queue_vas_def)
qed

section \<open>Copying the queue\<close>

definition at_slot :: "mem \<Rightarrow> uint32 \<Rightarrow> nat \<Rightarrow> uint32 list \<Rightarrow> bool" where
  "at_slot m pg pos R \<longleftrightarrow> pg = 0 \<and> R = [] \<or>
     (\<exists>ps. chain (page_next m) pg (pg # ps) \<and> (\<forall>p \<in> set (pg # ps). aligned 12 p) \<and> pos < 256
        \<and> R = map (mp_entry pg) [pos..<256] @ slots ps)"

lemma at_slot_head:
  assumes "at_slot m pg pos R" "R \<noteq> []"
  shows "pg \<noteq> 0" "hd R = mp_entry pg pos" "is_slot (hd R)" "hd R \<noteq> 0"
    "at_slot m (if Suc pos = 256 then page_next m pg else pg) (if Suc pos = 256 then 0 else Suc pos) (tl R)"
proof -
  obtain ps where ps: "chain (page_next m) pg (pg # ps)" "\<forall>p \<in> set (pg # ps). aligned 12 p" "pos < 256"
    "R = map (mp_entry pg) [pos..<256] @ slots ps"
    using assms by (auto simp: at_slot_def)
  have R: "R = mp_entry pg pos # map (mp_entry pg) [Suc pos..<256] @ slots ps"
    using ps(3,4) by (simp add: upt_conv_Cons)
  show "pg \<noteq> 0" "hd R = mp_entry pg pos" "is_slot (hd R)" "hd R \<noteq> 0"
    using ps R is_slot_entry slot_nonzero by auto
  show "at_slot m (if Suc pos = 256 then page_next m pg else pg) (if Suc pos = 256 then 0 else Suc pos) (tl R)"
  proof (cases "Suc pos = 256")
    case True
    show ?thesis
    proof (cases ps)
      case Nil
      then show ?thesis using True ps R by (simp add: at_slot_def slots_def)
    next
      case (Cons p qs)
      then have "at_slot m p 0 (slots ps)"
        using ps by (auto simp: at_slot_def slots_def)
      then show ?thesis using True Cons ps R by simp
    qed
  next
    case False
    then show ?thesis using ps R by (auto simp: at_slot_def)
  qed
qed

lemma at_slot_is_slot: "at_slot m pg pos R \<Longrightarrow> e \<in> set R \<Longrightarrow> is_slot e"
  using slots_is_slot by (auto simp: at_slot_def is_slot_entry)

lemma at_slot_cong:
  assumes "at_slot m pg pos R" "\<And>p. aligned 12 p \<Longrightarrow> page_next m' p = page_next m p"
  shows "at_slot m' pg pos R"
proof -
  have "chain (page_next m') pg (pg # ps) = chain (page_next m) pg (pg # ps)" if "\<forall>p \<in> set (pg # ps). aligned 12 p" for ps
    using chain_cong [of "pg # ps" "page_next m'" "page_next m"] assms(2) that by blast
  then show ?thesis using assms(1) unfolding at_slot_def by blast
qed

definition copy_entry :: "mem \<Rightarrow> uint32 \<Rightarrow> uint32 \<Rightarrow> uint32 \<Rightarrow> mem" where
  "copy_entry m old e va = store32 (store32 (if old \<noteq> 0 then store32 m (old + 4) e else m) (e + 8) old) e va"

lemma copy_entry_fields:
  assumes "old = 0 \<or> is_slot old" "is_slot e" "e \<noteq> old" "is_slot f"
  shows "load32 (copy_entry m old e va) f = (if f = e then va else load32 m f)"
    "ent_prev (copy_entry m old e va) f = (if f = e then old else ent_prev m f)"
    "ent_next (copy_entry m old e va) f = (if f = old \<and> old \<noteq> 0 then e else ent_next m f)"
  using assms by (auto simp: copy_entry_def load32_slot_fields ent_next_def ent_prev_def)

lemma copy_entry_page:
  "old = 0 \<or> is_slot old \<Longrightarrow> is_slot e \<Longrightarrow> aligned 12 p \<Longrightarrow> page_next (copy_entry m old e va) p = page_next m p"
  by (auto simp: copy_entry_def page_next_slot_fields)

lemma copy_queue_run:
  assumes "at_slot (memory s) pg pos R" "chain (ent_next (memory s)) src xs" "length xs \<le> length R" "length xs < fuel"
    "\<And>x. x \<in> set xs \<Longrightarrow> is_slot x" "set xs \<inter> set (ds @ R) = {}" "distinct (ds @ R)" "\<And>d. d \<in> set ds \<Longrightarrow> is_slot d"
    "\<And>r. r \<in> set R \<Longrightarrow> ent_next (memory s) r = 0"
    "chain (ent_next (memory s)) (hd (ds @ [0])) ds" "chain (ent_prev (memory s)) old (rev ds)"
  shows "\<exists>t. copy_queue fuel pg pos src old s = Done (hd (rev (ds @ take (length xs) R) @ [0])) t
     \<and> t = s\<lparr>memory := memory t\<rparr>
     \<and> chain (ent_next (memory t)) (hd (ds @ take (length xs) R @ [0])) (ds @ take (length xs) R)
     \<and> chain (ent_prev (memory t)) (hd (rev (ds @ take (length xs) R) @ [0])) (rev (ds @ take (length xs) R))
     \<and> map (load32 (memory t)) (ds @ take (length xs) R) = map (load32 (memory s)) (ds @ xs)
     \<and> (\<forall>f. is_slot f \<and> f \<notin> set ds \<and> f \<notin> set (take (length xs) R) \<longrightarrow> load32 (memory t) f = load32 (memory s) f
          \<and> ent_next (memory t) f = ent_next (memory s) f \<and> ent_prev (memory t) f = ent_prev (memory s) f)
     \<and> (\<forall>p. aligned 12 p \<longrightarrow> page_next (memory t) p = page_next (memory s) p)"
  using assms
proof (induction xs arbitrary: s pg pos R src old ds fuel)
  case Nil
  then obtain n where n: "fuel = Suc n" by (cases fuel) auto
  have "old = hd (rev ds @ [0])" using Nil.prems(11) by (cases "rev ds") auto
  then show ?case using Nil.prems n by (cases s) (auto simp: kmonad hd_append)
next
  case (Cons x xs)
  let ?m = "memory s"
  obtain n where n: "fuel = Suc n" "length xs < n" using Cons.prems(4) by (cases fuel) auto
  obtain e R' where R: "R = e # R'" using Cons.prems(3) by (cases R) auto
  note hd = at_slot_head [OF Cons.prems(1), unfolded R, simplified]
  have x: "src = x" "x \<noteq> 0" "is_slot x" using Cons.prems(2,5) by auto
  have old: "old = hd (rev ds @ [0])" using Cons.prems(11) by (cases "rev ds") auto
  have oldd: "old = 0 \<and> ds = [] \<or> old \<in> set ds \<and> old \<noteq> 0 \<and> ds = butlast ds @ [old]"
    using Cons.prems(11) old by (cases ds rule: rev_cases) auto
  have olds: "old = 0 \<or> is_slot old" using oldd Cons.prems(8) by auto
  have eo: "e \<noteq> old" using oldd Cons.prems(7) R hd(4) by auto
  define m' where "m' = copy_entry ?m old e (load32 ?m x)"
  note st = copy_entry_fields [OF olds hd(3) eo, of _ ?m "load32 ?m x", folded m'_def]
  define u where "u = s\<lparr>memory := m'\<rparr>"
  let ?pg = "if Suc pos = 256 then page_next ?m pg else pg" and ?pos = "if Suc pos = 256 then 0 else Suc pos"
  have pn: "page_next m' p = page_next ?m p" if "aligned 12 p" for p
    using copy_entry_page [OF olds hd(3) that] by (simp add: m'_def)
  have xe: "x \<noteq> e" "x \<noteq> old" using Cons.prems(6) R oldd x(2) by auto
  have nx: "ent_next m' x = ent_next ?m x" using st(3) [OF x(3)] xe by simp
  have alpg: "aligned 12 pg" using Cons.prems(1) hd(1) by (auto simp: at_slot_def)
  have run: "copy_queue fuel pg pos src old s = copy_queue n ?pg ?pos (ent_next ?m x) e u"
  proof -
    have a: "mp_entry pg pos = e" using hd(2) by simp
    have b: "load32 (store32 (if old \<noteq> 0 then store32 ?m (old + 4) e else ?m) (e + 8) old) x = load32 ?m x"
      using xe x(3) hd(3) olds by (auto simp: load32_slot_fields)
    have c: "load32 m' (pg + 4) = page_next ?m pg" using pn [OF alpg] by (simp add: page_next_def)
    have d: "load32 m' (x + 4) = ent_next ?m x" using nx by (simp add: ent_next_def)
    show ?thesis
      using n hd(1) x(1,2) b c d
      by (cases "old = 0")
        (simp_all add: a kmonad st32_def ld32_def upd_memory_def Let_def u_def m'_def copy_entry_def)
  qed
  have fresh: "ent_next m' e = 0" using st(3) [OF hd(3)] eo Cons.prems(9) R by auto
  have chn: "chain (ent_next m') (hd ((ds @ [e]) @ [0])) (ds @ [e])"
  proof (cases "old = 0")
    case True
    then show ?thesis using oldd fresh hd(4) by auto
  next
    case False
    then obtain ds' where ds: "ds = ds' @ [old]" using oldd by auto
    have "chain (ent_next m') (hd (ds @ [0])) (ds' @ [old, e])"
    proof (rule chain_snoc)
      show "chain (ent_next ?m) (hd (ds @ [0])) (ds' @ [old])" using Cons.prems(10) ds by simp
      show "ent_next m' old = e" using st(3) [of old] olds False by simp
      show "ent_next m' z = ent_next ?m z" if "z \<in> set ds'" for z
        using st(3) [of z] Cons.prems(7,8) ds that by auto
    qed (use fresh hd(4) in auto)
    then show ?thesis by (cases ds') (simp_all add: ds)
  qed
  have chp: "chain (ent_prev m') e (rev (ds @ [e]))"
  proof -
    have "ent_prev m' z = ent_prev ?m z" if "z \<in> set (rev ds)" for z
      using st(2) [of z] Cons.prems(7) Cons.prems(8) [of z] R that by auto
    then have "chain (ent_prev m') old (rev ds)"
      using chain_cong [of "rev ds" "ent_prev m'" "ent_prev ?m" old] Cons.prems(11) by blast
    then show ?thesis using st(2) [OF hd(3)] hd(4) by simp
  qed
  obtain t where t: "copy_queue n ?pg ?pos (ent_next ?m x) e u = Done (hd (rev ((ds @ [e]) @ take (length xs) R') @ [0])) t"
    "t = u\<lparr>memory := memory t\<rparr>"
    "chain (ent_next (memory t)) (hd ((ds @ [e]) @ take (length xs) R' @ [0])) ((ds @ [e]) @ take (length xs) R')"
    "chain (ent_prev (memory t)) (hd (rev ((ds @ [e]) @ take (length xs) R') @ [0])) (rev ((ds @ [e]) @ take (length xs) R'))"
    "map (load32 (memory t)) ((ds @ [e]) @ take (length xs) R') = map (load32 m') ((ds @ [e]) @ xs)"
    "\<forall>f. is_slot f \<and> f \<notin> set (ds @ [e]) \<and> f \<notin> set (take (length xs) R') \<longrightarrow> load32 (memory t) f = load32 m' f
          \<and> ent_next (memory t) f = ent_next m' f \<and> ent_prev (memory t) f = ent_prev m' f"
    "\<forall>p. aligned 12 p \<longrightarrow> page_next (memory t) p = page_next m' p"
  proof -
    have mu: "memory u = m'" by (simp add: u_def)
    have 1: "at_slot m' ?pg ?pos R'" using at_slot_cong [OF hd(5) pn] by simp
    have 2: "chain (ent_next m') (ent_next ?m x) xs"
    proof -
      have "ent_next m' z = ent_next ?m z" if "z \<in> set xs" for z
        using st(3) [of z] Cons.prems(5) [of z] Cons.prems(6) oldd that by auto
      then show ?thesis using chain_cong [of xs "ent_next m'" "ent_next ?m"] Cons.prems(2) by auto
    qed
    have 3: "length xs \<le> length R'" using Cons.prems(3) R by simp
    have 5: "is_slot z" if "z \<in> set xs" for z using Cons.prems(5) that by simp
    have 6: "set xs \<inter> set ((ds @ [e]) @ R') = {}" "distinct ((ds @ [e]) @ R')" using Cons.prems(6,7) R by auto
    have 8: "is_slot d" if "d \<in> set (ds @ [e])" for d using Cons.prems(8) hd(3) that by auto
    have 9: "ent_next m' r = 0" if "r \<in> set R'" for r
      using st(3) [of r] at_slot_is_slot [OF Cons.prems(1), of r] Cons.prems(7) Cons.prems(9) [of r] oldd R that by auto
    show ?thesis
      using Cons.IH [of u ?pg ?pos R' "ent_next ?m x" n "ds @ [e]" e, unfolded mu, OF 1 2 3 n(2) 5 6 8 9 chn chp]
        that by blast
  qed
  have "map (load32 m') ((ds @ [e]) @ xs) = map (load32 ?m) (ds @ x # xs)"
    using st(1) hd(3) Cons.prems(5,6,7,8) R by auto
  then have vals: "map (load32 (memory t)) (ds @ take (length (x # xs)) R) = map (load32 ?m) (ds @ x # xs)"
    using t(5) R by simp
  have rest: "load32 (memory t) f = load32 ?m f \<and> ent_next (memory t) f = ent_next ?m f \<and> ent_prev (memory t) f = ent_prev ?m f"
    if "is_slot f" "f \<notin> set ds" "f \<notin> set (take (length (x # xs)) R)" for f
    using t(6) st [OF that(1)] that R oldd by auto
  have tm: "t = s\<lparr>memory := memory t\<rparr>" using t(2) by (metis (no_types) u_def kheap.surjective kheap.update_convs(1))
  show ?case
    using run t(1,3,4,7) vals rest tm pn R by auto
qed

section \<open>Clearing and copying whole lists\<close>

lemma clear_entries_fresh:
  assumes "aligned 12 p"
  shows "fresh_mem_page (clear_entries p 256 m) p" "page_next (clear_entries p 256 m) q = page_next m q \<or> \<not> aligned 12 q"
proof -
  note ld = clear_entries_load [OF assms, of 256]
  show "fresh_mem_page (clear_entries p 256 m) p"
    unfolding fresh_mem_page_def
  proof (intro allI impI)
    fix i :: nat assume i: "i < 256"
    have m1: "(8 + 12 * i - 8) mod 12 = 0" "(12 + 12 * i - 8) mod 12 \<noteq> 0" "(16 + 12 * i - 8) mod 12 \<noteq> 0" by simp_all
    show "load32 (clear_entries p 256 m) (mp_entry p i) = SLOT_USABLE \<and> load32 (clear_entries p 256 m) (mp_entry p i + 4) = 0
        \<and> load32 (clear_entries p 256 m) (mp_entry p i + 8) = 0"
      unfolding mp_entry_off(2,3) unfolding mp_entry_off(1) using i m1
      by (simp add: ld dvd_add del: of_nat_add of_nat_mult)
  qed
  show "page_next (clear_entries p 256 m) q = page_next m q \<or> \<not> aligned 12 q"
  proof (cases "q = p")
    case True
    then show ?thesis using ld [of 4 m] by (simp add: page_next_def)
  next
    case False
    then show ?thesis
      using changes_only_load32 [OF clear_entries_frame [OF assms, of 256 m], of q 4] by (auto simp: page_next_def)
  qed
qed

lemma fresh_mem_page_frame:
  assumes "fresh_mem_page m p" "changes_only P m m'" "aligned 12 p" "p \<notin> P"
  shows "fresh_mem_page m' p"
  by (rule fresh_mem_page_cong [OF assms(1)]) (use changes_only_field [OF assms(2-4)] in auto)

lemma mem_clear_loop_run:
  assumes "chain (page_next (memory s)) p pgs" "\<forall>q \<in> set pgs. aligned 12 q" "length pgs < fuel"
  shows "\<exists>m'. mem_clear_loop fuel p s = Done () (s\<lparr>memory := m'\<rparr>)
     \<and> changes_only (set pgs) (memory s) m' \<and> (\<forall>q \<in> set pgs. fresh_mem_page m' q)
     \<and> (\<forall>q. aligned 12 q \<longrightarrow> page_next m' q = page_next (memory s) q)"
  using assms
proof (induction pgs arbitrary: s p fuel)
  case Nil
  then obtain n where "fuel = Suc n" by (cases fuel) auto
  then have "mem_clear_loop fuel p s = Done () (s\<lparr>memory := memory s\<rparr>)" using Nil.prems by (simp add: kmonad)
  then show ?case by (intro exI [of _ "memory s"]) simp
next
  case (Cons x pgs)
  obtain n where n: "fuel = Suc n" "length pgs < n" using Cons.prems(3) by (cases fuel) auto
  have x: "p = x" "x \<noteq> 0" "aligned 12 x" "chain (page_next (memory s)) (page_next (memory s) x) pgs"
    using Cons.prems by auto
  have nx: "x \<notin> set pgs" using chain_distinct [OF Cons.prems(1)] by simp
  define m1 where "m1 = clear_entries x 256 (memory s)"
  have pn: "page_next m1 q = page_next (memory s) q" if "aligned 12 q" for q
    using clear_entries_fresh(2) [OF x(3), of "memory s" q] that by (simp add: m1_def)
  have co: "changes_only {x} (memory s) m1" using clear_entries_frame [OF x(3), of 256] by (simp add: m1_def)
  have ch: "chain (page_next m1) (page_next (memory s) x) pgs"
    using chain_cong [of pgs "page_next m1" "page_next (memory s)"] pn Cons.prems(2) x(4) by auto
  obtain m' where m': "mem_clear_loop n (page_next (memory s) x) (s\<lparr>memory := m1\<rparr>) = Done () (s\<lparr>memory := m'\<rparr>)"
    "changes_only (set pgs) m1 m'" "\<forall>q \<in> set pgs. fresh_mem_page m' q"
    "\<forall>q. aligned 12 q \<longrightarrow> page_next m' q = page_next m1 q"
    using Cons.IH [of "s\<lparr>memory := m1\<rparr>" "page_next (memory s) x" n] ch Cons.prems(2) n(2) by auto
  have "mem_clear_loop fuel p s = Done () (s\<lparr>memory := m'\<rparr>)"
    using n x m'(1) pn [OF x(3)]
    by (simp add: kmonad mem_page_clear_def upd_memory_def ld32_def m1_def page_next_def)
  moreover have "fresh_mem_page m' x"
    using fresh_mem_page_frame [OF _ m'(2) x(3) nx] clear_entries_fresh(1) [OF x(3)] by (simp add: m1_def)
  moreover have "changes_only (set (x # pgs)) (memory s) m'"
    using changes_only_trans [OF co m'(2)] by simp
  ultimately show ?case using m'(3,4) pn by auto
qed

lemma fresh_page_lists:
  assumes "chain (page_next m) (mem_page_head q) pgs" "\<forall>p \<in> set pgs. aligned 12 p" "\<forall>p \<in> set pgs. fresh_mem_page m p"
    "mem_queue_head q = 0" "mem_queue_tail q = 0"
  shows "page_lists_ok m q pgs []"
  using assms by (auto simp: page_lists_ok_def mem_queue_def slots_mem fresh_mem_page_def ent_prev_def)

lemma mem_clear_run:
  assumes "chain (page_next (memory s)) (mem_page_head (ptable s ! pr)) pgs" "\<forall>q \<in> set pgs. aligned 12 q"
    "length pgs < page_fuel" "pr < length (ptable s)"
  shows "\<exists>m'. mem_clear pr s = Done () (s\<lparr>memory := m', ptable := (ptable s)[pr := (ptable s ! pr)\<lparr>num_mem_page_entries := 0,
        mem_queue_head := 0, mem_queue_tail := 0\<rparr>]\<rparr>)
     \<and> changes_only (set pgs) (memory s) m' \<and> (\<forall>q \<in> set pgs. fresh_mem_page m' q)
     \<and> (\<forall>q. aligned 12 q \<longrightarrow> page_next m' q = page_next (memory s) q)"
  using mem_clear_loop_run [OF assms(1-3)] assms(4)
  by (auto simp: mem_clear_def kmonad get_proc_def upd_proc_def)

lemma at_slot_start:
  assumes "chain (page_next m) p pgs" "\<forall>q \<in> set pgs. aligned 12 q"
  shows "at_slot m p 0 (slots pgs)"
proof (cases pgs)
  case Nil
  then show ?thesis using assms by (simp add: at_slot_def slots_def)
next
  case (Cons q qs)
  then show ?thesis using assms by (auto simp: at_slot_def slots_def)
qed

lemma slot_frame:
  assumes "changes_only P m m'" "aligned 12 p" "p \<notin> P" "i < 256"
  shows "load32 m' (mp_entry p i) = load32 m (mp_entry p i)" "ent_next m' (mp_entry p i) = ent_next m (mp_entry p i)"
    "ent_prev m' (mp_entry p i) = ent_prev m (mp_entry p i)"
  unfolding ent_next_def ent_prev_def mp_entry_off(2,3) unfolding mp_entry_off(1)
  using assms(4) by (intro changes_only_field [OF assms(1-3)]; simp)+

lemma page_lists_ok_cong:
  assumes "page_lists_ok m q pgs xs"
    "\<And>e. e \<in> set (slots pgs) \<Longrightarrow> load32 m' e = load32 m e \<and> ent_next m' e = ent_next m e \<and> ent_prev m' e = ent_prev m e"
    "\<And>p. p \<in> set pgs \<Longrightarrow> page_next m' p = page_next m p"
    "mem_page_head q' = mem_page_head q" "mem_queue_head q' = mem_queue_head q" "mem_queue_tail q' = mem_queue_tail q"
  shows "page_lists_ok m' q' pgs xs" "queue_vas m' xs = queue_vas m xs"
proof -
  have sub: "set xs \<subseteq> set (slots pgs)" using assms(1) by (simp add: page_lists_ok_def)
  then have e: "load32 m' e = load32 m e" "ent_next m' e = ent_next m e" "ent_prev m' e = ent_prev m e" if "e \<in> set xs" for e
    using assms(2) that by auto
  have "chain (ent_next m') h xs = chain (ent_next m) h xs" "chain (ent_prev m') h (rev xs) = chain (ent_prev m) h (rev xs)" for h
    using e chain_cong [of xs "ent_next m'" "ent_next m"] chain_cong [of "rev xs" "ent_prev m'" "ent_prev m"] by auto
  moreover have "chain (page_next m') h pgs = chain (page_next m) h pgs" for h
    using chain_cong [of pgs "page_next m'" "page_next m"] assms(3) by blast
  moreover have "load32 m' f = SLOT_USABLE \<and> ent_prev m' f = 0" if "f \<in> set (slots pgs) - set xs" for f
    using assms(1,2) that by (auto simp: page_lists_ok_def)
  ultimately show "page_lists_ok m' q' pgs xs"
    using assms(1,4-6) e(1) sub by (auto simp: page_lists_ok_def mem_queue_def)
  show "queue_vas m' xs = queue_vas m xs" using e(1) by (simp add: queue_vas_def)
qed

lemma page_lists_ok_frame:
  assumes ok: "page_lists_ok m q pgs xs" and co: "changes_only P m m'" and d: "set pgs \<inter> P = {}"
  shows "page_lists_ok m' q pgs xs" "queue_vas m' xs = queue_vas m xs"
proof -
  have al: "\<forall>p \<in> set pgs. aligned 12 p" using ok by (simp add: page_lists_ok_def)
  have sl: "load32 m' e = load32 m e \<and> ent_next m' e = ent_next m e \<and> ent_prev m' e = ent_prev m e" if e: "e \<in> set (slots pgs)" for e
  proof -
    obtain p i where p: "p \<in> set pgs" "i < 256" "e = mp_entry p i" using e by (auto simp: slots_mem)
    then have "aligned 12 p" "p \<notin> P" using al d by auto
    then show ?thesis using slot_frame [OF co _ _ p(2)] p(3) by simp
  qed
  have pg: "page_next m' p = page_next m p" if "p \<in> set pgs" for p
    using changes_only_load32 [OF co, of p 4] that al d by (auto simp: page_next_def)
  show "page_lists_ok m' q pgs xs" "queue_vas m' xs = queue_vas m xs"
    by (rule page_lists_ok_cong [OF ok sl pg]; simp)+
qed

lemma copied_queue_ok:
  assumes src: "page_lists_ok m q spgs xs"
    and dst: "chain (page_next m) (mem_page_head d) dpgs" "\<forall>p \<in> set dpgs. aligned 12 p" "\<forall>p \<in> set dpgs. fresh_mem_page m p"
    and dis: "set spgs \<inter> set dpgs = {}" and n: "length xs \<le> 256 * length dpgs" "length xs < page_fuel"
    and s: "memory s = m"
  defines "ys \<equiv> take (length xs) (slots dpgs)"
  shows "\<exists>t. copy_queue page_fuel (mem_page_head d) 0 (mem_queue_head q) 0 s = Done (hd (rev ys @ [0])) t
    \<and> t = s\<lparr>memory := memory t\<rparr> \<and> page_lists_ok (memory t) q spgs xs
    \<and> queue_vas (memory t) xs = queue_vas m xs
    \<and> page_lists_ok (memory t) (d\<lparr>mem_queue_head := hd (ys @ [0]), mem_queue_tail := hd (rev ys @ [0])\<rparr>) dpgs ys
    \<and> queue_vas (memory t) ys = queue_vas m xs"
proof -
  have al: "\<forall>p \<in> set spgs. aligned 12 p" and sub: "set xs \<subseteq> set (slots spgs)"
    and chx: "chain (ent_next m) (mem_queue_head q) xs" and used: "\<forall>e \<in> set xs. load32 m e \<noteq> SLOT_USABLE"
    using src by (auto simp: page_lists_ok_def mem_queue_def)
  have free: "load32 m e = SLOT_USABLE \<and> ent_next m e = 0 \<and> ent_prev m e = 0" if "e \<in> set (slots dpgs)" for e
    using dst(3) that by (auto simp: slots_mem fresh_mem_page_def ent_next_def ent_prev_def)
  have disj: "e \<notin> set (slots dpgs)" if e: "e \<in> set (slots spgs)" for e
  proof
    assume "e \<in> set (slots dpgs)"
    then obtain p i where p: "p \<in> set dpgs" "i < 256" "e = mp_entry p i" by (auto simp: slots_mem)
    obtain p' i' where p': "p' \<in> set spgs" "i' < 256" "e = mp_entry p' i'" using e by (auto simp: slots_mem)
    then have "p = p'" using p al dst(2) mp_entry_inj [of p p' i i'] by simp
    then show False using p(1) p'(1) dis by auto
  qed
  have sls: "is_slot e" if "e \<in> set (slots spgs)" for e using slots_is_slot [OF al that] .
  have sld: "is_slot e" if "e \<in> set (slots dpgs)" for e using slots_is_slot [OF dst(2) that] .
  have slx: "is_slot e" if "e \<in> set xs" for e using sls sub that by blast
  have dd: "distinct (slots dpgs)" using slots_distinct dst(2) chain_distinct [OF dst(1)] by blast
  have ysd: "set ys \<subseteq> set (slots dpgs)" unfolding ys_def by (rule set_take_subset)
  have len: "length xs \<le> length (slots dpgs)" using n(1) by (simp add: slots_length)
  obtain t where t: "copy_queue page_fuel (mem_page_head d) 0 (mem_queue_head q) 0 s = Done (hd (rev ys @ [0])) t"
     "t = s\<lparr>memory := memory t\<rparr>" "chain (ent_next (memory t)) (hd (ys @ [0])) ys"
     "chain (ent_prev (memory t)) (hd (rev ys @ [0])) (rev ys)" "map (load32 (memory t)) ys = map (load32 m) xs"
     "\<And>f. is_slot f \<Longrightarrow> f \<notin> set ys \<Longrightarrow> load32 (memory t) f = load32 m f
          \<and> ent_next (memory t) f = ent_next m f \<and> ent_prev (memory t) f = ent_prev m f"
     "\<And>p. aligned 12 p \<Longrightarrow> page_next (memory t) p = page_next m p"
  proof -
    have 1: "set xs \<inter> set ([] @ slots dpgs) = {}" "distinct ([] @ slots dpgs)" using sub disj dd by auto
    have 2: "ent_next m r = 0" if "r \<in> set (slots dpgs)" for r using free that by blast
    show ?thesis
      using copy_queue_run [of s "mem_page_head d" 0 "slots dpgs" "mem_queue_head q" xs page_fuel "[]" 0, unfolded s,
         OF at_slot_start [OF dst(1,2)] chx len n(2) slx 1 _ 2] that
      by (auto simp: ys_def)
  qed
  have "page_lists_ok (memory t) q spgs xs" "queue_vas (memory t) xs = queue_vas m xs"
    by (rule page_lists_ok_cong [OF src]; (use t(6,7) sls disj ysd al in blast | simp))+
  moreover have "page_lists_ok (memory t) (d\<lparr>mem_queue_head := hd (ys @ [0]), mem_queue_tail := hd (rev ys @ [0])\<rparr>) dpgs ys"
  proof -
    have "chain (page_next (memory t)) (mem_page_head d) dpgs"
      using chain_cong [of dpgs "page_next (memory t)" "page_next m"] dst(1,2) t(7) by blast
    moreover have "load32 (memory t) e \<noteq> SLOT_USABLE" if "e \<in> set ys" for e
    proof -
      have "load32 (memory t) e \<in> set (map (load32 m) xs)" using that t(5) by (metis image_eqI set_map)
      then show ?thesis using used by auto
    qed
    moreover have "load32 (memory t) e = SLOT_USABLE \<and> ent_prev (memory t) e = 0" if "e \<in> set (slots dpgs) - set ys" for e
      using t(6) [of e] sld free that by auto
    ultimately show ?thesis using t(3,4) dst(2) ysd by (simp add: page_lists_ok_def mem_queue_def)
  qed
  ultimately show ?thesis using t(1,2,5) by (auto simp: queue_vas_def)
qed

lemma upd_proc_run: "upd_proc i f s = Done () (s\<lparr>ptable := (ptable s)[i := f (ptable s ! i)]\<rparr>)"
  by (simp add: upd_proc_def)

lemma copy_mem_run:
  assumes src: "page_lists_ok (memory s) (ptable s ! src) spgs xs" "src < length (ptable s)"
    and dst: "chain (page_next (memory s)) (mem_page_head (ptable s ! dst)) dpgs" "\<forall>p \<in> set dpgs. aligned 12 p"
      "length dpgs < page_fuel" "dst < length (ptable s)"
    and dis: "dst \<noteq> src" "set spgs \<inter> set dpgs = {}"
    and n: "length xs \<le> 256 * length dpgs" "length xs < page_fuel"
    and vp: "num_virtual_page (ptable s ! src) = num_virtual_page (ptable s ! dst)" "virtual_page_head (ptable s ! src) = 0"
  shows "\<exists>t ys. copy_mem dst src s = Done 0 t
     \<and> page_lists_ok (memory t) (ptable t ! dst) dpgs ys \<and> queue_vas (memory t) ys = queue_vas (memory s) xs
     \<and> page_lists_ok (memory t) (ptable t ! src) spgs xs \<and> queue_vas (memory t) xs = queue_vas (memory s) xs
     \<and> num_mem_page_entries (ptable t ! dst) = num_mem_page_entries (ptable s ! src)"
proof -
  let ?q = "ptable s ! src" and ?d = "ptable s ! dst"
  obtain m1 where m1: "mem_clear dst s = Done () (s\<lparr>memory := m1, ptable := (ptable s)[dst := ?d\<lparr>num_mem_page_entries := 0,
        mem_queue_head := 0, mem_queue_tail := 0\<rparr>]\<rparr>)"
     "changes_only (set dpgs) (memory s) m1" "\<forall>q \<in> set dpgs. fresh_mem_page m1 q"
     "\<forall>q. aligned 12 q \<longrightarrow> page_next m1 q = page_next (memory s) q"
    using mem_clear_run [OF dst(1-4)] by blast
  have okq: "page_lists_ok m1 ?q spgs xs" "queue_vas m1 xs = queue_vas (memory s) xs"
    using page_lists_ok_frame [OF src(1) m1(2) dis(2)] by auto
  have chd: "chain (page_next m1) (mem_page_head ?d) dpgs"
    using chain_cong [of dpgs "page_next m1" "page_next (memory s)"] dst(1,2) m1(4) by blast
  define d1 where "d1 = ?d\<lparr>num_mem_page_entries := num_mem_page_entries ?q, mem_queue_head := 0, mem_queue_tail := 0\<rparr>"
  define ys where "ys = take (length xs) (slots dpgs)"
  define s1 where "s1 = s\<lparr>memory := m1, ptable := (ptable s)[dst := d1\<lparr>mem_queue_head := hd (ys @ [0])\<rparr>]\<rparr>"
  have s1: "memory s1 = m1" by (simp add: s1_def)
  obtain t where t: "copy_queue page_fuel (mem_page_head ?d) 0 (mem_queue_head ?q) 0 s1 = Done (hd (rev ys @ [0])) t"
     "t = s1\<lparr>memory := memory t\<rparr>" "page_lists_ok (memory t) ?q spgs xs"
     "queue_vas (memory t) xs = queue_vas m1 xs"
     "page_lists_ok (memory t) (d1\<lparr>mem_queue_head := hd (ys @ [0]), mem_queue_tail := hd (rev ys @ [0])\<rparr>) dpgs ys"
     "queue_vas (memory t) ys = queue_vas m1 xs"
    using copied_queue_ok [OF okq(1), of d1 dpgs s1] chd dst(2) m1(3) dis(2) n s1 by (auto simp: d1_def ys_def)
  have hq: "mem_queue_head ?q = 0 \<longleftrightarrow> xs = []" using src(1) by (cases xs) (auto simp: page_lists_ok_def mem_queue_def)
  have hd: "(if mem_queue_head ?q \<noteq> 0 then mp_entry (mem_page_head ?d) 0 else 0) = hd (ys @ [0])"
  proof (cases "xs = []")
    case False
    then have "slots dpgs \<noteq> []" using n(1) by (cases dpgs) (auto simp: slots_def)
    then have "hd (slots dpgs) = mp_entry (mem_page_head ?d) 0"
      using at_slot_head(2) [OF at_slot_start [OF chd dst(2)]] by simp
    then show ?thesis using False hq \<open>slots dpgs \<noteq> []\<close> by (cases "slots dpgs"; cases xs) (auto simp: ys_def)
  qed (simp add: hq ys_def)
  define u where "u = s1\<lparr>memory := memory t, ptable := (ptable s)[dst := d1\<lparr>mem_queue_head := hd (ys @ [0]), mem_queue_tail := hd (rev ys @ [0])\<rparr>]\<rparr>"
  have pu: "ptable u ! dst = d1\<lparr>mem_queue_head := hd (ys @ [0]), mem_queue_tail := hd (rev ys @ [0])\<rparr>" "ptable u ! src = ?q"
    "memory u = memory t"
    using dst(4) dis(1) by (simp_all add: u_def)
  have tu: "upd_proc dst (\<lambda>q. q\<lparr>mem_queue_tail := hd (rev ys @ [0])\<rparr>) t = Done () u"
    using dst(4) by (subst t(2)) (simp add: upd_proc_run u_def s1_def)
  have grow: "copy_mem_grow page_fuel dst src u = Done True u"
    unfolding page_fuel_def copy_mem_grow.simps
    using vp(1) dst(4) dis(1) pu by (simp add: kmonad get_proc_def d1_def)
  have cpv: "copy_vpages page_fuel (virtual_page_head ?q) v u = Done () u" for v
    unfolding page_fuel_def copy_vpages.simps using vp(2) by (simp add: kmonad)
  have "mem_queue_head d1 = 0" "d1\<lparr>mem_queue_head := mem_queue_head d1\<rparr> = d1" by (simp_all add: d1_def)
  then have d1h: "d1\<lparr>mem_queue_head := 0\<rparr> = d1" by simp
  have pre: "kseq (kwhen (mem_queue_head ?q \<noteq> 0) (upd_proc dst (\<lambda>q. q\<lparr>mem_queue_head := mp_entry (mem_page_head ?d) 0\<rparr>))) f
      (s\<lparr>memory := m1, ptable := (ptable s)[dst := d1]\<rparr>) = f s1" for f :: "(int, 'a kproc_scheme) kop"
    using hd dst(4) d1h by (auto simp: kmonad upd_proc_run s1_def split: if_splits)
  have "copy_mem dst src s = Done 0 u"
    unfolding copy_mem_def
    using m1(1) dst(4) dis(1) t(1) tu grow cpv pre
    by (simp add: kseq_run [of "mem_clear dst"] kbind_run get_proc_def upd_proc_run kseq_run [of "upd_proc _ _"]
        kseq_run [of "copy_vpages _ _ _"] d1_def pu(2))
  then show ?thesis using t(3-6) okq(2) pu by (auto simp: d1_def)
qed

section \<open>Allocating a process\<close>

lemma free_pages_kproc [simp]:
  "free_pages (s\<lparr>ptable := q\<rparr>) = free_pages s" "free_pages (s\<lparr>nextpid := n\<rparr>) = free_pages s"
  by (simp_all add: free_pages_def)

lemma kmem_inv_kproc [simp]:
  "kmem_inv (s\<lparr>ptable := q\<rparr>) = kmem_inv s" "kmem_inv (s\<lparr>nextpid := n\<rparr>) = kmem_inv s"
  by (simp_all add: kmem_inv_def valid_page_def page_refs_def)

lemma same_machine_kproc:
  assumes "same_machine s t"
  shows "ptable t = ptable s" "nextpid t = nextpid s" "sym_trapret t = sym_trapret s" "sym_forkret t = sym_forkret s"
proof -
  have t: "t = s\<lparr>memory := memory t, kmem := kmem t\<rparr>" using assms by (simp add: same_machine_def)
  show "ptable t = ptable s" "nextpid t = nextpid s" "sym_trapret t = sym_trapret s" "sym_forkret t = sym_forkret s"
    by (subst t, simp)+
qed

lemma mem_alloc_run:
  assumes "kmem_inv s" "32 \<le> length (free_pages s)"
  shows "\<exists>t. mem_alloc s = Done (hd (free_pages s)) t \<and> kmem_inv t \<and> free_pages t = drop 32 (free_pages s)
     \<and> same_machine s t \<and> chain (page_next (memory t)) (hd (free_pages s)) (take 32 (free_pages s))
     \<and> (\<forall>p \<in> set (take 32 (free_pages s)). aligned 12 p \<and> fresh_mem_page (memory t) p)
     \<and> changes_only (set (take 32 (free_pages s))) (memory s) (memory t)"
proof -
  obtain p ps where fp: "free_pages s = p # ps" using assms(2) by (cases "free_pages s") auto
  have al: "aligned 12 q" if "q \<in> set (free_pages s)" for q
    using kmem_inv_valid [OF assms(1) that] by (simp add: valid_page_def)
  have p: "aligned 12 p" "p \<noteq> 0" "p \<notin> set ps"
    using assms(1) fp al valid_page_nonzero by (auto simp: kmem_inv_def)
  obtain t1 where t1: "mem_page_alloc s = Done p t1" "kmem_inv t1" "free_pages t1 = ps" "same_machine s t1"
    "memory t1 = cleared_page (memory s) p"
    using mem_page_alloc_run [OF assms(1) fp] by blast
  note cp = cleared_page_fresh [OF p(1), of "memory s"]
  have n: "31 \<le> length ps" using assms(2) fp by simp
  have "p \<notin> set (free_pages t1)" "31 \<le> length (free_pages t1)" "load32 (memory t1) (p + 4) = 0"
    using t1(3,5) p(3) n cp(2) by simp_all
  note loop = mem_alloc_loop_run [OF t1(2) this(2) p(1,2) this(1,3), unfolded t1(3,5)]
  then obtain t where t: "mem_alloc_loop 31 p p t1 = Done p t" "kmem_inv t" "free_pages t = drop 31 ps" "same_machine t1 t"
    "chain (page_next (memory t)) p (p # take 31 ps)" "\<forall>q \<in> set (take 31 ps). fresh_mem_page (memory t) q"
    "changes_only (insert p (set (take 31 ps))) (cleared_page (memory s) p) (memory t)"
    "\<forall>k \<ge> 8. 4 dvd k \<and> k + 4 \<le> 4096 \<longrightarrow> load32 (memory t) (p + of_nat k) = load32 (cleared_page (memory s) p) (p + of_nat k)"
    by blast
  have tk: "take 32 (free_pages s) = p # take 31 ps" "drop 32 (free_pages s) = drop 31 ps" using fp by simp_all
  have "fresh_mem_page (memory t) p"
    by (rule fresh_mem_page_cong [OF cp(1)]) (use t(8) in auto)
  moreover have "mem_alloc s = Done p t" using t1(1) t(1) p(2) by (simp add: mem_alloc_def kmonad)
  moreover have "changes_only (set (p # take 31 ps)) (memory s) (memory t)"
    using changes_only_trans [OF cp(4) t(7)] by simp
  moreover have "aligned 12 q" if "q \<in> set (p # take 31 ps)" for q
    using al that fp by (auto dest: in_set_takeD)
  ultimately show ?thesis
    using t(2-6) same_machine_trans [OF t1(4) t(4)] fp tk by auto
qed

lemma release_ptable_nextpid:
  assumes "lock_ok L_ptable s"
  shows "release L_ptable ((entered L_ptable s)\<lparr>ptable := q, nextpid := n\<rparr>) = Done () (s\<lparr>ptable := q, nextpid := n\<rparr>)"
  using release_entered [OF assms, of "(entered L_ptable s)\<lparr>ptable := q, nextpid := n\<rparr>"]
  by (simp add: entered_def Let_def)

lemma allocproc_none:
  assumes "lock_ok L_ptable s" "\<forall>p \<in> set (ptable s). pstate p \<noteq> UNUSED"
  shows "allocproc s = Done None s"
proof -
  have "release L_ptable (entered L_ptable s) = Done () s"
    using release_ptable_nextpid [OF assms(1), where q = "ptable s" and n = "nextpid s"] by (simp add: entered_def Let_def)
  moreover have "find_index (\<lambda>p. pstate p = UNUSED) (ptable s) = None" using assms(2) by (simp add: find_index_None)
  ultimately show ?thesis by (simp add: allocproc_def kmonad acquire_entered [OF assms(1)])
qed

lemma in_range_page_part:
  assumes "aligned 12 p" "unat off + n \<le> 4096" "in_range (p + off) n x"
  shows "PGROUNDDOWN x = p"
proof -
  define i where "i = x - (p + off)"
  have i: "unat i < n" "x = p + (off + i)" using assms(3) by (simp_all add: in_range_def i_def)
  then have "unat (off + i) = unat off + unat i" using assms(2) by (simp add: unat_word_ariths)
  then have "unat (off + i) < 4096" using i assms(2) by simp
  then show ?thesis unfolding i(2) by (rule PGROUNDDOWN_add [OF assms(1)])
qed

lemma changes_only_fill_part:
  assumes "aligned 12 p" "unat off + n \<le> 4096"
  shows "changes_only {p} m (mem_fill m (p + off) n c)"
  using in_range_page_part [OF assms] by (auto simp: changes_only_def mem_fill_apply)

text \<open>The words \<open>allocproc\<close> leaves on the new kernel stack.\<close>

definition kstack_frame :: "mem \<Rightarrow> uint32 \<Rightarrow> uint32 \<Rightarrow> uint32 \<Rightarrow> mem" where
  "kstack_frame m ks trapret forkret =
     store32 (mem_fill (store32 m (ks + 4016) trapret) (ks + 3996) 20 0) (ks + 4012) forkret"

lemma kstack_frame_words:
  assumes "aligned 12 ks"
  shows "load32 (kstack_frame m ks a b) (ks + 4016) = a" "load32 (kstack_frame m ks a b) (ks + 4012) = b"
    "changes_only {ks} m (kstack_frame m ks a b)"
proof -
  let ?m1 = "store32 m (ks + 4016) a" and ?m2 = "mem_fill (store32 m (ks + 4016) a) (ks + 3996) 20 0"
  have "load32 ?m2 (ks + 4016) = load32 ?m1 (ks + 4016)"
  proof (rule load32_cong)
    fix i :: nat assume i: "i < 4"
    have "ks + 4016 + of_nat i - (ks + 3996) = of_nat (20 + i)" by simp
    then have "\<not> in_range (ks + 3996) 20 (ks + 4016 + of_nat i)"
      using i unfolding in_range_def by (simp add: unat_of_nat del: of_nat_add)
    then show "?m2 (ks + 4016 + of_nat i) = ?m1 (ks + 4016 + of_nat i)" by (simp add: mem_fill_apply)
  qed
  then show "load32 (kstack_frame m ks a b) (ks + 4016) = a"
    using load32_field [OF assms, of 4012 4016 ?m2 b] by (simp add: kstack_frame_def)
  show "load32 (kstack_frame m ks a b) (ks + 4012) = b" by (simp add: kstack_frame_def)
  have "changes_only {ks} m ?m1" "changes_only {ks} ?m2 (store32 ?m2 (ks + 4012) b)" "changes_only {ks} ?m1 ?m2"
    using assms by (auto intro!: changes_only_store32 changes_only_fill_part)
  then show "changes_only {ks} m (kstack_frame m ks a b)"
    unfolding kstack_frame_def by (meson changes_only_step)
qed

lemma allocproc_some:
  assumes inv: "kmem_inv s" and ok: "lock_ok L_ptable s" and f: "find_index (\<lambda>p. pstate p = UNUSED) (ptable s) = Some p"
    and mh: "mem_page_head (ptable s ! p) = 0" and n: "33 \<le> length (free_pages s)"
  shows "\<exists>t. allocproc s = Done (Some p) t \<and> kmem_inv t \<and> free_pages t = drop 33 (free_pages s)
     \<and> nextpid t = nextpid s + 1
     \<and> (\<exists>q. ptable t = (ptable s)[p := q] \<and> pstate q = EMBRYO \<and> pid q = nextpid s
         \<and> kstack q = hd (free_pages s) \<and> tf q = kstack q + 4096 - 76 \<and> ctx q = tf q - 24
         \<and> load32 (memory t) (ctx q + 16) = sym_forkret s \<and> load32 (memory t) (ctx q + 20) = sym_trapret s
         \<and> page_lists_ok (memory t) q (take 32 (tl (free_pages s))) []
         \<and> num_mem_page_entries q = 0 \<and> shrmem_sigs q = replicate 128 0)"
proof -
  have p: "p < length (ptable s)" using find_index_Some [OF f] by simp
  obtain ks fs where fs: "free_pages s = ks # fs" using n by (cases "free_pages s") auto
  let ?P = "ptable s ! p"
  define s1 where "s1 = s\<lparr>ptable := (ptable s)[p := ?P\<lparr>pstate := EMBRYO, pid := nextpid s\<rparr>], nextpid := nextpid s + 1\<rparr>"
  have inv1: "kmem_inv s1" "free_pages s1 = ks # fs" using inv fs by (simp_all add: s1_def)
  obtain t1 where t1: "kalloc s1 = Done ks t1" "pool t1 = (fs, (snd (pool s1))(ks := 1))" "kmem_inv t1" "same_machine s1 t1"
      "memory t1 = memory s1"
    using kalloc_pool [OF inv1(1)] inv1(2) by (auto simp: pool_def [of s1])
  have fp1: "free_pages t1 = fs" using t1(2) by (simp add: pool_def)
  have ks: "aligned 12 ks" "ks \<noteq> 0" "ks \<notin> set fs" 
    using inv fs valid_page_nonzero by (auto simp: kmem_inv_def valid_page_def)
  note sm1 = same_machine_kproc [OF t1(4)]
  define q1 where "q1 = ?P\<lparr>pstate := EMBRYO, pid := nextpid s, kstack := ks, tf := ks + 4020, ctx := ks + 3996\<rparr>"
  define m2 where "m2 = kstack_frame (memory s) ks (sym_trapret s) (sym_forkret s)"
  define t2 where "t2 = t1\<lparr>ptable := (ptable s)[p := q1], memory := m2\<rparr>"
  note kf = kstack_frame_words [OF ks(1), of "memory s" "sym_trapret s" "sym_forkret s", folded m2_def]
  have mem1: "memory t1 = memory s" using t1(5) by (simp add: s1_def)
  have inv2: "kmem_inv t2" "free_pages t2 = fs"
    using kmem_inv_memory [of "t1\<lparr>ptable := (ptable s)[p := q1]\<rparr>" "{ks}" m2] kf(3) mem1 fp1 ks(3) t1(3)
    by (auto simp: t2_def)
  have "32 \<le> length (free_pages t2)" using inv2(2) n fs by simp
  then obtain t3 where t3: "mem_alloc t2 = Done (hd fs) t3" "kmem_inv t3" "free_pages t3 = drop 32 fs" "same_machine t2 t3"
    "chain (page_next (memory t3)) (hd fs) (take 32 fs)" "\<forall>q \<in> set (take 32 fs). aligned 12 q \<and> fresh_mem_page (memory t3) q"
    "changes_only (set (take 32 fs)) m2 (memory t3)"
    using mem_alloc_run [OF inv2(1)] inv2(2) by (auto simp: t2_def)
  note sm3 = same_machine_kproc [OF t3(4)]
  have hfs: "hd fs \<noteq> 0"
    using t3(5) n fs by (cases fs) auto
  define q3 where "q3 = q1\<lparr>mem_page_head := hd fs, num_mem_page_entries := 0, mem_queue_head := 0, mem_queue_tail := 0,
     shrmem_sigs := replicate 128 0\<rparr>"
  define t4 where "t4 = t3\<lparr>ptable := (ptable s)[p := q3]\<rparr>"
  have run1: "allocproc s = Done (Some p) t4"
  proof -
    have a: "release L_ptable ((entered L_ptable s)\<lparr>ptable := (ptable s)[p := ?P\<lparr>pstate := EMBRYO, pid := nextpid s\<rparr>],
        nextpid := nextpid s + 1\<rparr>) = Done () s1"
      by (simp add: release_ptable_nextpid [OF ok] s1_def)
    have t1p: "ptable t1 = (ptable s)[p := ?P\<lparr>pstate := EMBRYO, pid := nextpid s\<rparr>]"
      "sym_trapret t1 = sym_trapret s" "sym_forkret t1 = sym_forkret s"
      using sm1 by (simp_all add: s1_def)
    have t3p: "ptable t3 = (ptable s)[p := q1]" using sm3 by (simp add: t2_def)
    have t2x: "t1\<lparr>ptable := (ptable s)[p := ?P\<lparr>pstate := EMBRYO, pid := nextpid s, kstack := ks, tf := 4020 + ks, ctx := 3996 + ks\<rparr>],
        memory := store32 (mem_fill (store32 (memory s) (4016 + ks) (sym_trapret s)) (3996 + ks) 20 0) (4012 + ks) (sym_forkret s)\<rparr> = t2"
      by (simp add: t2_def m2_def kstack_frame_def q1_def add.commute)
    have mh2: "mem_page_head (ptable t2 ! p) = 0" using p mh by (simp add: t2_def q1_def)
    show ?thesis
      using mh2 p mh ks(2) hfs t1(1) t3(1) t2x t1p t3p mem1
      by (simp add: allocproc_def kmonad acquire_entered [OF ok] f upd_proc_run a get_proc_def st32_def upd_memory_def
          memset_mem_fill Let_def) (simp add: t4_def q3_def)
  qed
  have nks: "ks \<notin> set (take 32 fs)" using ks(3) by (auto dest: in_set_takeD)
  have "load32 (memory t3) (ks + 4012) = sym_forkret s" "load32 (memory t3) (ks + 4016) = sym_trapret s"
    using changes_only_load32 [OF t3(7) ks(1) nks, of 4012] changes_only_load32 [OF t3(7) ks(1) nks, of 4016] kf(1,2) by simp_all
  moreover have "page_lists_ok (memory t3) q3 (take 32 fs) []"
    using t3(5,6) by (intro fresh_page_lists) (auto simp: q3_def)
  moreover have "nextpid t4 = nextpid s + 1"
    using sm3(2) sm1(2) by (simp add: t4_def t2_def s1_def)
  ultimately show ?thesis
    using run1 t3(2,3) fs
    by (intro exI [of _ t4]) (auto simp: t4_def q3_def q1_def add.commute intro!: exI [of _ q3])
qed

section \<open>Correctness of the page lists\<close>

lemma sample_kproc_inv [simp]: "kmem_inv sample_kproc"
proof -
  have fp: "free_pages sample_kproc = [0x80400000, 0x80401000]"
    by (simp add: free_pages_def sample_kproc_def sample_kmem_def)
  have "flist (memory sample_kproc) (freelist (kmem sample_kproc)) [0x80400000, 0x80401000]"
    by (simp add: sample_kproc_def sample_kmem_def)
  moreover have "fpgn (kmem sample_kproc) = 2" "0 < kend sample_kproc" by (simp_all add: sample_kproc_def sample_kmem_def)
  ultimately show ?thesis
    by (simp add: kmem_inv_def fp valid_page_def page_refs_def) (simp add: sample_kproc_def sample_kmem_def V2P_def)
qed

text \<open>The sample kernel after \<open>freerange\<close> has added 256 pages.\<close>

definition sample_rich :: kproc where
  "sample_rich = (case freerange 0x80500000 0x80600000 sample_kproc of Done _ t \<Rightarrow> t | _ \<Rightarrow> sample_kproc)"

lemma page_seq_length: "length (page_seq p n) = n"
  by (induction n arbitrary: p) simp_all

lemma sample_rich_props:
  "kmem_inv sample_rich" "100 \<le> length (free_pages sample_rich)" "ptable sample_rich = ptable sample_kproc"
  "lock_ok L_ptable sample_rich" "nextpid sample_rich = 3" "same_machine sample_kproc sample_rich"
  "p \<in> set (free_pages sample_rich) \<Longrightarrow> p = 0x80400000 \<or> p = 0x80401000 \<or> 0x80500000 \<le> unat p"
proof -
  have fp: "free_pages sample_kproc = [0x80400000, 0x80401000]"
    by (simp add: free_pages_def sample_kproc_def sample_kmem_def)
  have above: "unat (0x80500000 :: uint32) \<le> unat q" if "q \<in> set (page_seq 0x80500000 256)" for q
    using page_seq_above [of "0x80500000" 256 q] that by simp
  have "0x80400000 \<notin> set (page_seq 0x80500000 256)" "0x80401000 \<notin> set (page_seq 0x80500000 256)"
    "0x80402000 \<notin> set (page_seq 0x80500000 256)"
    using above by force+
  moreover have "snd (pool sample_kproc) q \<le> 1" if "q \<in> set (page_seq 0x80500000 256)" for q
  proof -
    have "q \<noteq> 0x80402000" using above [OF that] by auto
    then have "drop_bit 12 (V2P q) \<noteq> 0x402" if "aligned 12 q"
      using share_index_inj [OF that, of "0x80402000"] by (simp add: V2P_def)
    then show ?thesis
      by (auto simp: pool_def valid_page_def page_refs_def sample_kproc_def sample_kmem_def)
  qed
  ultimately obtain t where t: "freerange_loop page_fuel 0x80500000 0x80600000 sample_kproc = Done () t" "kmem_inv t"
      "same_machine sample_kproc t" "free_pages t = rev (page_seq 0x80500000 256) @ free_pages sample_kproc"
    using freerange_loop_pages [OF sample_kproc_inv, of "0x80500000" 256 "0x80600000" page_fuel]
    by (auto simp: fp page_fuel_def sample_kproc_def [THEN arg_cong [of _ _ kend]])
  have r: "sample_rich = t"
    using t(1) by (simp add: sample_rich_def freerange_def PGROUNDUP_def)
  show "kmem_inv sample_rich" "100 \<le> length (free_pages sample_rich)" "ptable sample_rich = ptable sample_kproc"
    using t same_machine_kproc [OF t(3)] by (simp_all add: r page_seq_length fp)
  show "same_machine sample_kproc sample_rich" using t(3) by (simp add: r)
  show "p \<in> set (free_pages sample_rich) \<Longrightarrow> p = 0x80400000 \<or> p = 0x80401000 \<or> 0x80500000 \<le> unat p"
    using t(4) above by (auto simp: r fp)
  show "nextpid sample_rich = 3" using same_machine_kproc [OF t(3)] by (simp add: r sample_kproc_def)
  have "t = sample_kproc\<lparr>memory := memory t, kmem := kmem t\<rparr>" using t(3) by (simp add: same_machine_def)
  then have "lock_ok L_ptable t = lock_ok L_ptable sample_kproc" by (metis lock_ok_kheap(1,2))
  then show "lock_ok L_ptable sample_rich" by (simp add: r)
qed

text \<open>\<open>mem_alloc\<close> with at least 32 free pages takes exactly the first 32 of them, links them into one
  chain in that order and marks all their slots usable.\<close>

theorem mem_alloc_chain:
  assumes "kmem_inv s" "32 \<le> length (free_pages s)"
  shows "\<exists>t. mem_alloc s = Done (hd (free_pages s)) t \<and> kmem_inv t \<and> free_pages t = drop 32 (free_pages s)
     \<and> chain (page_next (memory t)) (hd (free_pages s)) (take 32 (free_pages s))
     \<and> (\<forall>p \<in> set (take 32 (free_pages s)). fresh_mem_page (memory t) p)"
  using mem_alloc_run [OF assms] by blast

theorem mem_alloc_chain_witness:
  "\<exists>t. mem_alloc sample_rich = Done (hd (free_pages sample_rich)) t \<and> kmem_inv t"
  using mem_alloc_chain [of sample_rich] sample_rich_props(1,2) by auto

text \<open>C39. \<open>find_slot\<close> records a page at the head of the queue of resident pages, in a slot that was free,
  with the rest of the queue as it was; when all slots of the process are taken it panics.\<close>

theorem find_slot_enqueues:
  assumes "page_lists_ok (memory s) (ptable s ! pr) pgs xs" "length pgs < page_fuel"
    "pr < length (ptable s)" "va \<noteq> SLOT_USABLE"
  shows "if length xs = 256 * length pgs then find_slot va pr s = Panic ''[ERROR] No free slot in memory.''
     else \<exists>t e. find_slot va pr s = Done () t \<and> e \<notin> set xs \<and> page_lists_ok (memory t) (ptable t ! pr) pgs (e # xs)
        \<and> queue_vas (memory t) (e # xs) = va # queue_vas (memory s) xs
        \<and> t = s\<lparr>memory := memory t, ptable := (ptable s)[pr := ptable t ! pr]\<rparr>"
  by (rule find_slot_spec [OF assms])

definition sample_lists :: kproc where
  "sample_lists = sample_kproc\<lparr>memory := cleared_page (cleared_page sample_memory 0x80405000) 0x80406000,
     ptable := (ptable sample_kproc)[0 := sample_proc\<lparr>mem_page_head := 0x80405000\<rparr>,
       1 := sample_proc\<lparr>mem_page_head := 0x80406000\<rparr>]\<rparr>"

lemma sample_lists_ok:
  "page_lists_ok (memory sample_lists) (ptable sample_lists ! 0) [0x80405000] []"
  "page_lists_ok (memory sample_lists) (ptable sample_lists ! 1) [0x80406000] []"
  "length (ptable sample_lists) = 64"
proof -
  let ?m1 = "cleared_page sample_memory 0x80405000"
  let ?m = "cleared_page ?m1 0x80406000"
  have al: "aligned 12 0x80405000" "aligned 12 0x80406000" by simp_all
  note c1 = cleared_page_fresh [OF al(1), of sample_memory] and c2 = cleared_page_fresh [OF al(2), of ?m1]
  have "fresh_mem_page ?m 0x80405000" using fresh_mem_page_frame [OF c1(1) c2(4) al(1)] by simp
  moreover have "load32 ?m (0x80405000 + 4) = 0" using changes_only_load32 [OF c2(4) al(1), of 4] c1(2) by simp
  ultimately show "page_lists_ok (memory sample_lists) (ptable sample_lists ! 0) [0x80405000] []"
    by (intro fresh_page_lists) (simp_all add: sample_lists_def sample_kproc_def sample_proc_def page_next_def)
  show "page_lists_ok (memory sample_lists) (ptable sample_lists ! 1) [0x80406000] []"
    using c2(1,2) by (intro fresh_page_lists) (simp_all add: sample_lists_def sample_kproc_def sample_proc_def page_next_def)
  show "length (ptable sample_lists) = 64" by (simp add: sample_lists_def sample_kproc_def)
qed

theorem find_slot_enqueues_witness:
  "\<exists>t e. find_slot 0x1000 0 sample_lists = Done () t \<and> queue_vas (memory t) [e] = [0x1000]"
  using find_slot_enqueues [OF sample_lists_ok(1), of "0x1000"] sample_lists_ok(3)
  by (auto simp: queue_vas_def page_fuel_def)





end
