(* ===== verification/Vm.thy ===== *)
theory Vm
  imports PageLists
begin

text \<open>
  vm.c without the swapping of pages: segment descriptors, the two-level page tables in byte
  memory, the kernel part of an address space, sharing an address space copy-on-write, tearing
  it down, copying to user addresses, and the write fault on a shared page. A page directory is
  the kernel address of its page. The functions that write user pages to the swap files are in
  the theory Swap.
\<close>

abbreviation (input) "STA_X \<equiv> 0x8 :: uint32"
abbreviation (input) "STA_W \<equiv> 0x2 :: uint32"
abbreviation (input) "STA_R \<equiv> 0x2 :: uint32"
abbreviation (input) "STS_T32A \<equiv> 0x9 :: uint32"
abbreviation (input) "DPL_USER \<equiv> 0x3 :: uint32"
abbreviation (input) "SEG_KCODE \<equiv> 1 :: nat"
abbreviation (input) "SEG_KDATA \<equiv> 2 :: nat"
abbreviation (input) "SEG_UCODE \<equiv> 3 :: nat"
abbreviation (input) "SEG_UDATA \<equiv> 4 :: nat"
abbreviation (input) "SEG_TSS \<equiv> 5 :: nat"
abbreviation (input) "NPDENTRIES \<equiv> 1024 :: nat"

record kvm = kproc +
  kpgdir :: uint32

section \<open>Segments\<close>

definition set_gdt :: "nat \<Rightarrow> nat \<Rightarrow> segdesc \<Rightarrow> (unit, 'a machine_scheme) kop" where
  "set_gdt c i d = kmod (upd_cpu c (\<lambda>cp. cp\<lparr>gdt := (gdt cp)[i := d]\<rparr>))"

definition seginit :: "(unit, 'a machine_scheme) kop" where
  "seginit =
     kbind cpuid (\<lambda>c.
     kseq (set_gdt c SEG_KCODE (SEG (STA_X OR STA_R) 0 0xFFFFFFFF 0)) (
     kseq (set_gdt c SEG_KDATA (SEG STA_W 0 0xFFFFFFFF 0)) (
     kseq (set_gdt c SEG_UCODE (SEG (STA_X OR STA_R) 0 0xFFFFFFFF DPL_USER)) (
     kseq (set_gdt c SEG_UDATA (SEG STA_W 0 0xFFFFFFFF DPL_USER)) (
     kmod (\<lambda>s. s\<lparr>gdtr := Some (c, 48)\<rparr>))))))"

definition lcr3 :: "uint32 \<Rightarrow> (unit, 'a machine_scheme) kop" where
  "lcr3 v = kmod (\<lambda>s. s\<lparr>cr3 := v\<rparr>)"

definition ltr :: "uint32 \<Rightarrow> (unit, 'a machine_scheme) kop" where
  "ltr v = kmod (\<lambda>s. s\<lparr>tr := v\<rparr>)"

definition upd_mycpu :: "(cpu \<Rightarrow> cpu) \<Rightarrow> (unit, 'a machine_scheme) kop" where
  "upd_mycpu f = kbind mycpu (\<lambda>c. kmod (upd_cpu c f))"

section \<open>Page tables\<close>

definition walkpgdir :: "uint32 \<Rightarrow> uint32 \<Rightarrow> bool \<Rightarrow> (uint32, 'a kheap_scheme) kop" where
  "walkpgdir pgd va alloc =
     (let pde = pgd + 4 * PDX va in
     kbind (ld32 pde) (\<lambda>v.
     if v AND PTE_P \<noteq> 0 then kret (P2V (PTE_ADDR v) + 4 * PTX va)
     else if \<not> alloc then kret 0 else
     kbind kalloc (\<lambda>pgtab.
     if pgtab = 0 then kret 0 else
     kseq (upd_memory (\<lambda>m. memset m pgtab 0 PGSIZE)) (
     kseq (st32 pde (V2P pgtab OR PTE_P OR PTE_W OR PTE_U)) (
     kret (pgtab + 4 * PTX va))))))"

fun mappages_loop :: "nat \<Rightarrow> uint32 \<Rightarrow> uint32 \<Rightarrow> uint32 \<Rightarrow> uint32 \<Rightarrow> uint32 \<Rightarrow> (int, 'a kheap_scheme) kop" where
  "mappages_loop 0 pgd a lst pa perm = kspin"
| "mappages_loop (Suc n) pgd a lst pa perm =
     kbind (walkpgdir pgd a True) (\<lambda>pte.
     if pte = 0 then kret (- 1) else
     kbind (ld32 pte) (\<lambda>v.
     if v AND PTE_P \<noteq> 0 then kpanic ''remap'' else
     kseq (st32 pte (pa OR perm OR PTE_P)) (
     if a = lst then kret 0
     else mappages_loop n pgd (a + PGSIZE) lst (pa + PGSIZE) perm)))"

definition mappages :: "uint32 \<Rightarrow> uint32 \<Rightarrow> uint32 \<Rightarrow> uint32 \<Rightarrow> uint32 \<Rightarrow> (int, 'a kheap_scheme) kop" where
  "mappages pgd va len pa perm =
     mappages_loop page_fuel pgd (PGROUNDDOWN va) (PGROUNDDOWN (va + len - 1)) pa perm"

section \<open>Tearing down an address space\<close>

text \<open>The search of \<open>deallocuvm\<close> for the slot of an address, through the slots of one page and then
  through the pages.\<close>

definition slot_of :: "mem \<Rightarrow> uint32 \<Rightarrow> uint32 \<Rightarrow> nat option" where
  "slot_of m page va = find_index (\<lambda>i. load32 m (mp_entry page i) = va) [0..<NUM_MEM_PAGE_ENTRIES]"

fun seek_slot :: "nat \<Rightarrow> uint32 \<Rightarrow> uint32 \<Rightarrow> (uint32, 'a kheap_scheme) kop" where
  "seek_slot 0 curpg va = kspin"
| "seek_slot (Suc n) curpg va =
     (if curpg = 0 then kret 0 else
      kbind (kget (\<lambda>s. slot_of (memory s) curpg va)) (\<lambda>r.
      case r of
        Some i \<Rightarrow> kret (mp_entry curpg i)
      | None \<Rightarrow> kbind (ld32 (curpg + 4)) (\<lambda>pg. seek_slot n pg va)))"

fun seek_before :: "nat \<Rightarrow> uint32 \<Rightarrow> uint32 \<Rightarrow> (uint32, 'a kheap_scheme) kop" where
  "seek_before 0 l slot = kspin"
| "seek_before (Suc n) l slot =
     kbind (pld l 4) (\<lambda>nx. if nx \<noteq> slot then seek_before n nx slot else kret l)"

definition unlink_slot :: "nat \<Rightarrow> uint32 \<Rightarrow> (unit, 'a kproc_scheme) kop" where
  "unlink_slot p slot =
     kseq (pst slot 0 SLOT_USABLE) (
     kbind (get_proc p mem_queue_head) (\<lambda>h.
     kseq (if h = slot then
         kbind (pld slot 4) (\<lambda>nx.
         kseq (kwhen (nx \<noteq> 0) (pst nx 8 0)) (
         upd_proc p (\<lambda>q. q\<lparr>mem_queue_head := nx\<rparr>)))
       else
         kbind (seek_before page_fuel h slot) (\<lambda>l.
         kbind (pld l 4) (\<lambda>nx.
         kbind (pld nx 4) (\<lambda>nn.
         kseq (pst nn 8 l) (
         kbind (pld slot 4) (\<lambda>sn. pst l 4 sn)))))) (
     kseq (pst slot 4 0) (
     kseq (pst slot 8 0) (
     upd_proc p (\<lambda>q. q\<lparr>num_mem_page_entries := num_mem_page_entries q - 1\<rparr>))))))"

definition ventry_of :: "mem \<Rightarrow> uint32 \<Rightarrow> uint32 \<Rightarrow> nat option" where
  "ventry_of m page va = find_index (\<lambda>i. load32 m (vp_entry page i) = va) [0..<NUM_VIRTUAL_PAGE_ENTRIES]"

fun drop_ventry :: "nat \<Rightarrow> uint32 \<Rightarrow> uint32 \<Rightarrow> (unit, 'a kheap_scheme) kop" where
  "drop_ventry 0 curpg va = kspin"
| "drop_ventry (Suc n) curpg va =
     (if curpg = 0 then kpanic ''[ERROR] deallocuvm (entry not found (replace)).'' else
      kbind (kget (\<lambda>s. ventry_of (memory s) curpg va)) (\<lambda>r.
      case r of
        Some i \<Rightarrow> st32 (vp_entry curpg i) SLOT_USABLE
      | None \<Rightarrow> kbind (ld32 (curpg + 4)) (\<lambda>pg. drop_ventry n pg va)))"

fun deallocuvm_loop :: "nat \<Rightarrow> uint32 \<Rightarrow> nat option \<Rightarrow> uint32 \<Rightarrow> uint32 \<Rightarrow> uint32 \<Rightarrow> (uint32, 'a kproc_scheme) kop" where
  "deallocuvm_loop 0 pgd curproc oldsz newsz a = kspin"
| "deallocuvm_loop (Suc n) pgd curproc oldsz newsz a =
     (if \<not> a < oldsz then kret newsz else
      kbind (walkpgdir pgd a False) (\<lambda>pte.
      if pte = 0 then
        deallocuvm_loop n pgd curproc oldsz newsz (PGADDR (PDX a + 1) 0 0 - PGSIZE + PGSIZE)
      else
        kbind (ld32 pte) (\<lambda>v.
        if v AND PTE_P \<noteq> 0 then
          if PTE_ADDR v = 0 then kpanic ''kfree'' else
          (case curproc of None \<Rightarrow> kfault | Some p \<Rightarrow>
          kbind (get_proc p pgdir) (\<lambda>d.
          kseq (kwhen (d = pgd) (
            kbind (get_proc p mem_page_head) (\<lambda>pg.
            kbind (seek_slot page_fuel pg a) (\<lambda>slot.
            kseq (kassert False ''Should have a slot.'') (unlink_slot p slot))))) (
          kseq (kfree (P2V (PTE_ADDR v))) (
          kseq (st32 pte 0) (
          deallocuvm_loop n pgd curproc oldsz newsz (a + PGSIZE))))))
        else if v AND PTE_PG \<noteq> 0 then
          (case curproc of None \<Rightarrow> kfault | Some p \<Rightarrow>
          kbind (get_proc p pgdir) (\<lambda>d.
          if d = pgd then
            kbind (get_proc p virtual_page_head) (\<lambda>pg.
            kseq (drop_ventry page_fuel pg a) (kret newsz))
          else deallocuvm_loop n pgd curproc oldsz newsz (a + PGSIZE)))
        else deallocuvm_loop n pgd curproc oldsz newsz (a + PGSIZE))))"

definition deallocuvm :: "uint32 \<Rightarrow> uint32 \<Rightarrow> uint32 \<Rightarrow> (uint32, 'a kproc_scheme) kop" where
  "deallocuvm pgd oldsz newsz =
     kbind myproc (\<lambda>curproc.
     if newsz \<ge> oldsz then kret oldsz
     else deallocuvm_loop page_fuel pgd curproc oldsz newsz (PGROUNDUP newsz))"

fun free_tables :: "nat \<Rightarrow> nat \<Rightarrow> uint32 \<Rightarrow> (unit, 'a kheap_scheme) kop" where
  "free_tables 0 i pgd = kret ()"
| "free_tables (Suc n) i pgd =
     kbind (ld32 (pgd + 4 * of_nat i)) (\<lambda>v.
     kseq (kwhen (v AND PTE_P \<noteq> 0) (kfree (P2V (PTE_ADDR v)))) (
     free_tables n (Suc i) pgd))"

definition freevm :: "uint32 \<Rightarrow> (unit, 'a kproc_scheme) kop" where
  "freevm pgd =
     (if pgd = 0 then kpanic ''freevm: no pgdir'' else
      kseq (deallocuvm pgd KERNBASE 0) (
      kseq (free_tables NPDENTRIES 0 pgd) (
      kfree pgd)))"

section \<open>The kernel part of an address space\<close>

definition kmap :: "uint32 \<Rightarrow> (uint32 \<times> uint32 \<times> uint32 \<times> uint32) list" where
  "kmap data =
     [(KERNBASE, 0, EXTMEM, PTE_W),
      (KERNLINK, V2P KERNLINK, V2P data, 0),
      (data, V2P data, PHYSTOP, PTE_W),
      (DEVSPACE, DEVSPACE, 0, PTE_W)]"

fun map_kernel :: "uint32 \<Rightarrow> (uint32 \<times> uint32 \<times> uint32 \<times> uint32) list \<Rightarrow> (uint32, 'a kproc_scheme) kop" where
  "map_kernel pgd [] = kret pgd"
| "map_kernel pgd ((virt, phys_start, phys_end, perm) # ks) =
     kbind (mappages pgd virt (phys_end - phys_start) phys_start perm) (\<lambda>r.
     if r < 0 then kseq (freevm pgd) (kret 0) else map_kernel pgd ks)"

definition setupkvm :: "(uint32, 'a kproc_scheme) kop" where
  "setupkvm =
     kbind kalloc (\<lambda>pgd.
     if pgd = 0 then kret 0 else
     kseq (upd_memory (\<lambda>m. memset m pgd 0 PGSIZE)) (
     if P2V PHYSTOP > DEVSPACE then kpanic ''PHYSTOP too high'' else
     kbind (kget kdata) (\<lambda>data. map_kernel pgd (kmap data))))"

definition switchkvm :: "(unit, 'a kvm_scheme) kop" where
  "switchkvm = kbind (kget kpgdir) (\<lambda>d. lcr3 (V2P d))"

definition kvmalloc :: "(unit, 'a kvm_scheme) kop" where
  "kvmalloc = kbind setupkvm (\<lambda>d. kseq (kmod (\<lambda>s. s\<lparr>kpgdir := d\<rparr>)) switchkvm)"

definition switchuvm :: "nat option \<Rightarrow> (unit, 'a kproc_scheme) kop" where
  "switchuvm po =
     (case po of None \<Rightarrow> kpanic ''switchuvm: no process'' | Some p \<Rightarrow>
     kbind (get_proc p kstack) (\<lambda>ks.
     if ks = 0 then kpanic ''switchuvm: no kstack'' else
     kbind (get_proc p pgdir) (\<lambda>d.
     if d = 0 then kpanic ''switchuvm: no pgdir'' else
     kseq pushcli (
     kseq (upd_mycpu (\<lambda>c. c\<lparr>gdt := (gdt c)[SEG_TSS := SEG16 STS_T32A (ts_addr c) 103 0]\<rparr>)) (
     kseq (upd_mycpu (\<lambda>c. c\<lparr>gdt := (gdt c)[SEG_TSS := (gdt c ! SEG_TSS)\<lparr>sd_s := 0\<rparr>]\<rparr>)) (
     kseq (upd_mycpu (\<lambda>c. c\<lparr>ts := (ts c)\<lparr>ss0 := 16\<rparr>\<rparr>)) (
     kseq (upd_mycpu (\<lambda>c. c\<lparr>ts := (ts c)\<lparr>esp0 := ks + KSTACKSIZE\<rparr>\<rparr>)) (
     kseq (upd_mycpu (\<lambda>c. c\<lparr>ts := (ts c)\<lparr>iomb := 0xFFFF\<rparr>\<rparr>)) (
     kseq (ltr 40) (
     kseq (lcr3 (V2P d)) popcli))))))))))"

section \<open>User memory\<close>

definition inituvm :: "uint32 \<Rightarrow> uint8 list \<Rightarrow> (unit, 'a kheap_scheme) kop" where
  "inituvm pgd init =
     (if 4096 \<le> length init then kpanic ''inituvm: more than a page'' else
      kbind kalloc (\<lambda>mem.
      if mem = 0 then kfault else
      kseq (upd_memory (\<lambda>m. memset m mem 0 PGSIZE)) (
      kseq (mappages pgd 0 PGSIZE (V2P mem) (PTE_W OR PTE_U)) (
      upd_memory (\<lambda>m. store_bytes m mem init)))))"

definition clearpteu :: "uint32 \<Rightarrow> uint32 \<Rightarrow> (unit, 'a kheap_scheme) kop" where
  "clearpteu pgd uva =
     kbind (walkpgdir pgd uva False) (\<lambda>pte.
     if pte = 0 then kpanic ''clearpteu'' else
     kbind (ld32 pte) (\<lambda>v. st32 pte (v AND NOT PTE_U)))"

text \<open>\<open>share_page\<close> is the common tail of the two loops of \<open>copyuvm\<close>: it write-protects the entry of the
  parent, maps the frame in the child and counts the new share.\<close>

definition share_page :: "uint32 \<Rightarrow> uint32 \<Rightarrow> uint32 \<Rightarrow> (bool, 'a kheap_scheme) kop" where
  "share_page d pte i =
     kbind (ld32 pte) (\<lambda>v.
     kseq (st32 pte (v AND NOT PTE_W)) (
     kbind (ld32 pte) (\<lambda>v.
     kbind (mappages d i PGSIZE (PTE_ADDR v) (PTE_FLAGS v)) (\<lambda>r.
     if r < 0 then kret False else
     kseq (add_page_share (PTE_ADDR v)) (kret True)))))"

fun copyuvm_text :: "nat \<Rightarrow> uint32 \<Rightarrow> uint32 \<Rightarrow> uint32 \<Rightarrow> uint32 \<Rightarrow> (bool, 'a kheap_scheme) kop" where
  "copyuvm_text 0 pgd d psz i = kspin"
| "copyuvm_text (Suc n) pgd d psz i =
     (if \<not> i < psz then kret True else
      kbind (walkpgdir pgd i False) (\<lambda>pte.
      if pte = 0 then kpanic ''copyuvm: pte should exist'' else
      kbind (ld32 pte) (\<lambda>v.
      if v AND PTE_P = 0 then kpanic ''copyuvm: page not present'' else
      kbind (share_page d pte i) (\<lambda>ok.
      if \<not> ok then kret False else copyuvm_text n pgd d psz (i + PGSIZE)))))"

fun copyuvm_stack :: "nat \<Rightarrow> uint32 \<Rightarrow> uint32 \<Rightarrow> uint32 \<Rightarrow> (bool, 'a kheap_scheme) kop" where
  "copyuvm_stack 0 pgd d i = kspin"
| "copyuvm_stack (Suc n) pgd d i =
     (if \<not> i < USERSTACKTOP then kret True else
      kbind (walkpgdir pgd i False) (\<lambda>pte.
      if pte = 0 then kpanic ''copyuvm: pte should exist'' else
      kbind (ld32 pte) (\<lambda>v.
      if v AND PTE_P = 0 \<and> v AND PTE_PG = 0 then copyuvm_stack n pgd d (i + PGSIZE) else
      if v AND PTE_PG \<noteq> 0 then
        kbind (walkpgdir d i True) (\<lambda>pte.
        kseq (pst pte 0 (PTE_U OR PTE_W OR PTE_PG)) (copyuvm_stack n pgd d (i + PGSIZE)))
      else
      kbind (share_page d pte i) (\<lambda>ok.
      if \<not> ok then kret False else copyuvm_stack n pgd d (i + PGSIZE)))))"

definition copyuvm :: "uint32 \<Rightarrow> uint32 \<Rightarrow> (uint32, 'a kproc_scheme) kop" where
  "copyuvm pgd psz =
     kbind setupkvm (\<lambda>d.
     if d = 0 then kret 0 else
     let bad = kseq (freevm d) (kseq (lcr3 (V2P pgd)) (kret 0)) in
     kbind (copyuvm_text page_fuel pgd d psz PGSIZE) (\<lambda>ok.
     if \<not> ok then bad else
     with_proc (\<lambda>p.
     kbind (get_proc p stacksize) (\<lambda>ss.
     kbind (copyuvm_stack page_fuel pgd d (USERSTACKTOP - ss)) (\<lambda>ok.
     if \<not> ok then bad else
     kseq (lcr3 (V2P pgd)) (kret d))))))"

definition uva2ka :: "uint32 \<Rightarrow> uint32 \<Rightarrow> (uint32, 'a kheap_scheme) kop" where
  "uva2ka pgd uva =
     kbind (walkpgdir pgd uva False) (\<lambda>pte.
     kbind (pld pte 0) (\<lambda>v.
     if v AND PTE_P = 0 then kret 0 else
     if v AND PTE_U = 0 then kret 0 else
     kret (P2V (PTE_ADDR v))))"

text \<open>The bytes are the contents of the buffer \<open>p\<close>, of length \<open>len\<close>.\<close>

function copyout :: "uint32 \<Rightarrow> uint32 \<Rightarrow> uint8 list \<Rightarrow> (int, 'a kheap_scheme) kop" where
  "copyout pgd va buf =
     (if buf = [] then kret 0 else
      let va0 = PGROUNDDOWN va in
      kbind (uva2ka pgd va0) (\<lambda>pa0.
      if pa0 = 0 then kret (- 1) else
      let n = min (4096 - unat (va - va0)) (length buf) in
      kseq (upd_memory (\<lambda>m. store_bytes m (pa0 + (va - va0)) (take n buf))) (
      copyout pgd (va0 + PGSIZE) (drop n buf))))"
  by pat_completeness auto

lemma page_offset_less: "unat (va - PGROUNDDOWN va) < 4096"
  using in_page_iff [of "PGROUNDDOWN va" va] by (simp add: in_range_def)

termination copyout
  by (relation "measure (\<lambda>(_, _, buf). length buf)") (use page_offset_less in \<open>auto simp: min_def\<close>)

text \<open>A write to a page that is present and not writable: the end of \<open>cast_page_fault\<close>.\<close>

definition write_fault :: "nat \<Rightarrow> uint32 \<Rightarrow> (unit, 'a kproc_scheme) kop" where
  "write_fault p va =
     (let die = upd_proc p (\<lambda>q. q\<lparr>killed := 1\<rparr>) in
     if va \<ge> KERNBASE then die else
     kbind (get_proc p pgdir) (\<lambda>d.
     kbind (walkpgdir d va False) (\<lambda>pte.
     if pte = 0 then die else
     kbind (ld32 pte) (\<lambda>v.
     if v AND PTE_P = 0 then die else
     if v AND PTE_U = 0 then die else
     if v AND PTE_W \<noteq> 0 then kpanic ''page fault. Unknown page fault due to a writable pte.'' else
     let pa = PTE_ADDR v in
     kbind (get_page_share pa) (\<lambda>ref.
     if ref = 1 then st32 pte (v OR PTE_W)
     else if ref > 1 then
       kbind kalloc (\<lambda>mem.
       if mem = 0 then die else
       kseq (upd_memory (\<lambda>m. memmove m mem (P2V pa) PGSIZE)) (
       kseq (st32 pte (V2P mem OR PTE_P OR PTE_U OR PTE_W)) (
       red_page_share pa)))
     else kpanic ''page fault. Wrong share count error.'')))))"

end
