(* ===== verification/PageTable.thy ===== *)
theory PageTable
  imports Vm
begin

text \<open>Page tables as functions from addresses to entries: what \<open>walkpgdir\<close> finds and creates, what a
  store to an entry changes, and \<open>mappages\<close> on a range of pages. The interface \<open>page_mapper\<close> says
  what a routine that maps ranges promises; \<open>mappages\<close> is interpreted in it.\<close>

declare copyout.simps [simp del]

section \<open>Words of a table\<close>

lemma unat_PDX: "unat (PDX va) < 1024"
  unfolding PDX_def and_mask10 using unat_take_bit_less [of 10 "drop_bit 22 va"] by simp

lemma unat_PTX: "unat (PTX va) < 1024"
  unfolding PTX_eq using unat_take_bit_less [of 10 "drop_bit 12 va"] by simp

lemma unat_index4: "unat (i :: uint32) < 1024 \<Longrightarrow> unat (4 * i) = 4 * unat i"
  by (simp add: unat_word_ariths)

lemma aligned_index4: "unat (i :: uint32) < 1024 \<Longrightarrow> aligned 2 (4 * i)"
  by (simp add: aligned_iff_dvd unat_index4)

lemma table_word_eq:
  assumes "aligned 12 p" "aligned 12 q" "unat i < 1024" "unat j < 1024"
  shows "p + 4 * i = q + 4 * j \<longleftrightarrow> p = q \<and> i = j"
proof -
  have "4 * i = 4 * j \<longleftrightarrow> i = j" using assms(3,4) by (auto simp: word_unat_eq_iff unat_index4)
  then show ?thesis using aligned_add_eq_iff [OF assms(1,2), of "4 * i" "4 * j"] assms(3,4) by (simp add: unat_index4)
qed

lemma load32_table:
  assumes "aligned 12 p" "aligned 12 q" "unat i < 1024" "unat j < 1024"
  shows "load32 (store32 m (p + 4 * i) v) (q + 4 * j) = (if p = q \<and> i = j then v else load32 m (q + 4 * j))"
proof -
  have "aligned 2 (p + 4 * i)" "aligned 2 (q + 4 * j)"
    using aligned_plus [OF aligned_mono [OF assms(1)] aligned_index4 [OF assms(3)]]
      aligned_plus [OF aligned_mono [OF assms(2)] aligned_index4 [OF assms(4)]] by simp_all
  then show ?thesis using table_word_eq [OF assms] by (auto simp: load32_store32_aligned)
qed

lemma load32_zero_page:
  assumes "aligned 12 p" "unat j < 1024"
  shows "load32 (mem_fill m p 4096 0) (p + 4 * j) = 0"
proof -
  have "load32 (mem_fill m p 4096 0) (p + 4 * j) = load32 (\<lambda>_. 0) (p + 4 * j)"
    by (rule load32_page_cong) (use assms in \<open>auto simp: unat_index4 mem_fill_apply\<close>)
  then show ?thesis by (simp add: load32_def)
qed

lemma load32_other_page:
  assumes "changes_only P m m'" "aligned 12 q" "q \<notin> P" "unat j < 1024"
  shows "load32 m' (q + 4 * j) = load32 m (q + 4 * j)"
  using assms by (intro changes_only_load32 [OF assms(1)]) (auto simp: unat_index4)

section \<open>Address spaces\<close>

definition pde_of :: "mem \<Rightarrow> uint32 \<Rightarrow> uint32 \<Rightarrow> uint32" where
  "pde_of m d va = load32 m (d + 4 * PDX va)"

definition has_table :: "mem \<Rightarrow> uint32 \<Rightarrow> uint32 \<Rightarrow> bool" where
  "has_table m d va \<longleftrightarrow> pde_of m d va AND PTE_P \<noteq> 0"

definition table_of :: "mem \<Rightarrow> uint32 \<Rightarrow> uint32 \<Rightarrow> uint32" where
  "table_of m d va = P2V (PTE_ADDR (pde_of m d va))"

text \<open>The page-table entry that translates an address, 0 where there is no table.\<close>

definition pte_of :: "mem \<Rightarrow> uint32 \<Rightarrow> uint32 \<Rightarrow> uint32" where
  "pte_of m d va = (if has_table m d va then load32 m (table_of m d va + 4 * PTX va) else 0)"

definition pt_pages :: "mem \<Rightarrow> uint32 \<Rightarrow> uint32 set" where
  "pt_pages m d = insert d (table_of m d ` {va. has_table m d va})"

text \<open>A directory is well formed when its tables are pages different from it and from each other.\<close>

definition pt_wf :: "mem \<Rightarrow> uint32 \<Rightarrow> bool" where
  "pt_wf m d \<longleftrightarrow> aligned 12 d \<and> (\<forall>va. has_table m d va \<longrightarrow> table_of m d va \<noteq> d \<and> table_of m d va \<noteq> 0)
     \<and> (\<forall>va vb. has_table m d va \<and> has_table m d vb \<and> table_of m d va = table_of m d vb \<longrightarrow> PDX va = PDX vb)"

definition pt_ok :: "'a kheap_scheme \<Rightarrow> uint32 \<Rightarrow> bool" where
  "pt_ok s d \<longleftrightarrow> pt_wf (memory s) d \<and> (\<forall>p \<in> pt_pages (memory s) d. p \<notin> set (free_pages s) \<and> valid_page s p)"

lemma pt_wfD:
  assumes "pt_wf m d"
  shows "aligned 12 d" "has_table m d va \<Longrightarrow> table_of m d va \<noteq> d" "has_table m d va \<Longrightarrow> table_of m d va \<noteq> 0"
    "has_table m d va \<Longrightarrow> has_table m d vb \<Longrightarrow> table_of m d va = table_of m d vb \<Longrightarrow> PDX va = PDX vb"
  using assms unfolding pt_wf_def by blast+

lemma table_aligned [simp]: "aligned 12 (table_of m d va)"
  by (simp add: table_of_def aligned_P2V)

lemma pt_pages_aligned: "pt_wf m d \<Longrightarrow> p \<in> pt_pages m d \<Longrightarrow> aligned 12 p"
  by (auto simp: pt_wf_def pt_pages_def)

lemma table_in_pages: "has_table m d va \<Longrightarrow> table_of m d va \<in> pt_pages m d"
  by (auto simp: pt_pages_def)

lemma dir_in_pages [simp]: "d \<in> pt_pages m d"
  by (simp add: pt_pages_def)

lemma dir_cong:
  assumes "PDX va = PDX vb"
  shows "pde_of m d va = pde_of m d vb" "has_table m d va = has_table m d vb" "table_of m d va = table_of m d vb"
  using assms by (simp_all add: pde_of_def has_table_def table_of_def)

lemma page_index_eq: "PGROUNDDOWN va = PGROUNDDOWN vb \<longleftrightarrow> PDX va = PDX vb \<and> PTX va = PTX vb"
proof
  assume "PGROUNDDOWN va = PGROUNDDOWN vb"
  then have "drop_bit 12 (push_bit 12 (drop_bit 12 va)) = drop_bit 12 (push_bit 12 (drop_bit 12 vb))"
    by (simp add: PGROUNDDOWN_eq)
  moreover have "drop_bit 12 (push_bit 12 (drop_bit 12 x)) = drop_bit 12 x" for x :: uint32
    by (rule bit_word_eqI) (auto simp: bit_simps dest: bit_imp_le_length)
  ultimately have "drop_bit 12 va = drop_bit 12 vb" by simp
  then show "PDX va = PDX vb \<and> PTX va = PTX vb" 
    unfolding PDX_eq PTX_eq using drop_bit_drop_bit [of 10 12 va] drop_bit_drop_bit [of 10 12 vb] by simp
next
  assume "PDX va = PDX vb \<and> PTX va = PTX vb"
  then have eq: "drop_bit 22 va = drop_bit 22 vb" "take_bit 10 (drop_bit 12 va) = take_bit 10 (drop_bit 12 vb)"
    by (simp_all add: PDX_eq PTX_eq)
  have "drop_bit 12 va = drop_bit 12 vb"
  proof -
    have "drop_bit 12 x = push_bit 10 (drop_bit 22 x) + take_bit 10 (drop_bit 12 x)" for x :: uint32
      using bits_ident [of 10 "drop_bit 12 x"] by (simp add: drop_bit_drop_bit)
    then show ?thesis using eq by metis
  qed
  then show "PGROUNDDOWN va = PGROUNDDOWN vb" by (simp add: PGROUNDDOWN_eq)
qed

text \<open>An address space keeps its translation when only other pages are written.\<close>

lemma pt_frame:
  assumes "changes_only P m m'" "pt_wf m d" "pt_pages m d \<inter> P = {}"
  shows "pde_of m' d va = pde_of m d va" "has_table m' d va = has_table m d va" "table_of m' d va = table_of m d va"
    "pte_of m' d va = pte_of m d va"
proof -
  have pde: "pde_of m' d vb = pde_of m d vb" for vb
    unfolding pde_of_def using assms by (intro load32_other_page [OF assms(1)]) (auto simp: pt_wf_def pt_pages_def unat_PDX)
  show "pde_of m' d va = pde_of m d va" by (rule pde)
  have h: "has_table m' d va = has_table m d va" by (simp add: has_table_def pde)
  have t: "table_of m' d va = table_of m d va" by (simp add: table_of_def pde)
  show "has_table m' d va = has_table m d va" "table_of m' d va = table_of m d va" by (fact h t)+
  show "pte_of m' d va = pte_of m d va"
  proof (cases "has_table m d va")
    case True
    then have "table_of m d va \<notin> P" using assms(3) table_in_pages [of m d va] by blast
    then show ?thesis using load32_other_page [OF assms(1) table_aligned, of m d va "PTX va"]
      by (simp add: pte_of_def h t unat_PTX)
  qed (simp add: pte_of_def h)
qed

lemma pt_wf_frame:
  assumes "changes_only P m m'" "pt_wf m d" "pt_pages m d \<inter> P = {}"
  shows "pt_wf m' d" "pt_pages m' d = pt_pages m d"
  using assms(2) pt_frame [OF assms] by (simp_all add: pt_wf_def pt_pages_def)

lemma pt_ok_frame:
  assumes "pt_ok s d" "changes_only P (memory s) (memory t)" "pt_pages (memory s) d \<inter> P = {}" "same_machine s t"
    "set (free_pages t) \<subseteq> set (free_pages s)"
  shows "pt_ok t d"
  using assms pt_wf_frame [OF assms(2) _ assms(3)] by (auto simp: pt_ok_def same_machine_valid)

section \<open>Writing one entry\<close>

definition pte_addr :: "mem \<Rightarrow> uint32 \<Rightarrow> uint32 \<Rightarrow> uint32" where
  "pte_addr m d va = table_of m d va + 4 * PTX va"

lemma set_pte:
  fixes v :: uint32
  assumes "pt_wf m d" "has_table m d va"
  defines "m' \<equiv> store32 m (pte_addr m d va) v"
  shows "pde_of m' d vb = pde_of m d vb" "has_table m' d vb = has_table m d vb" "table_of m' d vb = table_of m d vb"
    "pte_of m' d vb = (if PGROUNDDOWN vb = PGROUNDDOWN va then v else pte_of m d vb)"
    "pt_wf m' d" "pt_pages m' d = pt_pages m d" "changes_only {table_of m d va} m m'"
proof -
  have d: "aligned 12 d" "table_of m d va \<noteq> d" using assms by (auto simp: pt_wf_def)
  have pde: "pde_of m' d x = pde_of m d x" for x
    unfolding pde_of_def m'_def pte_addr_def using d
    by (subst load32_table [OF table_aligned d(1) unat_PTX unat_PDX]) auto
  have h: "has_table m' d x = has_table m d x" and t: "table_of m' d x = table_of m d x" for x
    by (simp_all add: has_table_def table_of_def pde)
  show "pde_of m' d vb = pde_of m d vb" "has_table m' d vb = has_table m d vb" "table_of m' d vb = table_of m d vb"
    by (fact pde h t)+
  show "pt_wf m' d" "pt_pages m' d = pt_pages m d" using assms(1) by (simp_all add: pt_wf_def pt_pages_def h t)
  show "changes_only {table_of m d va} m m'"
    unfolding m'_def pte_addr_def using unat_PTX [of va] by (intro changes_only_store32) (simp_all add: unat_index4)
  show "pte_of m' d vb = (if PGROUNDDOWN vb = PGROUNDDOWN va then v else pte_of m d vb)"
  proof (cases "has_table m d vb")
    case True
    have "PDX va = PDX vb" if "table_of m d va = table_of m d vb"
      using assms(1,2) True that unfolding pt_wf_def by blast
    then have "table_of m d va = table_of m d vb \<and> PTX va = PTX vb \<longleftrightarrow> PGROUNDDOWN vb = PGROUNDDOWN va"
      by (metis page_index_eq dir_cong(3))
    moreover have "pte_of m' d vb = load32 m' (table_of m d vb + 4 * PTX vb)"
      using True by (simp add: pte_of_def h t)
    moreover have "load32 m' (table_of m d vb + 4 * PTX vb) =
        (if table_of m d va = table_of m d vb \<and> PTX va = PTX vb then v else load32 m (table_of m d vb + 4 * PTX vb))"
      unfolding m'_def pte_addr_def by (rule load32_table [OF table_aligned table_aligned unat_PTX unat_PTX])
    ultimately show ?thesis using True by (simp add: pte_of_def)
  next
    case False
    then have "PGROUNDDOWN vb \<noteq> PGROUNDDOWN va" using assms(2) dir_cong(2) [of vb va m d] by (auto simp: page_index_eq)
    then show ?thesis using False by (simp add: pte_of_def h)
  qed
qed

section \<open>Walking\<close>

lemma walk_found:
  assumes "has_table (memory s) d va"
  shows "walkpgdir d va al s = Done (pte_addr (memory s) d va) s"
  using assms by (simp add: walkpgdir_def Let_def kmonad ld32_def has_table_def pde_of_def table_of_def pte_addr_def)

lemma walk_missing:
  assumes "\<not> has_table (memory s) d va"
  shows "walkpgdir d va False s = Done 0 s"
  using assms by (simp add: walkpgdir_def Let_def kmonad ld32_def has_table_def pde_of_def)

lemma pte_addr_nonzero:
  assumes "pt_wf m d" "has_table m d va"
  shows "pte_addr m d va \<noteq> 0"
proof
  assume "pte_addr m d va = 0"
  then have "table_of m d va + 4 * PTX va = 0 + 4 * 0" by (simp add: pte_addr_def)
  then have "table_of m d va = 0" using table_word_eq [OF table_aligned _ unat_PTX, of 0 0 m d va va] by simp
  then show False using assms by (simp add: pt_wf_def)
qed

text \<open>The memory after a new, empty table has been entered in a directory.\<close>

definition new_table :: "mem \<Rightarrow> uint32 \<Rightarrow> uint32 \<Rightarrow> uint32 \<Rightarrow> mem" where
  "new_table m d va p = store32 (mem_fill m p 4096 0) (d + 4 * PDX va) (V2P p OR PTE_P OR PTE_W OR PTE_U)"

lemma new_entry_bits:
  assumes "aligned 12 a"
  shows "(a OR PTE_P OR PTE_W OR PTE_U) AND PTE_P \<noteq> 0" "PTE_ADDR (a OR PTE_P OR PTE_W OR PTE_U) = a"
proof -
  have "bit (a OR 7) 0" by (simp add: bit_simps)
  then have "bit ((a OR 7) AND 1) 0" by (simp add: bit_simps)
  then show "(a OR PTE_P OR PTE_W OR PTE_U) AND PTE_P \<noteq> 0" by auto
  show "PTE_ADDR (a OR PTE_P OR PTE_W OR PTE_U) = a" using PTE_ADDR_or [OF assms, of 7] by simp
qed

lemma new_table_props:
  assumes "pt_wf m d" "\<not> has_table m d va" "aligned 12 p" "p \<notin> pt_pages m d" "p \<noteq> 0"
  defines "m' \<equiv> new_table m d va p"
  shows "has_table m' d vb \<longleftrightarrow> has_table m d vb \<or> PDX vb = PDX va"
    "table_of m' d vb = (if PDX vb = PDX va then p else table_of m d vb)"
    "pte_of m' d vb = pte_of m d vb" "pt_wf m' d" "pt_pages m' d = insert p (pt_pages m d)"
    "changes_only {d, p} m m'"
proof -
  have d: "aligned 12 d" "p \<noteq> d" using assms by (auto simp: pt_wf_def pt_pages_def)
  let ?e = "V2P p OR PTE_P OR PTE_W OR PTE_U"
  note bits = new_entry_bits [OF aligned_V2P [OF assms(3)]]
  show co: "changes_only {d, p} m m'"
    unfolding m'_def new_table_def using changes_only_fill [OF assms(3), of "{d, p}" m 0] unat_PDX [of va]
    by (intro changes_only_step [OF _ changes_only_store32 [OF d(1)]]) (simp_all add: unat_index4)
  have fill: "load32 (mem_fill m p 4096 0) (q + 4 * j) = load32 m (q + 4 * j)" if "aligned 12 q" "q \<noteq> p" "unat j < 1024" for q j
    using that assms(3) by (intro load32_fill_page) (auto simp: unat_index4)
  have pde: "pde_of m' d x = (if PDX x = PDX va then ?e else pde_of m d x)" for x
    unfolding pde_of_def m'_def new_table_def load32_table [OF d(1) d(1) unat_PDX unat_PDX]
    using fill [OF d(1) _ unat_PDX] d(2) by auto
  have h: "has_table m' d x \<longleftrightarrow> has_table m d x \<or> PDX x = PDX va" for x
    unfolding has_table_def pde using bits(1) by auto
  have t: "table_of m' d x = (if PDX x = PDX va then p else table_of m d x)" for x
    by (cases "PDX x = PDX va") (simp_all only: table_of_def pde bits(2) if_True if_False P2V_V2P simp_thms)
  show "has_table m' d vb \<longleftrightarrow> has_table m d vb \<or> PDX vb = PDX va"
    "table_of m' d vb = (if PDX vb = PDX va then p else table_of m d vb)" by (fact h t)+
  have none: "\<not> has_table m d x" if "PDX x = PDX va" for x using dir_cong(2) [OF that] assms(2) by simp
  have ne: "table_of m d x \<noteq> p" if "has_table m d x" for x using table_in_pages [OF that] assms(4) by auto
  show "pte_of m' d vb = pte_of m d vb"
  proof (cases "PDX vb = PDX va")
    case True
    then have "pte_of m' d vb = load32 m' (p + 4 * PTX vb)" by (simp add: pte_of_def h t)
    also have "\<dots> = 0" unfolding m'_def new_table_def load32_table [OF d(1) assms(3) unat_PDX unat_PTX]
      using d(2) load32_zero_page [OF assms(3) unat_PTX] by simp
    finally show ?thesis using none [OF True] by (simp add: pte_of_def)
  next
    case False
    show ?thesis
    proof (cases "has_table m d vb")
      case True
      then have "table_of m d vb \<notin> {d, p}" using ne assms(1) by (auto simp: pt_wf_def)
      then show ?thesis
        using load32_other_page [OF co table_aligned _ unat_PTX, of m d vb vb] False by (simp add: pte_of_def h t)
    qed (use False in \<open>simp add: pte_of_def h\<close>)
  qed
  have old: "has_table m d x" if "has_table m' d x" "PDX x \<noteq> PDX va" for x using that h by blast
  have "table_of m' d x \<noteq> d \<and> table_of m' d x \<noteq> 0" if "has_table m' d x" for x
    using old [OF that] pt_wfD(2,3) [OF assms(1), of x] d(2) assms(5) by (simp add: t)
  moreover have "PDX x = PDX y" if "has_table m' d x" "has_table m' d y" "table_of m' d x = table_of m' d y" for x y
    using old [OF that(1)] old [OF that(2)] that(3) ne [of x] ne [of y] pt_wfD(4) [OF assms(1), of x y]
    by (cases "PDX x = PDX va"; cases "PDX y = PDX va"; simp add: t; metis)
  ultimately show "pt_wf m' d" unfolding pt_wf_def using d(1) by blast
  show "pt_pages m' d = insert p (pt_pages m d)"
    unfolding pt_pages_def using none by (auto simp: h t image_iff)
qed

section \<open>Growing an address space\<close>

text \<open>\<open>pt_extends d s t\<close>: from \<open>s\<close> to \<open>t\<close> only pages of the address space \<open>d\<close> were written, and those it
  has gained were the first pages of the free list.\<close>

definition pt_extends :: "uint32 \<Rightarrow> 'a kheap_scheme \<Rightarrow> 'a kheap_scheme \<Rightarrow> bool" where
  "pt_extends d s t \<longleftrightarrow> kmem_inv t \<and> pt_ok t d \<and> same_machine s t \<and>
     (\<exists>ps. free_pages s = ps @ free_pages t \<and> pt_pages (memory t) d = pt_pages (memory s) d \<union> set ps
        \<and> changes_only (pt_pages (memory t) d) (memory s) (memory t)
        \<and> snd (pool t) = (\<lambda>v. if v \<in> set ps then 1 else snd (pool s) v))"

lemma pt_extends_refl: "kmem_inv s \<Longrightarrow> pt_ok s d \<Longrightarrow> pt_extends d s s"
  by (simp add: pt_extends_def)

lemma pt_extends_trans:
  assumes "pt_extends d s t" "pt_extends d t u" shows "pt_extends d s u"
proof -
  obtain ps where ps: "free_pages s = ps @ free_pages t" "pt_pages (memory t) d = pt_pages (memory s) d \<union> set ps"
      "changes_only (pt_pages (memory t) d) (memory s) (memory t)" "snd (pool t) = (\<lambda>v. if v \<in> set ps then 1 else snd (pool s) v)"
    using assms(1) by (auto simp: pt_extends_def)
  obtain qs where qs: "free_pages t = qs @ free_pages u" "pt_pages (memory u) d = pt_pages (memory t) d \<union> set qs"
      "changes_only (pt_pages (memory u) d) (memory t) (memory u)" "snd (pool u) = (\<lambda>v. if v \<in> set qs then 1 else snd (pool t) v)"
    using assms(2) by (auto simp: pt_extends_def)
  have "changes_only (pt_pages (memory u) d) (memory s) (memory t)"
    by (rule changes_only_mono [OF ps(3)]) (simp add: qs(2))
  then have "changes_only (pt_pages (memory u) d) (memory s) (memory u)" using changes_only_step qs(3) by blast
  moreover have "snd (pool u) = (\<lambda>v. if v \<in> set (ps @ qs) then 1 else snd (pool s) v)"
    unfolding qs(4) ps(4) by auto
  ultimately show ?thesis
    using assms ps(1,2) qs(1,2) same_machine_trans unfolding pt_extends_def
    by (intro conjI exI [of _ "ps @ qs"]) (auto intro: same_machine_trans)
qed

lemma pt_extendsD:
  assumes "pt_extends d s t"
  shows "kmem_inv t" "pt_ok t d" "same_machine s t" "set (free_pages t) \<subseteq> set (free_pages s)"
    "changes_only (pt_pages (memory s) d \<union> set (free_pages s)) (memory s) (memory t)"
proof -
  obtain ps where ps: "free_pages s = ps @ free_pages t" "pt_pages (memory t) d = pt_pages (memory s) d \<union> set ps"
      "changes_only (pt_pages (memory t) d) (memory s) (memory t)"
    using assms by (auto simp: pt_extends_def)
  show "changes_only (pt_pages (memory s) d \<union> set (free_pages s)) (memory s) (memory t)"
    by (rule changes_only_mono [OF ps(3)]) (auto simp: ps)
  show "set (free_pages t) \<subseteq> set (free_pages s)" by (simp add: ps)
qed (use assms in \<open>auto simp: pt_extends_def\<close>)

text \<open>Another address space does not notice.\<close>

lemma pt_extends_other:
  assumes "pt_extends d s t" "pt_ok s e" "pt_pages (memory s) d \<inter> pt_pages (memory s) e = {}"
  shows "pte_of (memory t) e va = pte_of (memory s) e va" "has_table (memory t) e va = has_table (memory s) e va"
    "table_of (memory t) e va = table_of (memory s) e va"
    "pt_ok t e" "pt_pages (memory t) e = pt_pages (memory s) e" "pt_pages (memory t) d \<inter> pt_pages (memory t) e = {}"
proof -
  note x = pt_extendsD [OF assms(1)]
  have wf: "pt_wf (memory s) e" and dis: "pt_pages (memory s) e \<inter> (pt_pages (memory s) d \<union> set (free_pages s)) = {}"
    using assms(2,3) by (auto simp: pt_ok_def)
  note fr = pt_frame [OF x(5) wf dis] and fw = pt_wf_frame [OF x(5) wf dis]
  show "pte_of (memory t) e va = pte_of (memory s) e va" "has_table (memory t) e va = has_table (memory s) e va"
    "table_of (memory t) e va = table_of (memory s) e va" "pt_pages (memory t) e = pt_pages (memory s) e" by (fact fr fw)+
  show "pt_ok t e" using pt_ok_frame [OF assms(2) x(5) dis x(3,4)] .
  obtain ps where "free_pages s = ps @ free_pages t" "pt_pages (memory t) d = pt_pages (memory s) d \<union> set ps"
    using assms(1) by (auto simp: pt_extends_def)
  then show "pt_pages (memory t) d \<inter> pt_pages (memory t) e = {}" using fw(2) dis by auto
qed

lemma pt_extends_set_pte:
  assumes "kmem_inv s" "pt_ok s d" "has_table (memory s) d va"
  shows "pt_extends d s (s\<lparr>memory := store32 (memory s) (pte_addr (memory s) d va) v\<rparr>)"
proof -
  let ?t = "s\<lparr>memory := store32 (memory s) (pte_addr (memory s) d va) v\<rparr>"
  have wf: "pt_wf (memory s) d" using assms(2) by (simp add: pt_ok_def)
  note sp = set_pte [OF wf assms(3), of v]
  have "{table_of (memory s) d va} \<inter> set (free_pages s) = {}"
    using assms(2) table_in_pages [OF assms(3)] by (auto simp: pt_ok_def)
  note km = kmem_inv_memory [OF assms(1) sp(7) this]
  have "pt_ok ?t d"
    using assms(2) sp(5,6) km(3) by (simp add: pt_ok_def) (metis same_machine_memory same_machine_valid)
  moreover have "changes_only (pt_pages (memory s) d) (memory s) (memory ?t)"
    using changes_only_mono [OF sp(7)] table_in_pages [OF assms(3)] by simp
  ultimately show ?thesis
    unfolding pt_extends_def using km sp(6) by (intro conjI exI [of _ "[]"]) (auto simp: same_machine_memory)
qed

lemma pt_extends_new_table:
  assumes "kmem_inv s" "pt_ok s d" "\<not> has_table (memory s) d va" "free_pages s = p # ps"
  shows "\<exists>t. walkpgdir d va True s = Done (p + 4 * PTX va) t \<and> pt_extends d s t \<and> free_pages t = ps
     \<and> memory t = new_table (memory s) d va p"
proof -
  have p: "valid_page s p" "0 < kend s" "p \<notin> set ps" using assms by (auto simp: kmem_inv_def)
  have al: "aligned 12 p" "p \<noteq> 0" using p valid_page_nonzero by (auto simp: valid_page_def)
  have wf: "pt_wf (memory s) d" and np: "p \<notin> pt_pages (memory s) d" "d \<notin> set (p # ps)"
    using assms(2,4) by (auto simp: pt_ok_def)
  obtain t where t: "kalloc s = Done p t" "pool t = (ps, (snd (pool s))(p := 1))" "kmem_inv t"
      "same_machine s t" "memory t = memory s"
    using kalloc_pool [OF assms(1)] assms(4) by (auto simp: pool_def [of s])
  have fp: "free_pages t = ps" using t(2) by (simp add: pool_def)
  note nt = new_table_props [OF wf assms(3) al(1) np(1) al(2)]
  let ?u = "t\<lparr>memory := new_table (memory s) d va p\<rparr>"
  note km = kmem_inv_memory [OF t(3), of "{d, p}" "new_table (memory s) d va p"]
  have km: "kmem_inv ?u" "pool ?u = pool t" "free_pages ?u = ps"
    using km nt(6) t(5) fp np(2) p(3) by auto
  have sm: "same_machine s ?u" using t(4) by (rule same_machine_upd)
  have "walkpgdir d va True s = Done (p + 4 * PTX va) ?u"
    using assms(3) t(1,5) al(2)
    by (simp add: walkpgdir_def Let_def kmonad ld32_def st32_def upd_memory_def has_table_def pde_of_def
        memset_mem_fill new_table_def)
  moreover have "pt_extends d s ?u"
    unfolding pt_extends_def
  proof (intro conjI exI [of _ "[p]"])
    show "pt_ok ?u d"
      using assms(2,4) nt(4,5) p np(2) km(3) sm by (simp add: pt_ok_def same_machine_valid [OF sm] km(3))
    show "changes_only (pt_pages (memory ?u) d) (memory s) (memory ?u)"
      using changes_only_mono [OF nt(6)] nt(5) by simp
    show "snd (pool ?u) = (\<lambda>v. if v \<in> set [p] then 1 else snd (pool s) v)" using km(2) t(2) by auto
  qed (use km sm nt(5) assms(4) in auto)
  ultimately show ?thesis using km(3) by auto
qed

lemma walk_ensures:
  assumes "kmem_inv s" "pt_ok s d" "has_table (memory s) d va \<or> free_pages s \<noteq> []"
  shows "\<exists>t. walkpgdir d va True s = Done (pte_addr (memory t) d va) t \<and> pt_extends d s t
     \<and> (\<forall>vb. pte_of (memory t) d vb = pte_of (memory s) d vb)
     \<and> (\<forall>vb. has_table (memory t) d vb \<longleftrightarrow> has_table (memory s) d vb \<or> PDX vb = PDX va)
     \<and> length (free_pages s) = length (free_pages t) + (if has_table (memory s) d va then 0 else 1)"
proof (cases "has_table (memory s) d va")
  case True
  have "has_table (memory s) d vb" if "PDX vb = PDX va" for vb using dir_cong(2) [OF that] True by simp
  then show ?thesis
    using walk_found [OF True] pt_extends_refl [OF assms(1,2)] True by (intro exI [of _ s]) auto
next
  case False
  obtain p ps where fp: "free_pages s = p # ps" using assms(3) False by (cases "free_pages s") auto
  obtain t where t: "walkpgdir d va True s = Done (p + 4 * PTX va) t" "pt_extends d s t" "free_pages t = ps"
      "memory t = new_table (memory s) d va p"
    using pt_extends_new_table [OF assms(1,2) False fp] by blast
  have "pt_wf (memory s) d" "p \<notin> pt_pages (memory s) d" "aligned 12 p" "p \<noteq> 0"
    using assms(1,2) fp valid_page_nonzero [of s p] by (auto simp: pt_ok_def kmem_inv_def valid_page_def)
  note nt = new_table_props [OF this(1) False this(3,2,4)]
  show ?thesis
    using t nt(1-3) False fp by (intro exI [of _ t]) (simp add: pte_addr_def)
qed

lemma walk_no_memory:
  assumes "kmem_inv s" "\<not> has_table (memory s) d va" "free_pages s = []"
  shows "walkpgdir d va True s = Done 0 s"
  using assms kalloc_empty [OF assms(1,3)]
  by (simp add: walkpgdir_def Let_def kmonad ld32_def has_table_def pde_of_def)

section \<open>Mapping a range of pages\<close>

lemma in_range_add:
  assumes "k + j \<le> 2 ^ 32"
  shows "in_range a (k + j) x \<longleftrightarrow> in_range a k x \<or> in_range (a + of_nat k) j x"
proof (cases "unat (x - a) < k")
  case False
  have "k < 2 ^ 32 \<or> j = 0" using assms by linarith
  then show ?thesis
  proof
    assume "k < 2 ^ 32"
    then have "unat (of_nat k :: uint32) = k" by (rule unat_of_nat32)
    then have "unat (x - a - of_nat k) = unat (x - a) - k" using False by (simp add: of_nat_unat_sub)
    then show ?thesis using False by (auto simp: in_range_def diff_diff_add)
  qed (use False in \<open>simp add: in_range_def\<close>)
qed (simp add: in_range_def)

lemma in_range_pages:
  assumes "Suc n \<le> 2 ^ 20"
  shows "in_range a (4096 * Suc n) x \<longleftrightarrow> in_range a 4096 x \<or> in_range (a + 4096) (4096 * n) x"
  using in_range_add [of 4096 "4096 * n" a x] assms by simp

text \<open>The directory entries a range still needs a table for.\<close>

definition missing :: "mem \<Rightarrow> uint32 \<Rightarrow> uint32 \<Rightarrow> nat \<Rightarrow> uint32 set" where
  "missing m d a n = PDX ` {va. in_range a (4096 * n) va \<and> \<not> has_table m d va}"

lemma page_PDX: "aligned 12 a \<Longrightarrow> in_range a 4096 x \<Longrightarrow> PDX x = PDX a"
  using in_page_iff [of a x] page_index_eq [of x a] PGROUNDDOWN_add [of a 0] by simp

lemma has_table_PDX: "has_table m d a \<Longrightarrow> PDX vb = PDX a \<Longrightarrow> has_table m d vb"
  using dir_cong(2) [of vb a m d] by simp

lemma missing_has: "PDX a \<in> missing m d b n \<Longrightarrow> \<not> has_table m d a"
proof -
  assume "PDX a \<in> missing m d b n"
  then obtain va where va: "PDX a = PDX va" "\<not> has_table m d va" by (auto simp: missing_def)
  then show ?thesis using dir_cong(2) [OF va(1)] by simp
qed

lemma missing_first: "PDX a \<in> missing m d a (Suc n) \<longleftrightarrow> \<not> has_table m d a"
proof
  assume "\<not> has_table m d a"
  moreover have "in_range a (4096 * Suc n) a" by (simp add: in_range_def)
  ultimately show "PDX a \<in> missing m d a (Suc n)" unfolding missing_def by blast
qed (rule missing_has)

lemma missing_step:
  assumes "aligned 12 a" "Suc n \<le> 2 ^ 20"
    "\<And>vb. has_table m' d vb \<longleftrightarrow> has_table m d vb \<or> PDX vb = PDX a"
  shows "missing m' d (a + 4096) n = missing m d a (Suc n) - {PDX a}"
proof -
  have "x \<in> missing m' d (a + 4096) n \<longleftrightarrow> x \<in> missing m d a (Suc n) - {PDX a}" for x
  proof
    assume "x \<in> missing m' d (a + 4096) n"
    then obtain va where "x = PDX va" "in_range (a + 4096) (4096 * n) va" "\<not> has_table m' d va" by (auto simp: missing_def)
    then show "x \<in> missing m d a (Suc n) - {PDX a}"
      using assms(3) [of va] in_range_pages [OF assms(2), of a va] unfolding missing_def by auto
  next
    assume "x \<in> missing m d a (Suc n) - {PDX a}"
    then obtain va where "x = PDX va" "in_range a (4096 * Suc n) va" "\<not> has_table m d va" "PDX va \<noteq> PDX a"
      unfolding missing_def by blast
    then show "x \<in> missing m' d (a + 4096) n"
      using assms(3) [of va] in_range_pages [OF assms(2), of a va] page_PDX [OF assms(1), of va] unfolding missing_def by auto
  qed
  then show ?thesis by blast
qed

lemma finite_missing [simp]: "finite (missing m d a n)"
  by (rule finite_subset [OF subset_UNIV]) simp

definition range_pte :: "uint32 \<Rightarrow> uint32 \<Rightarrow> uint32 \<Rightarrow> uint32 \<Rightarrow> uint32" where
  "range_pte a pa perm vb = (pa + (PGROUNDDOWN vb - a)) OR perm OR PTE_P"

lemma map_one:
  assumes "kmem_inv s" "pt_ok s d" "has_table (memory s) d a \<or> free_pages s \<noteq> []" "pte_of (memory s) d a AND PTE_P = 0"
  shows "\<exists>t. mappages_loop (Suc n) d a lst pa perm s =
       (if a = lst then Done 0 t else mappages_loop n d (a + PGSIZE) lst (pa + PGSIZE) perm t)
     \<and> pt_extends d s t
     \<and> (\<forall>vb. pte_of (memory t) d vb = (if PGROUNDDOWN vb = PGROUNDDOWN a then pa OR perm OR PTE_P else pte_of (memory s) d vb))
     \<and> (\<forall>vb. has_table (memory t) d vb \<longleftrightarrow> has_table (memory s) d vb \<or> PDX vb = PDX a)
     \<and> length (free_pages s) = length (free_pages t) + (if has_table (memory s) d a then 0 else 1)"
proof -
  obtain u where u: "walkpgdir d a True s = Done (pte_addr (memory u) d a) u" "pt_extends d s u"
      "\<And>vb. pte_of (memory u) d vb = pte_of (memory s) d vb"
      "\<And>vb. has_table (memory u) d vb \<longleftrightarrow> has_table (memory s) d vb \<or> PDX vb = PDX a"
      "length (free_pages s) = length (free_pages u) + (if has_table (memory s) d a then 0 else 1)"
    using walk_ensures [OF assms(1-3)] by blast
  note x = pt_extendsD(1,2) [OF u(2)]
  have wf: "pt_wf (memory u) d" and h: "has_table (memory u) d a" using x(2) u(4) [of a] by (simp_all add: pt_ok_def)
  let ?v = "pa OR perm OR PTE_P"
  let ?t = "u\<lparr>memory := store32 (memory u) (pte_addr (memory u) d a) ?v\<rparr>"
  note sp = set_pte [OF wf h, of ?v]
  have ex: "pt_extends d u ?t" by (rule pt_extends_set_pte [OF x h])
  have "load32 (memory u) (pte_addr (memory u) d a) = pte_of (memory s) d a"
    using h u(3) [of a] by (simp add: pte_of_def pte_addr_def)
  then have run: "mappages_loop (Suc n) d a lst pa perm s =
       (if a = lst then Done 0 ?t else mappages_loop n d (a + PGSIZE) lst (pa + PGSIZE) perm ?t)"
    using u(1) assms(4) pte_addr_nonzero [OF wf h] by (simp add: kmonad ld32_def st32_def upd_memory_def)
  have fp: "free_pages ?t = free_pages u"
  proof -
    have "{table_of (memory u) d a} \<inter> set (free_pages u) = {}"
      using x(2) table_in_pages [OF h] by (auto simp: pt_ok_def)
    then show ?thesis using kmem_inv_memory(3) [OF x(1) sp(7)] by blast
  qed
  show ?thesis
  proof (intro exI [of _ ?t] conjI allI)
    show "pt_extends d s ?t" using u(2) ex by (rule pt_extends_trans)
    show "pte_of (memory ?t) d vb = (if PGROUNDDOWN vb = PGROUNDDOWN a then ?v else pte_of (memory s) d vb)" for vb
      using sp(4) [of vb] u(3) [of vb] by simp
    show "has_table (memory ?t) d vb \<longleftrightarrow> has_table (memory s) d vb \<or> PDX vb = PDX a" for vb
      using sp(2) [of vb] u(4) [of vb] by simp
    show "length (free_pages s) = length (free_pages ?t) + (if has_table (memory s) d a then 0 else 1)"
      using u(5) fp by simp
  qed (rule run)
qed

lemma PGROUNDDOWN_aligned: "aligned 12 a \<Longrightarrow> PGROUNDDOWN a = a"
  using PGROUNDDOWN_add [of a 0] by simp

lemma mappages_loop_run:
  assumes "kmem_inv s" "pt_ok s d" "aligned 12 a" "Suc n \<le> 2 ^ 20" "n < fuel"
    "\<And>vb. in_range a (4096 * Suc n) vb \<Longrightarrow> pte_of (memory s) d vb AND PTE_P = 0"
    "card (missing (memory s) d a (Suc n)) \<le> length (free_pages s)"
  shows "\<exists>t. mappages_loop fuel d a (a + of_nat (4096 * n)) pa perm s = Done 0 t \<and> pt_extends d s t
     \<and> (\<forall>vb. pte_of (memory t) d vb = (if in_range a (4096 * Suc n) vb then range_pte a pa perm vb else pte_of (memory s) d vb))
     \<and> (\<forall>vb. has_table (memory t) d vb \<longleftrightarrow> has_table (memory s) d vb \<or> PDX vb \<in> missing (memory s) d a (Suc n))
     \<and> length (free_pages s) = length (free_pages t) + card (missing (memory s) d a (Suc n))"
  using assms
proof (induction n arbitrary: s a pa fuel)
  case 0
  obtain f where f: "fuel = Suc f" using "0.prems"(5) by (cases fuel) auto
  have "missing (memory s) d a (Suc 0) \<subseteq> {PDX a}"
    using page_PDX [OF "0.prems"(3)] unfolding missing_def by fastforce
  then have eq: "missing (memory s) d a (Suc 0) = (if has_table (memory s) d a then {} else {PDX a})"
    using missing_first [of a "memory s" d 0] by auto
  have ne: "has_table (memory s) d a \<or> free_pages s \<noteq> []" using "0.prems"(7) eq by (auto split: if_splits)
  have np: "pte_of (memory s) d a AND PTE_P = 0" using "0.prems"(6) [of a] by (simp add: in_range_def)
  show ?case
    using map_one [OF "0.prems"(1,2) ne np, of f a pa perm] PGROUNDDOWN_aligned [OF "0.prems"(3)]
      in_page_iff [OF "0.prems"(3)] has_table_PDX [of "memory s" d a]
    by (auto simp: f eq range_pte_def simp del: mappages_loop.simps)
next
  case (Suc n)
  obtain f where f: "fuel = Suc f" using Suc.prems(5) by (cases fuel) auto
  have al: "aligned 12 (a + 4096)" using Suc.prems(3) by (intro aligned_plus) simp_all
  have np: "pte_of (memory s) d a AND PTE_P = 0" using Suc.prems(6) [of a] by (simp add: in_range_def)
  let ?M = "missing (memory s) d a (Suc (Suc n))"
  have card: "card ?M = card (?M - {PDX a}) + (if has_table (memory s) d a then 0 else 1)"
    using missing_first [of a "memory s" d "Suc n"] card_Suc_Diff1 [OF finite_missing, of "PDX a" "memory s" d a "Suc (Suc n)"]
    by auto
  have ne: "has_table (memory s) d a \<or> free_pages s \<noteq> []" using Suc.prems(7) card by auto
  have "0 < unat (of_nat (4096 * Suc n) :: uint32)" using Suc.prems(4) by (subst unat_of_nat32) auto
  then have "of_nat (4096 * Suc n) \<noteq> (0 :: uint32)" by auto
  then have last: "a \<noteq> a + of_nat (4096 * Suc n)" by simp
  obtain t where t: "mappages_loop fuel d a (a + of_nat (4096 * Suc n)) pa perm s
       = mappages_loop f d (a + PGSIZE) (a + of_nat (4096 * Suc n)) (pa + PGSIZE) perm t" "pt_extends d s t"
     "\<And>vb. pte_of (memory t) d vb = (if PGROUNDDOWN vb = PGROUNDDOWN a then pa OR perm OR PTE_P else pte_of (memory s) d vb)"
     "\<And>vb. has_table (memory t) d vb \<longleftrightarrow> has_table (memory s) d vb \<or> PDX vb = PDX a"
     "length (free_pages s) = length (free_pages t) + (if has_table (memory s) d a then 0 else 1)"
    using map_one [OF Suc.prems(1,2) ne np, of f "a + of_nat (4096 * Suc n)" pa perm] last unfolding f by auto
  note M = missing_step [OF Suc.prems(3,4) t(4)]
  have lst: "a + of_nat (4096 * Suc n) = (a + 4096) + of_nat (4096 * n)" by simp
  have first: "PGROUNDDOWN vb = PGROUNDDOWN a \<longleftrightarrow> in_range a 4096 vb" for vb
    using in_page_iff [OF Suc.prems(3)] PGROUNDDOWN_aligned [OF Suc.prems(3)] by simp
  have out: "\<not> in_range a 4096 vb" if "in_range (a + 4096) (4096 * Suc n) vb" for vb
  proof
    assume v: "in_range a 4096 vb"
    have "unat (vb - (a + 4096)) = unat (vb - a - 4096)" by (simp add: diff_diff_add)
    moreover have "unat (vb - a) + (2 ^ 32 - 4096) = unat (vb - a - 4096)"
      using v by (simp add: in_range_def unat_sub_if')
    ultimately show False using that Suc.prems(4) by (simp add: in_range_def)
  qed
  have rest: "pte_of (memory t) d vb AND PTE_P = 0" if "in_range (a + 4096) (4096 * Suc n) vb" for vb
    using Suc.prems(6) [of vb] in_range_pages [OF Suc.prems(4), of a vb] out [OF that] that
    by (simp add: t(3) first)
  have "card (missing (memory t) d (a + 4096) (Suc n)) \<le> length (free_pages t)"
    using Suc.prems(7) t(5) card M by simp
  then obtain u where u: "mappages_loop f d (a + 4096) (a + 4096 + of_nat (4096 * n)) (pa + 4096) perm t = Done 0 u" "pt_extends d t u"
      "\<And>vb. pte_of (memory u) d vb = (if in_range (a + 4096) (4096 * Suc n) vb then range_pte (a + 4096) (pa + 4096) perm vb else pte_of (memory t) d vb)"
      "\<And>vb. has_table (memory u) d vb \<longleftrightarrow> has_table (memory t) d vb \<or> PDX vb \<in> missing (memory t) d (a + 4096) (Suc n)"
      "length (free_pages t) = length (free_pages u) + card (missing (memory t) d (a + 4096) (Suc n))"
    using Suc.IH [OF pt_extendsD(1,2) [OF t(2)] al _ _ rest, of f "pa + 4096"] Suc.prems(4,5) f by auto
  show ?case
  proof (intro exI [of _ u] conjI allI)
    show "mappages_loop fuel d a (a + of_nat (4096 * Suc n)) pa perm s = Done 0 u" using t(1) u(1) unfolding lst by metis
    show "pt_extends d s u" using t(2) u(2) by (rule pt_extends_trans)
    show "pte_of (memory u) d vb = (if in_range a (4096 * Suc (Suc n)) vb then range_pte a pa perm vb else pte_of (memory s) d vb)" for vb
      using out [of vb] first [of vb] PGROUNDDOWN_aligned [OF Suc.prems(3)] unfolding u(3) t(3) in_range_pages [OF Suc.prems(4)]
      by (auto simp: range_pte_def)
    show "has_table (memory u) d vb \<longleftrightarrow> has_table (memory s) d vb \<or> PDX vb \<in> ?M" for vb
      using M u(4) [of vb] t(4) [of vb] missing_first [of a "memory s" d "Suc n"] missing_has [of vb] dir_cong(2) [of vb a "memory s" d]
      by auto
    show "length (free_pages s) = length (free_pages u) + card ?M" using t(5) u(5) card M by simp
  qed
qed

definition span :: "uint32 \<Rightarrow> uint32 \<Rightarrow> nat" where
  "span va len = unat (PGROUNDDOWN (va + len - 1) - PGROUNDDOWN va) div 4096"

lemma aligned_minus:
  assumes "aligned 12 a" "aligned 12 b" shows "aligned 12 (a - b)"
proof -
  have "a - b = push_bit 12 (drop_bit 12 a) - push_bit 12 (drop_bit 12 b)"
    using assms aligned_push_drop by metis
  also have "\<dots> = push_bit 12 (drop_bit 12 a - drop_bit 12 b)" by (simp only: push_bit_eq_mult left_diff_distrib)
  finally show ?thesis using aligned_push_bit by simp
qed

lemma span_last:
  "PGROUNDDOWN (va + len - 1) = PGROUNDDOWN va + of_nat (4096 * span va len)" "Suc (span va len) \<le> 2 ^ 20"
proof -
  let ?d = "PGROUNDDOWN (va + len - 1) - PGROUNDDOWN va"
  have "aligned 12 ?d" by (rule aligned_minus) simp_all
  then have "4096 dvd unat ?d" by (simp add: aligned_iff_dvd)
  then have u: "4096 * span va len = unat ?d" by (simp add: span_def)
  show "PGROUNDDOWN (va + len - 1) = PGROUNDDOWN va + of_nat (4096 * span va len)" unfolding u by simp
  show "Suc (span va len) \<le> 2 ^ 20" using u unat_bound32 [of ?d] by simp
qed

lemma mappages_run:
  fixes va len :: uint32
  assumes "kmem_inv s" "pt_ok s d"
  defines "a \<equiv> PGROUNDDOWN va" and "k \<equiv> Suc (span va len)"
  assumes free: "\<And>vb. in_range a (4096 * k) vb \<Longrightarrow> pte_of (memory s) d vb AND PTE_P = 0"
    and mem: "card (missing (memory s) d a k) \<le> length (free_pages s)"
  shows "\<exists>t. mappages d va len pa perm s = Done 0 t \<and> pt_extends d s t
     \<and> (\<forall>vb. pte_of (memory t) d vb = (if in_range a (4096 * k) vb then range_pte a pa perm vb else pte_of (memory s) d vb))
     \<and> (\<forall>vb. has_table (memory t) d vb \<longleftrightarrow> has_table (memory s) d vb \<or> PDX vb \<in> missing (memory s) d a k)
     \<and> length (free_pages s) = length (free_pages t) + card (missing (memory s) d a k)"
  using mappages_loop_run [OF assms(1,2) _ span_last(2) _ _ mem [unfolded k_def], of page_fuel pa perm] free span_last(2) [of va len]
  unfolding mappages_def a_def k_def span_last(1) by (auto simp: page_fuel_def simp del: mappages_loop.simps mult_Suc_right)

lemma mappages_remap:
  assumes "pt_ok s d" "pte_of (memory s) d va AND PTE_P \<noteq> 0"
  shows "mappages d va len pa perm s = Panic ''remap''"
proof -
  have h: "has_table (memory s) d va" using assms(2) by (auto simp: pte_of_def split: if_splits)
  have ix: "PDX (PGROUNDDOWN va) = PDX va" "PTX (PGROUNDDOWN va) = PTX va"
    using page_index_eq [of "PGROUNDDOWN va" va] PGROUNDDOWN_aligned [of "PGROUNDDOWN va"] by simp_all
  have hh: "has_table (memory s) d (PGROUNDDOWN va)" using h dir_cong(2) [OF ix(1)] by simp
  have "load32 (memory s) (pte_addr (memory s) d (PGROUNDDOWN va)) = pte_of (memory s) d va"
    using h ix dir_cong(3) [OF ix(1)] by (simp add: pte_of_def pte_addr_def)
  moreover have "pte_addr (memory s) d (PGROUNDDOWN va) \<noteq> 0" using assms(1) hh pte_addr_nonzero by (auto simp: pt_ok_def)
  ultimately show ?thesis
    unfolding mappages_def page_fuel_def mappages_loop.simps
    using walk_found [OF hh] assms(2) by (simp add: kmonad ld32_def)
qed

lemma mappages_no_memory:
  assumes "kmem_inv s" "\<not> has_table (memory s) d va" "free_pages s = []"
  shows "mappages d va len pa perm s = Done (- 1) s"
proof -
  have "PDX (PGROUNDDOWN va) = PDX va"
    using page_index_eq [of "PGROUNDDOWN va" va] PGROUNDDOWN_aligned [of "PGROUNDDOWN va"] by simp
  then have "\<not> has_table (memory s) d (PGROUNDDOWN va)" using dir_cong(2) assms(2) by metis
  then show ?thesis
    unfolding mappages_def page_fuel_def mappages_loop.simps
    using walk_no_memory [OF assms(1) _ assms(3)] by (simp add: kmonad)
qed

section \<open>Building a whole address space\<close>

text \<open>The interface \<open>setupkvm\<close> relies on: mapping an unmapped range succeeds as long as the range
  lies in the directory entries \<open>K\<close> memory has been set aside for, and changes the translation
  of that range only.\<close>

type_synonym map_range = "uint32 \<times> uint32 \<times> uint32 \<times> uint32"

definition covers :: "uint32 \<Rightarrow> uint32 \<Rightarrow> uint32 \<Rightarrow> bool" where
  "covers va len vb \<longleftrightarrow> in_range (PGROUNDDOWN va) (4096 * Suc (span va len)) vb"

fun map_all :: "(uint32 \<Rightarrow> uint32 \<Rightarrow> uint32 \<Rightarrow> uint32 \<Rightarrow> (int, 's) kop) \<Rightarrow> map_range list \<Rightarrow> (int, 's) kop" where
  "map_all f [] = kret 0"
| "map_all f ((virt, pstart, pend, perm) # rs) =
     kbind (f virt (pend - pstart) pstart perm) (\<lambda>r. if r < 0 then kret r else map_all f rs)"

fun map_spec :: "map_range list \<Rightarrow> (uint32 \<Rightarrow> uint32) \<Rightarrow> uint32 \<Rightarrow> uint32" where
  "map_spec [] f = f"
| "map_spec ((virt, pstart, pend, perm) # rs) f = map_spec rs (\<lambda>vb.
     if covers virt (pend - pstart) vb then range_pte (PGROUNDDOWN virt) pstart perm vb else f vb)"

fun disjoint_ranges :: "map_range list \<Rightarrow> bool" where
  "disjoint_ranges [] = True"
| "disjoint_ranges ((virt, pstart, pend, perm) # rs) \<longleftrightarrow> disjoint_ranges rs \<and>
     (\<forall>(virt', pstart', pend', perm') \<in> set rs. \<forall>vb.
        covers virt (pend - pstart) vb \<longrightarrow> \<not> covers virt' (pend' - pstart') vb)"

locale page_mapper =
  fixes map_pages :: "uint32 \<Rightarrow> uint32 \<Rightarrow> uint32 \<Rightarrow> uint32 \<Rightarrow> (int, 's) kop"
    and lookup :: "'s \<Rightarrow> uint32 \<Rightarrow> uint32"
    and inv :: "'s \<Rightarrow> bool"
    and region :: "uint32 \<Rightarrow> bool"
  assumes map_law: "inv s \<Longrightarrow> (\<And>vb. covers va len vb \<Longrightarrow> region vb \<and> lookup s vb AND PTE_P = 0) \<Longrightarrow>
      \<exists>t. map_pages va len pa perm s = Done 0 t \<and> inv t
        \<and> lookup t = (\<lambda>vb. if covers va len vb then range_pte (PGROUNDDOWN va) pa perm vb else lookup s vb)"
begin

lemma map_all_spec:
  assumes "inv s" "disjoint_ranges rs"
    "\<And>virt ps pe perm vb. (virt, ps, pe, perm) \<in> set rs \<Longrightarrow> covers virt (pe - ps) vb \<Longrightarrow> region vb \<and> lookup s vb AND PTE_P = 0"
  shows "\<exists>t. map_all map_pages rs s = Done 0 t \<and> inv t \<and> lookup t = map_spec rs (lookup s)"
  using assms
proof (induction rs arbitrary: s)
  case (Cons r rs)
  obtain virt ps pe perm where r: "r = (virt, ps, pe, perm)" by (cases r) auto
  obtain t where t: "map_pages virt (pe - ps) ps perm s = Done 0 t" "inv t"
      "lookup t = (\<lambda>vb. if covers virt (pe - ps) vb then range_pte (PGROUNDDOWN virt) ps perm vb else lookup s vb)"
    using map_law [OF Cons.prems(1), of virt "pe - ps" ps perm] Cons.prems(3) r by force
  have "region vb \<and> lookup t vb AND PTE_P = 0" if "(virt', ps', pe', perm') \<in> set rs" "covers virt' (pe' - ps') vb"
    for virt' ps' pe' perm' vb
    using Cons.prems(2) Cons.prems(3) [of virt' ps' pe' perm' vb] that by (auto simp: t(3) r)
  then obtain u where "map_all map_pages rs t = Done 0 u" "inv u" "lookup u = map_spec rs (lookup t)"
    using Cons.IH [OF t(2)] Cons.prems(2) r by force
  then show ?case using t by (auto simp: r kmonad)
qed simp

end

text \<open>The invariant under which \<open>mappages\<close> fulfils the interface: the tables of the directory are
  among the entries \<open>K\<close> and there is a free page for each of the others.\<close>

definition tables :: "mem \<Rightarrow> uint32 \<Rightarrow> uint32 set" where
  "tables m d = PDX ` {va. has_table m d va}"

definition map_inv :: "uint32 \<Rightarrow> uint32 set \<Rightarrow> 'a kheap_scheme \<Rightarrow> 'a kheap_scheme \<Rightarrow> bool" where
  "map_inv d K s0 s \<longleftrightarrow> pt_extends d s0 s \<and> tables (memory s) d \<subseteq> K
     \<and> card (K - tables (memory s) d) \<le> length (free_pages s)
     \<and> length (free_pages s) + card (tables (memory s) d) = length (free_pages s0) + card (tables (memory s0) d)"

interpretation kmapper: page_mapper "mappages d" "\<lambda>s. pte_of (memory s) d" "map_inv d K s0" "\<lambda>vb. PDX vb \<in> K"
  for d K and s0 :: "'a kheap_scheme"
proof
  fix s :: "'a kheap_scheme" and va len pa perm
  assume inv: "map_inv d K s0 s" and
    law: "\<And>vb. covers va len vb \<Longrightarrow> PDX vb \<in> K \<and> pte_of (memory s) d vb AND PTE_P = 0"
  let ?M = "missing (memory s) d (PGROUNDDOWN va) (Suc (span va len))"
  note ext = inv [unfolded map_inv_def, THEN conjunct1]
  have sub: "?M \<subseteq> K - tables (memory s) d"
    using law missing_has unfolding missing_def covers_def tables_def by blast
  have "finite (K - tables (memory s) d)" by (rule finite_subset [OF subset_UNIV]) simp
  then have "card ?M \<le> length (free_pages s)" and diff: "card (K - tables (memory s) d - ?M) = card (K - tables (memory s) d) - card ?M"
    using inv card_mono [OF _ sub] card_Diff_subset [OF _ sub] by (auto simp: map_inv_def)
  then obtain t where t: "mappages d va len pa perm s = Done 0 t" "pt_extends d s t"
     "\<And>vb. pte_of (memory t) d vb = (if covers va len vb then range_pte (PGROUNDDOWN va) pa perm vb else pte_of (memory s) d vb)"
     "\<And>vb. has_table (memory t) d vb \<longleftrightarrow> has_table (memory s) d vb \<or> PDX vb \<in> ?M"
     "length (free_pages s) = length (free_pages t) + card ?M"
    using mappages_run [OF pt_extendsD(1,2) [OF ext], of va len pa perm] law unfolding covers_def by blast
  have tab: "tables (memory t) d = tables (memory s) d \<union> ?M"
    unfolding tables_def using t(4) by (auto simp: missing_def)
  then have "K - tables (memory t) d = K - tables (memory s) d - ?M" by blast
  moreover have "card (tables (memory t) d) = card (tables (memory s) d) + card ?M"
    unfolding tab using sub by (intro card_Un_disjoint) (auto intro: finite_subset [OF subset_UNIV])
  ultimately have "map_inv d K s0 t"
    using inv diff tab sub t(5) pt_extends_trans [OF ext t(2)] by (auto simp: map_inv_def)
  then show "\<exists>t. mappages d va len pa perm s = Done 0 t \<and> map_inv d K s0 t \<and> pte_of (memory t) d =
       (\<lambda>vb. if covers va len vb then range_pte (PGROUNDDOWN va) pa perm vb else pte_of (memory s) d vb)"
    using t(1,3) by (intro exI [of _ t]) auto
qed

end
