(* ===== verification/AddrSpace.thy ===== *)
theory AddrSpace
  imports PageTable
begin

text \<open>Address spaces: the kernel part that \<open>setupkvm\<close> builds from \<open>kmap\<close>, the translation of user
  addresses by \<open>uva2ka\<close> and \<open>copyout\<close>, and the copy on a write fault.\<close>

section \<open>The kernel part\<close>

lemma in_range_bounds:
  assumes "unat a + k \<le> 2 ^ 32"
  shows "in_range a k x \<longleftrightarrow> unat a \<le> unat x \<and> unat x < unat a + k"
proof (cases "unat a \<le> unat x")
  case True
  then show ?thesis by (auto simp: in_range_def of_nat_unat_sub)
next
  case False
  then have "unat (x - a) = unat x + 2 ^ 32 - unat a" by (simp add: unat_sub_if')
  then show ?thesis using False assms by (simp add: in_range_def)
qed

lemma span_aligned:
  assumes "aligned 12 va" "aligned 12 len" "len \<noteq> 0"
  shows "4096 * Suc (span va len) = unat len"
proof -
  have dv: "4096 dvd unat len" "0 < unat len" using assms by (auto simp: aligned_iff_dvd unat_gt_0)
  have al: "aligned 12 (va + (len - 4096))" using assms by (intro aligned_plus aligned_minus) simp_all
  have "va + len - 1 = va + (len - 4096) + 4095" by (simp add: algebra_simps)
  then have "PGROUNDDOWN (va + len - 1) = va + (len - 4096)" using PGROUNDDOWN_add [OF al, of 4095] by simp
  then have "span va len = unat (len - 4096) div 4096" using PGROUNDDOWN_aligned [OF assms(1)] by (simp add: span_def)
  moreover have "4096 \<le> unat len" using dv by (simp add: dvd_imp_le)
  then have "unat (len - 4096) = unat len - 4096" by (subst of_nat_unat_sub) simp_all
  ultimately show ?thesis using dv by (metis (no_types) \<open>4096 \<le> unat len\<close> add.commute dvd_diff_nat dvd_mult_div_cancel dvd_refl le_add_diff_inverse2 mult_Suc_right)
qed

lemma covers_aligned:
  assumes "aligned 12 va" "aligned 12 len" "len \<noteq> 0" "unat va + unat len \<le> 2 ^ 32"
  shows "covers va len vb \<longleftrightarrow> unat va \<le> unat vb \<and> unat vb < unat va + unat len"
  unfolding covers_def span_aligned [OF assms(1-3)] PGROUNDDOWN_aligned [OF assms(1)] by (rule in_range_bounds [OF assms(4)])

lemma unat_of_nat_self: "of_nat (unat (x :: uint32)) = x"
  by simp

lemma unat_PDX_div: "unat (PDX va) = unat va div 2 ^ 22"
  unfolding PDX_eq unat_drop_bit_eq by (rule drop_bit_eq_div)

definition kernel_dirs :: "uint32 set" where
  "kernel_dirs = of_nat ` ({512..<568} \<union> {1016..<1024})"

lemma card_kernel_dirs: "card (kernel_dirs - A) \<le> 64"
proof -
  have "card kernel_dirs \<le> card ({512..<568} \<union> {1016..<1024} :: nat set)"
    unfolding kernel_dirs_def by (rule card_image_le) simp
  also have "\<dots> \<le> 56 + 8" using card_Un_le [of "{512..<568} :: nat set" "{1016..<1024}"] by simp
  finally show ?thesis using card_mono [of kernel_dirs "kernel_dirs - A"] by (simp add: kernel_dirs_def)
qed

lemma kernel_dirs_mem:
  assumes "unat vb \<in> {0x80000000..<0x8E000000} \<or> 0xFE000000 \<le> unat vb"
  shows "PDX vb \<in> kernel_dirs"
proof -
  have "unat (PDX vb) \<in> {512..<568} \<union> {1016..<1024}"
    using assms unat_PDX [of vb] unfolding unat_PDX_div by (auto simp: less_mult_imp_div_less)
  then show ?thesis unfolding kernel_dirs_def by (metis image_eqI unat_of_nat_self)
qed

text \<open>The translation every address space has for kernel addresses.\<close>

definition kernel_pte :: "uint32 \<Rightarrow> uint32 \<Rightarrow> uint32" where
  "kernel_pte data va =
     (if va < KERNBASE then 0
      else if va < KERNBASE + PHYSTOP then
        V2P (PGROUNDDOWN va) OR (if KERNLINK \<le> va \<and> va < data then 0 else PTE_W) OR PTE_P
      else if va < DEVSPACE then 0
      else PGROUNDDOWN va OR PTE_W OR PTE_P)"

definition data_ok :: "uint32 \<Rightarrow> bool" where
  "data_ok data \<longleftrightarrow> aligned 12 data \<and> KERNLINK < data \<and> data < KERNBASE + PHYSTOP"

lemma kmap_covers:
  assumes "data_ok data"
  shows "covers KERNBASE EXTMEM vb \<longleftrightarrow> 0x80000000 \<le> unat vb \<and> unat vb < 0x80100000"
    "covers KERNLINK (V2P data - V2P KERNLINK) vb \<longleftrightarrow> 0x80100000 \<le> unat vb \<and> unat vb < unat data"
    "covers data (PHYSTOP - V2P data) vb \<longleftrightarrow> unat data \<le> unat vb \<and> unat vb < 0x8E000000"
    "covers DEVSPACE (0 - DEVSPACE) vb \<longleftrightarrow> 0xFE000000 \<le> unat vb"
proof -
  have d: "aligned 12 data" "0x80100000 < unat data" "unat data < 0x8E000000"
    using assms by (auto simp: data_ok_def word_less_nat_alt)
  have l2: "V2P data - V2P KERNLINK = data - KERNLINK" by (simp add: V2P_def)
  have u2: "unat (data - KERNLINK) = unat data - 0x80100000" using d by (subst of_nat_unat_sub) simp_all
  have l3: "PHYSTOP - V2P data = 0x8E000000 - data" by (simp add: V2P_def)
  have u3: "unat (0x8E000000 - data) = 0x8E000000 - unat data" using d by (subst of_nat_unat_sub) simp_all
  show "covers KERNBASE EXTMEM vb \<longleftrightarrow> 0x80000000 \<le> unat vb \<and> unat vb < 0x80100000"
    by (subst covers_aligned) simp_all
  have "(0x2000000 :: uint32) + 0xFE000000 = 0" by simp
  then have l4: "0 - DEVSPACE = 0x2000000" by (metis diff_0 eq_neg_iff_add_eq_0)
  show "covers DEVSPACE (0 - DEVSPACE) vb \<longleftrightarrow> 0xFE000000 \<le> unat vb"
    unfolding l4 using unat_bound32 [of vb] by (subst covers_aligned) simp_all
  have a2: "aligned 12 (data - KERNLINK)" "aligned 12 (0x8E000000 - data)" using d(1) by (auto intro!: aligned_minus)
  have n2: "data - KERNLINK \<noteq> 0" "0x8E000000 - data \<noteq> 0" using u2 u3 d by (metis diff_is_0_eq not_le unat_0)+
  show "covers KERNLINK (V2P data - V2P KERNLINK) vb \<longleftrightarrow> 0x80100000 \<le> unat vb \<and> unat vb < unat data"
    unfolding l2 using covers_aligned [OF _ a2(1) n2(1), of KERNLINK vb] u2 d by simp
  show "covers data (PHYSTOP - V2P data) vb \<longleftrightarrow> unat data \<le> unat vb \<and> unat vb < 0x8E000000"
    unfolding l3 using covers_aligned [OF d(1) a2(2) n2(2), of vb] u3 d by simp
qed

lemmas kmap_covers_simps = kmap_covers [simplified]

lemma kmap_disjoint: "data_ok data \<Longrightarrow> disjoint_ranges (kmap data)"
  unfolding kmap_def by (simp add: kmap_covers_simps) (auto simp: data_ok_def word_less_nat_alt)

lemma kmap_region:
  assumes "data_ok data" "(virt, ps, pe, perm) \<in> set (kmap data)" "covers virt (pe - ps) vb"
  shows "PDX vb \<in> kernel_dirs"
proof -
  have "0x80100000 < unat data" "unat data < 0x8E000000" using assms(1) by (auto simp: data_ok_def word_less_nat_alt)
  then have "unat vb \<in> {0x80000000..<0x8E000000} \<or> 0xFE000000 \<le> unat vb"
    using assms(2,3) by (auto simp: kmap_def kmap_covers_simps [OF assms(1)])
  then show ?thesis by (rule kernel_dirs_mem)
qed

lemma kmap_spec:
  assumes "data_ok data"
  shows "map_spec (kmap data) (\<lambda>_. 0) = kernel_pte data"
proof
  fix vb
  have d: "aligned 12 data" "0x80100000 < unat data" "unat data < 0x8E000000"
    using assms by (auto simp: data_ok_def word_less_nat_alt)
  have "PGROUNDDOWN data = data" using PGROUNDDOWN_aligned [OF d(1)] .
  moreover have "PGROUNDDOWN KERNBASE = KERNBASE" "PGROUNDDOWN KERNLINK = KERNLINK" "PGROUNDDOWN DEVSPACE = DEVSPACE"
    by (simp_all add: PGROUNDDOWN_def)
  moreover have "V2P data + (PGROUNDDOWN vb - data) = V2P (PGROUNDDOWN vb)" by (simp add: V2P_def)
  moreover have "V2P KERNLINK + (PGROUNDDOWN vb - KERNLINK) = V2P (PGROUNDDOWN vb)" by (simp add: V2P_def)
  ultimately show "map_spec (kmap data) (\<lambda>_. 0) vb = kernel_pte data vb"
    using d unfolding kmap_def map_spec.simps kmap_covers_simps [OF assms] kernel_pte_def range_pte_def
    by (simp add: kmap_covers_simps [OF assms] word_less_nat_alt word_le_nat_alt V2P_def)
qed

lemma same_machine_regs:
  assumes "same_machine s t"
  shows "kend t = kend s" "kdata t = kdata s" "cr3 t = cr3 s" "lock_ok l t = lock_ok l s" "cpus t = cpus s" "lapicid t = lapicid s"
proof -
  have t: "t = s\<lparr>memory := memory t, kmem := kmem t\<rparr>" using assms by (simp add: same_machine_def)
  show "kend t = kend s" "kdata t = kdata s" "cr3 t = cr3 s" "lock_ok l t = lock_ok l s" "cpus t = cpus s" "lapicid t = lapicid s"
    by (subst t, simp)+
qed

lemma fresh_directory:
  assumes "kmem_inv s" "free_pages s = d # ps"
  shows "\<exists>u. kbind kalloc (\<lambda>p. if p = 0 then kret 0 else kseq (upd_memory (\<lambda>m. memset m p 0 PGSIZE)) (f p)) s = f d u
     \<and> kmem_inv u \<and> same_machine s u \<and> pool u = (ps, (snd (pool s))(d := 1)) \<and> free_pages u = ps
     \<and> memory u = mem_fill (memory s) d 4096 0 \<and> pt_ok u d \<and> tables (memory u) d = {}
     \<and> (\<forall>vb. pte_of (memory u) d vb = 0) \<and> pt_pages (memory u) d = {d}"
proof -
  have d: "valid_page s d" "0 < kend s" "d \<notin> set ps" using assms by (auto simp: kmem_inv_def)
  have al: "aligned 12 d" "d \<noteq> 0" using d valid_page_nonzero by (auto simp: valid_page_def)
  obtain t where t: "kalloc s = Done d t" "pool t = (ps, (snd (pool s))(d := 1))" "kmem_inv t"
      "same_machine s t" "memory t = memory s"
    using kalloc_pool [OF assms(1)] assms(2) by (auto simp: pool_def [of s])
  have fp: "free_pages t = ps" using t(2) by (simp add: pool_def)
  let ?u = "t\<lparr>memory := mem_fill (memory s) d 4096 0\<rparr>"
  have km: "kmem_inv ?u" "pool ?u = pool t" "free_pages ?u = ps"
    using kmem_inv_memory [OF t(3), of "{d}" "mem_fill (memory s) d 4096 0"] changes_only_fill [OF al(1), of "{d}"] t(5) fp d(3)
    by auto
  have sm: "same_machine s ?u" using t(4) by (rule same_machine_upd)
  have h: "\<not> has_table (memory ?u) d vb" for vb
    using load32_zero_page [OF al(1) unat_PDX] by (simp add: has_table_def pde_of_def)
  have pg: "pt_pages (memory ?u) d = {d}" using h by (simp add: pt_pages_def)
  have wf: "pt_wf (memory ?u) d" using h al(1) by (simp add: pt_wf_def)
  have "pt_ok ?u d" unfolding pt_ok_def pg km(3) using wf d same_machine_valid [OF sm] by simp
  moreover have "pte_of (memory ?u) d vb = 0" for vb using h by (simp add: pte_of_def)
  moreover have "tables (memory ?u) d = {}" using h by (simp add: tables_def)
  ultimately show ?thesis
    using t(1,2,5) km sm pg al(2) by (intro exI [of _ ?u]) (simp add: kmonad upd_memory_def memset_mem_fill)
qed

lemma map_kernel_all:
  "map_all (mappages d) rs s = Done 0 t \<Longrightarrow> map_kernel d rs s = Done d t"
proof (induction rs arbitrary: s)
  case (Cons r rs)
  obtain virt ps pe perm where r: "r = (virt, ps, pe, perm)" by (cases r) auto
  obtain v u where v: "mappages d virt (pe - ps) ps perm s = Done v u"
      "(if v < 0 then Done v u else map_all (mappages d) rs u) = Done 0 t"
    using Cons.prems by (auto simp: r kbind_Done_iff if_distrib [of "\<lambda>f. f _"] cong: if_cong)
  then have "map_all (mappages d) rs u = Done 0 t" "\<not> v < 0" by (auto split: if_splits)
  then show ?case using Cons.IH [of u] v(1) by (simp add: r kmonad)
qed simp

lemma setupkvm_run:
  assumes "kmem_inv s" "65 \<le> length (free_pages s)" "data_ok (kdata s)"
  shows "\<exists>t d ps. setupkvm s = Done d t \<and> kmem_inv t \<and> same_machine s t \<and> pt_ok t d
     \<and> pte_of (memory t) d = kernel_pte (kdata s) \<and> tables (memory t) d \<subseteq> kernel_dirs
     \<and> free_pages s = ps @ free_pages t \<and> pt_pages (memory t) d = set ps \<and> length ps = Suc (card (tables (memory t) d)) \<and> d \<noteq> 0
     \<and> changes_only (set ps) (memory s) (memory t)
     \<and> snd (pool t) = (\<lambda>v. if v \<in> set ps then 1 else snd (pool s) v)"
proof -
  obtain d qs where fp: "free_pages s = d # qs" using assms(2) by (cases "free_pages s") auto
  have d: "valid_page s d" "0 < kend s" using assms(1) fp by (auto simp: kmem_inv_def)
  have al: "aligned 12 d" "d \<noteq> 0" using d valid_page_nonzero by (auto simp: valid_page_def)
  let ?f = "\<lambda>p. if P2V PHYSTOP > DEVSPACE then kpanic ''PHYSTOP too high'' else kbind (kget kdata) (\<lambda>data. map_kernel p (kmap data))"
  obtain u where u: "kbind kalloc (\<lambda>p. if p = 0 then kret 0 else kseq (upd_memory (\<lambda>m. memset m p 0 PGSIZE)) (?f p)) s = ?f d u"
      "kmem_inv u" "same_machine s u" "pool u = (qs, (snd (pool s))(d := 1))" "free_pages u = qs"
      "memory u = mem_fill (memory s) d 4096 0" "pt_ok u d" "tables (memory u) d = {}"
      "\<And>vb. pte_of (memory u) d vb = 0" "pt_pages (memory u) d = {d}"
    using fresh_directory [OF assms(1) fp, of ?f] by blast
  have kd: "kdata u = kdata s" by (rule same_machine_regs(2) [OF u(3)])
  have "map_inv d kernel_dirs u u"
    using pt_extends_refl [OF u(2,7)] card_kernel_dirs [of "{}"] u(5,8) assms(2) fp by (simp add: map_inv_def)
  then obtain t where t: "map_all (mappages d) (kmap (kdata s)) u = Done 0 t" "map_inv d kernel_dirs u t"
      "pte_of (memory t) d = map_spec (kmap (kdata s)) (pte_of (memory u) d)"
    using kmapper.map_all_spec [OF _ kmap_disjoint [OF assms(3)], of d kernel_dirs u u] kmap_region [OF assms(3)] u(9) by auto
  have run: "setupkvm s = Done d t"
    using u(1) map_kernel_all [OF t(1)] kd unfolding setupkvm_def by (simp add: kmonad P2V_def)
  obtain ps where ps: "free_pages u = ps @ free_pages t" "pt_pages (memory t) d = pt_pages (memory u) d \<union> set ps"
      "changes_only (pt_pages (memory t) d) (memory u) (memory t)" "snd (pool t) = (\<lambda>v. if v \<in> set ps then 1 else snd (pool u) v)"
    using t(2) by (auto simp: map_inv_def pt_extends_def)
  have ext: "pt_extends d u t" "tables (memory t) d \<subseteq> kernel_dirs"
    "length (free_pages t) + card (tables (memory t) d) = length (free_pages u)"
    using t(2) u(8) by (auto simp: map_inv_def)
  have "length (d # ps) = Suc (card (tables (memory t) d))" using ext(3) ps(1) by simp
  moreover have pg: "pt_pages (memory t) d = set (d # ps)" using ps(2) u(10) by auto
  moreover have "changes_only (set (d # ps)) (memory s) (memory t)"
    using changes_only_step [OF changes_only_fill [OF al(1), of "set (d # ps)"]] ps(3) pg u(6) by fastforce
  moreover have "snd (pool t) = (\<lambda>v. if v \<in> set (d # ps) then 1 else snd (pool s) v)" using ps(4) u(4) by auto
  moreover have "free_pages s = (d # ps) @ free_pages t" using fp ps(1) u(5) by simp
  moreover have "pte_of (memory t) d = kernel_pte (kdata s)"
    using t(3) kmap_spec [OF assms(3)] u(9) by presburger
  moreover have "same_machine s t" using u(3) pt_extendsD(3) [OF ext(1)] by (rule same_machine_trans)
  ultimately show ?thesis
    using run pt_extendsD(1,2) [OF ext(1)] ext(2) al(2) by (intro exI [of _ t] exI [of _ d] exI [of _ "d # ps"]) simp
qed

section \<open>Copying to user addresses\<close>

text \<open>The kernel address of the byte a user address translates to.\<close>

definition user_frame :: "mem \<Rightarrow> uint32 \<Rightarrow> uint32 \<Rightarrow> uint32" where
  "user_frame m d va = P2V (PTE_ADDR (pte_of m d va))"

definition user_addr :: "mem \<Rightarrow> uint32 \<Rightarrow> uint32 \<Rightarrow> uint32" where
  "user_addr m d va = user_frame m d va + (va - PGROUNDDOWN va)"

definition user_ok :: "mem \<Rightarrow> uint32 \<Rightarrow> uint32 \<Rightarrow> bool" where
  "user_ok m d va \<longleftrightarrow> pte_of m d va AND PTE_P \<noteq> 0 \<and> pte_of m d va AND PTE_U \<noteq> 0
     \<and> user_frame m d va \<noteq> 0 \<and> user_frame m d va \<notin> pt_pages m d"

lemma user_frame_aligned [simp]: "aligned 12 (user_frame m d va)"
  by (simp add: user_frame_def aligned_P2V)

lemma pte_of_page: "PGROUNDDOWN va = PGROUNDDOWN vb \<Longrightarrow> pte_of m d va = pte_of m d vb"
  using dir_cong(2,3) [of va vb m d] by (simp add: page_index_eq pte_of_def)

lemma PGROUNDDOWN_idem [simp]: "PGROUNDDOWN (PGROUNDDOWN va) = PGROUNDDOWN va"
  by (simp add: PGROUNDDOWN_aligned)

lemma walk_pte:
  assumes "pt_wf (memory s) d" "pte_of (memory s) d va \<noteq> 0"
  shows "has_table (memory s) d va" "walkpgdir d va al s = Done (pte_addr (memory s) d va) s"
    "pte_addr (memory s) d va \<noteq> 0" "load32 (memory s) (pte_addr (memory s) d va) = pte_of (memory s) d va"
proof -
  show h: "has_table (memory s) d va" using assms(2) by (auto simp: pte_of_def split: if_splits)
  show "walkpgdir d va al s = Done (pte_addr (memory s) d va) s" by (rule walk_found [OF h])
  show "pte_addr (memory s) d va \<noteq> 0" by (rule pte_addr_nonzero [OF assms(1) h])
  show "load32 (memory s) (pte_addr (memory s) d va) = pte_of (memory s) d va"
    using h by (simp add: pte_of_def pte_addr_def)
qed

lemma uva2ka_run:
  assumes "pt_wf (memory s) d" "user_ok (memory s) d va"
  shows "uva2ka d va s = Done (user_frame (memory s) d va) s"
proof -
  have "pte_of (memory s) d va \<noteq> 0" using assms(2) by (auto simp: user_ok_def)
  note w = walk_pte [OF assms(1) this]
  show ?thesis using assms(2) w by (simp add: uva2ka_def kmonad pld_def ld32_def user_ok_def user_frame_def)
qed

lemma uva2ka_no_table:
  assumes "\<not> has_table (memory s) d va"
  shows "uva2ka d va s = Fault"
  using walk_missing [OF assms] by (simp add: uva2ka_def kmonad pld_def)

lemma user_addr_page:
  assumes "unat (va - PGROUNDDOWN va) + k < 4096"
  shows "PGROUNDDOWN (va + of_nat k) = PGROUNDDOWN va"
    "user_addr m d (va + of_nat k) = user_frame m d va + (va - PGROUNDDOWN va) + of_nat k"
proof -
  have "unat (va - PGROUNDDOWN va + of_nat k) < 4096"
    using assms by (simp add: unat_word_ariths unat_of_nat)
  then have "PGROUNDDOWN (PGROUNDDOWN va + (va - PGROUNDDOWN va + of_nat k)) = PGROUNDDOWN va"
    by (intro PGROUNDDOWN_add) simp_all
  then show pg: "PGROUNDDOWN (va + of_nat k) = PGROUNDDOWN va" by (simp add: algebra_simps)
  show "user_addr m d (va + of_nat k) = user_frame m d va + (va - PGROUNDDOWN va) + of_nat k"
    unfolding user_addr_def user_frame_def pg pte_of_page [OF pg] by (simp add: algebra_simps)
qed

lemma user_frame_frame:
  assumes "changes_only {user_frame m d va} m m'" "pt_wf m d" "user_ok m d va"
  shows "pte_of m' d vb = pte_of m d vb" "user_addr m' d vb = user_addr m d vb" "user_ok m' d vb = user_ok m d vb" "pt_wf m' d"
proof -
  have dis: "pt_pages m d \<inter> {user_frame m d va} = {}" using assms(3) by (auto simp: user_ok_def)
  note fr = pt_frame(4) [OF assms(1,2) dis] and fw = pt_wf_frame [OF assms(1,2) dis]
  show "pte_of m' d vb = pte_of m d vb" "user_addr m' d vb = user_addr m d vb" "user_ok m' d vb = user_ok m d vb" "pt_wf m' d"
    using fw by (simp_all add: fr user_addr_def user_frame_def user_ok_def)
qed

lemma changes_only_store_bytes:
  assumes "aligned 12 p" "unat off + length bs \<le> 4096"
  shows "changes_only {p} m (store_bytes m (p + off) bs)"
  using in_range_page_part [OF assms] assms(2) by (auto simp: changes_only_def store_bytes_apply)

lemma copyout_run:
  assumes "pt_wf (memory s) d" "unat va + length buf \<le> 2 ^ 32"
    "\<And>i. i < length buf \<Longrightarrow> user_ok (memory s) d (va + of_nat i)"
    "inj_on (\<lambda>i. user_addr (memory s) d (va + of_nat i)) {..<length buf}"
  shows "\<exists>m'. copyout d va buf s = Done 0 (s\<lparr>memory := m'\<rparr>)
     \<and> (\<forall>i < length buf. m' (user_addr (memory s) d (va + of_nat i)) = buf ! i)
     \<and> (\<forall>x. (\<forall>i < length buf. x \<noteq> user_addr (memory s) d (va + of_nat i)) \<longrightarrow> m' x = memory s x)"
  using assms
proof (induction "length buf" arbitrary: va buf s rule: less_induct)
  case less
  show ?case
  proof (cases "buf = []")
    case True
    then show ?thesis by (subst copyout.simps) (auto intro!: exI [of _ "memory s"])
  next
    case False
    let ?m = "memory s" and ?va0 = "PGROUNDDOWN va"
    let ?off = "va - ?va0" and ?ua = "\<lambda>i. user_addr (memory s) d (va + of_nat i)"
    define n where "n = min (4096 - unat ?off) (length buf)"
    have off: "unat ?off < 4096" by (rule page_offset_less)
    have n: "0 < n" "n \<le> length buf" "unat ?off + n \<le> 4096" using False off by (auto simp: n_def)
    have ok: "user_ok ?m d va" using less.prems(3) [of 0] False by simp
    have okp: "user_ok ?m d ?va0" using ok pte_of_page [of va ?va0 ?m d] by (simp add: user_ok_def user_frame_def)
    have frame: "user_frame ?m d ?va0 = user_frame ?m d va" using pte_of_page [of va ?va0 ?m d] by (simp add: user_frame_def)
    let ?m1 = "store_bytes ?m (user_frame ?m d va + ?off) (take n buf)"
    let ?s1 = "s\<lparr>memory := ?m1\<rparr>"
    have co: "changes_only {user_frame ?m d va} ?m ?m1"
      using n by (intro changes_only_store_bytes) simp_all
    note same = user_frame_frame [OF co less.prems(1) ok]
    have ua: "?ua i = user_frame ?m d va + ?off + of_nat i" if "i < n" for i
      using user_addr_page(2) [of va i ?m d] that n by simp
    have m1: "?m1 (?ua i) = buf ! i" if "i < n" for i
      using that n by (subst store_bytes_apply) (auto simp: ua in_range_def unat_of_nat)
    have m1o: "?m1 x = ?m x" if "\<And>i. i < n \<Longrightarrow> x \<noteq> ?ua i" for x
    proof (cases "in_range (user_frame ?m d va + ?off) n x")
      case True
      then have "x = user_frame ?m d va + ?off + of_nat (unat (x - (user_frame ?m d va + ?off)))" by simp
      then show ?thesis using that True ua unfolding in_range_def by metis
    next
      case False
      then show ?thesis using n by (subst store_bytes_apply) simp_all
    qed
    have step: "copyout d va buf s = copyout d (?va0 + PGSIZE) (drop n buf) ?s1"
      using False okp uva2ka_run [OF less.prems(1) okp] unfolding frame
      by (subst copyout.simps) (simp add: Let_def kmonad upd_memory_def n_def frame user_ok_def)
    show ?thesis
    proof (cases "n = length buf")
      case True
      then have "copyout d va buf s = Done 0 ?s1" by (simp add: step) (simp add: copyout.simps)
      then show ?thesis using m1 m1o True by auto
    next
      case False
      then have n4: "n = 4096 - unat ?off" "n < length buf" by (auto simp: n_def)
      have "of_nat n = 4096 - ?off" using n4(1) off by (simp add: of_nat_diff)
      then have next_va: "?va0 + PGSIZE = va + of_nat n" by (simp add: algebra_simps)
      have shift: "?va0 + PGSIZE + of_nat j = va + of_nat (n + j)" for j by (simp add: next_va)
      have len: "unat (?va0 + PGSIZE) + length (drop n buf) \<le> 2 ^ 32"
        using less.prems(2) n4(2) unfolding next_va by (simp add: unat_word_ariths unat_of_nat)
      have oks: "user_ok (memory ?s1) d (?va0 + PGSIZE + of_nat j)" if "j < length (drop n buf)" for j
        using less.prems(3) [of "n + j"] that unfolding shift by (simp add: same(3))
      have inj: "inj_on (\<lambda>j. user_addr (memory ?s1) d (?va0 + PGSIZE + of_nat j)) {..<length (drop n buf)}"
      proof (rule inj_onI)
        fix j k
        assume jk: "j \<in> {..<length (drop n buf)}" "k \<in> {..<length (drop n buf)}"
          "user_addr (memory ?s1) d (?va0 + PGSIZE + of_nat j) = user_addr (memory ?s1) d (?va0 + PGSIZE + of_nat k)"
        then have "?ua (n + j) = ?ua (n + k)" unfolding shift by (simp add: same(2) del: of_nat_add)
        then show "j = k" using inj_onD [OF less.prems(4), of "n + j" "n + k"] jk(1,2) by auto
      qed
      have sh: "length (drop n buf) < length buf" using n(1) n4(2) by simp
      obtain m' where m': "copyout d (?va0 + PGSIZE) (drop n buf) ?s1 = Done 0 (?s1\<lparr>memory := m'\<rparr>)"
          "\<And>j. j < length buf - n \<Longrightarrow> m' (?ua (n + j)) = buf ! (n + j)"
          "\<And>x. (\<forall>j < length buf - n. x \<noteq> ?ua (n + j)) \<Longrightarrow> m' x = ?m1 x"
        using less.hyps [OF sh _ len oks inj] same(4) unfolding shift by (auto simp: same(2))
      have old: "m' (?ua i) = buf ! i" if "i < n" for i
      proof -
        have "?ua i \<noteq> ?ua (n + j)" if "j < length buf - n" for j
          using inj_onD [OF less.prems(4), of i "n + j"] \<open>i < n\<close> that n(2) by fastforce
        then show ?thesis using m'(3) [of "?ua i"] m1 [OF that] by simp
      qed
      have "m' (?ua i) = buf ! i" if "i < length buf" for i
        using old [of i] m'(2) [of "i - n"] that by (cases "i < n") auto
      moreover have "m' x = ?m x" if "\<forall>i < length buf. x \<noteq> ?ua i" for x
      proof -
        have "\<forall>j < length buf - n. x \<noteq> ?ua (n + j)" using that by (metis add.commute less_diff_conv)
        then show ?thesis using m'(3) [of x] m1o [of x] that n4(2) by simp
      qed
      ultimately show ?thesis using m'(1) step by auto
    qed
  qed
qed

section \<open>The write fault on a shared page\<close>

text \<open>A process that owns its address space and faults on a present, user-accessible, write-protected
  page whose frame is a page of the allocator.\<close>

definition cow_ready :: "'a kproc_scheme \<Rightarrow> nat \<Rightarrow> uint32 \<Rightarrow> bool" where
  "cow_ready s p va \<longleftrightarrow> (let d = pgdir (ptable s ! p) in
     kmem_inv s \<and> pt_ok s d \<and> lock_ok L_kmem s \<and> p < length (ptable s) \<and> va < KERNBASE \<and> KERNBASE \<le> kend s
     \<and> user_ok (memory s) d va \<and> pte_of (memory s) d va AND PTE_W = 0
     \<and> valid_page s (user_frame (memory s) d va) \<and> user_frame (memory s) d va \<notin> set (free_pages s))"

lemma frame_phys: "V2P (user_frame m d va) = PTE_ADDR (pte_of m d va)"
  by (simp add: user_frame_def)

lemma valid_phys:
  assumes "valid_page s v" "KERNBASE \<le> kend s"
  shows "V2P (kend s) \<le> V2P v" "V2P v < PHYSTOP"
proof -
  have v: "kend s \<le> v" "V2P v < PHYSTOP" using assms(1) by (auto simp: valid_page_def)
  then show "V2P v < PHYSTOP" by simp
  have "unat (V2P v) = unat v - 0x80000000" "unat (V2P (kend s)) = unat (kend s) - 0x80000000"
    using assms(2) v(1) unfolding V2P_def by (subst of_nat_unat_sub; simp add: word_le_nat_alt)+
  then show "V2P (kend s) \<le> V2P v" using v(1) by (simp add: word_le_nat_alt)
qed

lemma write_fault_steps:
  assumes "cow_ready s p va"
  defines "d \<equiv> pgdir (ptable s ! p)" and "v \<equiv> pte_of (memory s) (pgdir (ptable s ! p)) va"
  shows "write_fault p va s = (let a = pte_addr (memory s) d va; r = pc_sh (kmem s) (drop_bit 12 (PTE_ADDR v)) in
     if r = 1 then st32 a (v OR PTE_W) s
     else if r > 1 then
       kbind kalloc (\<lambda>mem.
       if mem = 0 then upd_proc p (\<lambda>q. q\<lparr>killed := 1\<rparr>) else
       kseq (upd_memory (\<lambda>m. memmove m mem (P2V (PTE_ADDR v)) PGSIZE)) (
       kseq (st32 a (V2P mem OR PTE_P OR PTE_U OR PTE_W)) (
       red_page_share (PTE_ADDR v)))) s
     else Panic ''page fault. Wrong share count error.'')"
proof -
  have c: "pt_wf (memory s) d" "lock_ok L_kmem s" "\<not> va \<ge> KERNBASE" "v AND PTE_P \<noteq> 0" "v AND PTE_U \<noteq> 0" "v AND PTE_W = 0"
    "valid_page s (user_frame (memory s) d va)" "KERNBASE \<le> kend s"
    using assms(1) unfolding cow_ready_def Let_def user_ok_def pt_ok_def d_def v_def by auto
  have "pte_of (memory s) d va \<noteq> 0" using c(4) by (auto simp: d_def v_def)
  note w = walk_pte [OF c(1) this]
  note ph = valid_phys [OF c(7,8), unfolded frame_phys]
  have sh: "get_page_share (PTE_ADDR v) s = Done (pc_sh (kmem s) (drop_bit 12 (PTE_ADDR v))) s"
    using get_page_share_run [OF c(2) ph] by (simp add: d_def v_def)
  have nk: "(KERNBASE \<le> va) = False" using c(3) by simp
  have vv: "pte_of (memory s) d va = v" by (simp add: d_def v_def)
  have dd: "get_proc p pgdir s = Done d s" by (simp add: get_proc_def d_def)
  have ld: "ld32 (pte_addr (memory s) d va) s = Done v s" by (simp add: ld32_def w(4) vv)
  show ?thesis
    unfolding write_fault_def Let_def nk if_False using w(3) c(4-6) by (simp add: kmonad dd w(2) ld sh)
qed

text \<open>With one share left the page simply becomes writable.\<close>

lemma write_fault_last:
  assumes "cow_ready s p va" "snd (pool s) (user_frame (memory s) (pgdir (ptable s ! p)) va) = 1"
  defines "d \<equiv> pgdir (ptable s ! p)"
  shows "\<exists>t. write_fault p va s = Done () t \<and> pt_extends d s t
     \<and> (\<forall>vb. pte_of (memory t) d vb = (if PGROUNDDOWN vb = PGROUNDDOWN va then pte_of (memory s) d va OR PTE_W else pte_of (memory s) d vb))
     \<and> pool t = pool s \<and> changes_only (pt_pages (memory s) d) (memory s) (memory t)"
proof -
  let ?v = "pte_of (memory s) d va"
  have c: "kmem_inv s" "pt_ok s d" "?v AND PTE_P \<noteq> 0" "valid_page s (user_frame (memory s) d va)"
    using assms(1) unfolding cow_ready_def Let_def user_ok_def d_def by auto
  have wf: "pt_wf (memory s) d" using c(2) by (simp add: pt_ok_def)
  have "?v \<noteq> 0" using c(3) by auto
  note w = walk_pte [OF wf this]
  have "unat (pc_sh (kmem s) (drop_bit 12 (PTE_ADDR ?v))) = 1"
    using assms(2) c(4) by (simp add: pool_def page_refs_def frame_phys d_def)
  then have one: "pc_sh (kmem s) (drop_bit 12 (PTE_ADDR ?v)) = 1" by (metis unat_1 word_unat_eq_iff)
  let ?t = "s\<lparr>memory := store32 (memory s) (pte_addr (memory s) d va) (?v OR PTE_W)\<rparr>"
  note sp = set_pte [OF wf w(1), of "?v OR PTE_W"]
  have run: "write_fault p va s = Done () ?t"
    using write_fault_steps [OF assms(1)] one by (simp add: Let_def st32_def upd_memory_def d_def)
  have "{table_of (memory s) d va} \<inter> set (free_pages s) = {}"
    using c(2) table_in_pages [OF w(1)] by (auto simp: pt_ok_def)
  note km = kmem_inv_memory [OF c(1) sp(7) this]
  have "changes_only (pt_pages (memory s) d) (memory s) (memory ?t)"
    using changes_only_mono [OF sp(7)] table_in_pages [OF w(1)] by simp
  then show ?thesis
    using run pt_extends_set_pte [OF c(1,2) w(1)] km(2) sp(4) by (intro exI [of _ ?t]) simp
qed

lemma valid_page_bound:
  assumes "valid_page s v" "KERNBASE \<le> kend s"
  shows "0x80000000 \<le> unat v" "unat v < 0x8E000000"
proof -
  have v: "kend s \<le> v" "V2P v < PHYSTOP" using assms(1) by (auto simp: valid_page_def)
  then show b: "0x80000000 \<le> unat v" using assms(2) by (simp add: word_le_nat_alt)
  have "unat (V2P v) = unat v - 0x80000000" unfolding V2P_def using b by (subst of_nat_unat_sub) simp_all
  then show "unat v < 0x8E000000" using v(2) by (simp add: word_less_nat_alt)
qed

lemma memmove_page:
  assumes "valid_page s p" "valid_page s q" "KERNBASE \<le> kend s"
  shows "memmove m p q PGSIZE = mem_copy m p q 4096"
  using valid_page_bound [OF assms(1,3)] valid_page_bound [OF assms(2,3)] by (subst memmove_mem_copy) simp_all

text \<open>With more shares the process gets a private copy.\<close>

lemma write_fault_shared:
  assumes "cow_ready s p va" "1 < snd (pool s) (user_frame (memory s) (pgdir (ptable s ! p)) va)" "free_pages s = q # ps"
  defines "d \<equiv> pgdir (ptable s ! p)" and "v \<equiv> user_frame (memory s) (pgdir (ptable s ! p)) va"
  shows "\<exists>t. write_fault p va s = Done () t \<and> kmem_inv t \<and> pt_ok t d \<and> same_machine s t
     \<and> (\<forall>vb. pte_of (memory t) d vb = (if PGROUNDDOWN vb = PGROUNDDOWN va then V2P q OR PTE_P OR PTE_U OR PTE_W else pte_of (memory s) d vb))
     \<and> pool t = (ps, (snd (pool s))(q := 1, v := snd (pool s) v - 1))
     \<and> (\<forall>i. unat i < 4096 \<longrightarrow> memory t (q + i) = memory s (v + i))
     \<and> changes_only (insert q (pt_pages (memory s) d)) (memory s) (memory t)
     \<and> pt_pages (memory t) d = pt_pages (memory s) d"
proof -
  let ?v = "pte_of (memory s) d va" and ?m = "memory s" and ?e = "V2P q OR PTE_P OR PTE_U OR PTE_W"
  have c: "kmem_inv s" "pt_ok s d" "?v AND PTE_P \<noteq> 0" "valid_page s v" "KERNBASE \<le> kend s" "lock_ok L_kmem s"
      "v \<notin> set (free_pages s)" "v \<notin> pt_pages ?m d"
    using assms(1) unfolding cow_ready_def Let_def user_ok_def d_def v_def by auto
  have wf: "pt_wf ?m d" using c(2) by (simp add: pt_ok_def)
  have "?v \<noteq> 0" using c(3) by auto
  note w = walk_pte [OF wf this]
  have q: "valid_page s q" "q \<notin> set ps" "q \<noteq> 0" "q \<noteq> v" "q \<notin> pt_pages ?m d"
    using c(1,2,7) assms(3) valid_page_nonzero [of s q] by (auto simp: kmem_inv_def pt_ok_def)
  have al: "aligned 12 q" "aligned 12 v" using q(1) c(4) by (auto simp: valid_page_def)
  let ?i = "drop_bit 12 (PTE_ADDR ?v)"
  have iv: "?i = drop_bit 12 (V2P v)" by (simp add: v_def d_def frame_phys)
  have big: "1 < unat (pc_sh (kmem s) ?i)" using assms(2) c(4) by (simp add: pool_def page_refs_def iv v_def)
  then have r: "pc_sh (kmem s) ?i \<noteq> 1" "pc_sh (kmem s) ?i > 1" by (auto simp: word_less_nat_alt)
  obtain t1 where t1: "kalloc s = Done q t1" "pool t1 = (ps, (snd (pool s))(q := 1))" "kmem_inv t1"
      "same_machine s t1" "memory t1 = ?m"
    using kalloc_pool [OF c(1)] assms(3) by (auto simp: pool_def [of s])
  have fp1: "free_pages t1 = ps" using t1(2) by (simp add: pool_def)
  define m1 where "m1 = mem_copy ?m q v 4096"
  define m2 where "m2 = store32 m1 (pte_addr ?m d va) ?e"
  have co1: "changes_only {q} ?m m1" unfolding m1_def by (rule changes_only_copy [OF al(1)]) simp
  have dis: "pt_pages ?m d \<inter> {q} = {}" using q(5) by auto
  note fr = pt_frame [OF co1 wf dis] and fw = pt_wf_frame [OF co1 wf dis]
  have pa: "pte_addr ?m d va = pte_addr m1 d va" by (simp add: pte_addr_def fr)
  have h1: "has_table m1 d va" using w(1) fr(2) by simp
  note sp = set_pte [OF fw(1) h1, of ?e, folded pa, folded m2_def]
  have co2: "changes_only (insert q (pt_pages ?m d)) ?m m2"
    using changes_only_mono [OF co1, of "insert q (pt_pages ?m d)"] changes_only_mono [OF sp(7), of "insert q (pt_pages ?m d)"]
      table_in_pages [OF h1] fw(2) changes_only_step by blast
  let ?t2 = "t1\<lparr>memory := m2\<rparr>"
  have "insert q (pt_pages ?m d) \<inter> set (free_pages t1) = {}"
    using q(2) c(2) assms(3) fp1 by (auto simp: pt_ok_def)
  note km = kmem_inv_memory [OF t1(3), of _ m2, unfolded t1(5), OF co2 this]
  have sm2: "same_machine s ?t2" using t1(4) by (rule same_machine_upd)
  have v2: "valid_page ?t2 v" "v \<notin> set (free_pages ?t2)" using c(4,7) same_machine_valid [OF sm2] km(3) fp1 assms(3) by auto
  let ?c = "pc_sh (kmem ?t2) (drop_bit 12 (V2P v)) - 1"
  define t where "t = ?t2\<lparr>kmem := (kmem ?t2)\<lparr>pc_sh := (pc_sh (kmem ?t2))(drop_bit 12 (V2P v) := ?c)\<rparr>\<rparr>"
  note su = share_update_inv [OF km(1) v2, of ?c, folded t_def]
  have old: "pc_sh (kmem ?t2) (drop_bit 12 (V2P v)) = pc_sh (kmem s) ?i"
  proof -
    have "snd (pool t1) v = snd (pool s) v" using t1(2) q(4) by simp
    then have "unat (pc_sh (kmem t1) (drop_bit 12 (V2P v))) = unat (pc_sh (kmem s) (drop_bit 12 (V2P v)))"
      using c(4) same_machine_valid [OF t1(4)] by (simp add: pool_def page_refs_def)
    then show ?thesis by (simp add: iv word_unat_eq_iff)
  qed
  have cnt: "unat ?c = snd (pool s) v - 1"
    using big c(4) unfolding old by (simp add: pool_def page_refs_def iv unat_sub word_le_nat_alt)
  have "red_page_share (PTE_ADDR ?v) ?t2 = Done () t"
  proof -
    have k: "kend ?t2 = kend s" "lock_ok L_kmem ?t2" using same_machine_regs [OF sm2] c(6) by auto
    have "PTE_ADDR ?v = V2P v" by (simp add: v_def d_def frame_phys)
    then show ?thesis
      using red_page_share_run [OF k(2), of "V2P v"] valid_phys [OF c(4,5)] k(1) by (simp add: t_def)
  qed
  moreover have "memmove ?m q (P2V (PTE_ADDR ?v)) PGSIZE = m1"
    using memmove_page [OF q(1) c(4,5)] by (simp add: m1_def v_def d_def user_frame_def)
  ultimately have run: "write_fault p va s = Done () t"
    using write_fault_steps [OF assms(1)] r t1(1,5) q(3)
    by (simp add: kmonad Let_def st32_def upd_memory_def d_def [symmetric] m2_def)
  have sm: "same_machine s t" using sm2 unfolding t_def same_machine_def by simp
  have mt: "memory t = m2" by (simp add: t_def)
  have fp: "free_pages t = ps" using su(2) km(3) fp1 by (simp add: pool_def)
  have "pt_ok t d"
    using c(2) sp(5,6) fw(2) assms(3) unfolding pt_ok_def mt fp by (auto simp: same_machine_valid [OF sm])
  moreover have "memory t (q + i) = memory s (v + i)" if "unat i < 4096" for i
  proof -
    have "PGROUNDDOWN (q + i) = q" by (rule PGROUNDDOWN_add [OF al(1) that])
    then have "m2 (q + i) = m1 (q + i)" using sp(7) table_in_pages [OF h1] fw(2) q(5)
      unfolding changes_only_def by (metis singletonD)
    then show ?thesis using that by (simp add: mt m1_def mem_copy_apply in_range_def)
  qed
  moreover have "pool t = (ps, (snd (pool s))(q := 1, v := snd (pool s) v - 1))"
    using su(2) km(2,3) t1(2) fp1 cnt by simp
  ultimately show ?thesis
    using run su(1) sm sp(4,6) fr(4) fw(2) co2 mt by (intro exI [of _ t]) simp
qed

lemma write_fault_oom:
  assumes "cow_ready s p va" "1 < snd (pool s) (user_frame (memory s) (pgdir (ptable s ! p)) va)" "free_pages s = []"
  shows "write_fault p va s = upd_proc p (\<lambda>q. q\<lparr>killed := 1\<rparr>) s"
proof -
  let ?v = "pte_of (memory s) (pgdir (ptable s ! p)) va"
  have c: "kmem_inv s" "valid_page s (user_frame (memory s) (pgdir (ptable s ! p)) va)"
    using assms(1) unfolding cow_ready_def Let_def by auto
  have "1 < unat (pc_sh (kmem s) (drop_bit 12 (PTE_ADDR ?v)))"
    using assms(2) c(2) by (simp add: pool_def page_refs_def frame_phys)
  then have "pc_sh (kmem s) (drop_bit 12 (PTE_ADDR ?v)) \<noteq> 1" "1 < pc_sh (kmem s) (drop_bit 12 (PTE_ADDR ?v))"
    by (auto simp: word_less_nat_alt)
  then show ?thesis
    using write_fault_steps [OF assms(1)] kalloc_empty [OF c(1) assms(3)] by (simp add: Let_def kmonad)
qed

end
