(* ===== verification/CopyUvm.thy ===== *)
theory CopyUvm
  imports AddrSpace
begin

text \<open>\<open>copyuvm\<close>: the loops that share the text and the stack of a parent with its child.\<close>

section \<open>Sharing an address space\<close>

lemma pte_split: "PTE_ADDR v OR PTE_FLAGS v = v"
  unfolding PTE_ADDR_def PTE_FLAGS_def by (rule bit_word_eqI) (auto simp: bit_simps)

lemma pte_share:
  assumes "v AND PTE_P \<noteq> 0"
  defines "w \<equiv> v AND NOT PTE_W"
  shows "PTE_ADDR w OR PTE_FLAGS w OR PTE_P = w" "PTE_ADDR w = PTE_ADDR v" "w AND PTE_P \<noteq> 0" "w AND PTE_W = 0"
proof -
  have "bit v 0" using assms(1) by (metis and_one_eq bit_0 even_iff_mod_2_eq_zero one_mod_2_pow_eq)
  then have b: "bit w 0" by (simp add: w_def bit_simps)
  show "PTE_ADDR w OR PTE_FLAGS w OR PTE_P = w"
    unfolding or.assoc [symmetric] pte_split using b by (intro bit_word_eqI) (auto simp: bit_simps)
  show "PTE_ADDR w = PTE_ADDR v" unfolding PTE_ADDR_def w_def by (rule bit_word_eqI) (auto simp: bit_simps)
  show "w AND PTE_P \<noteq> 0" using b by (metis bit_0 and_one_eq odd_iff_mod_2_eq_one zero_neq_one)
  show "w AND PTE_W = 0" unfolding w_def by (rule bit_word_eqI) (auto simp: bit_simps)
qed

lemma span_page: "aligned 12 i \<Longrightarrow> span i PGSIZE = 0"
  using span_aligned [of i PGSIZE] by simp

lemma same_machine_kmem:
  assumes "same_machine s t" "use_lock k = use_lock (kmem t)"
  shows "same_machine s (t\<lparr>kmem := k\<rparr>)"
proof -
  have "t = s\<lparr>memory := memory t, kmem := kmem t\<rparr>" using assms(1) by (simp add: same_machine_def)
  then have "t\<lparr>kmem := k\<rparr> = s\<lparr>memory := memory t, kmem := kmem t\<rparr>\<lparr>kmem := k\<rparr>" by (rule arg_cong)
  then show ?thesis using assms by (simp add: same_machine_def)
qed

text \<open>Parent \<open>g\<close> and child \<open>d\<close> side by side, with memory for the tables \<open>K\<close> of the child.\<close>

definition both_ok :: "uint32 \<Rightarrow> uint32 \<Rightarrow> uint32 set \<Rightarrow> 'a kheap_scheme \<Rightarrow> bool" where
  "both_ok g d K s \<longleftrightarrow> kmem_inv s \<and> lock_ok L_kmem s \<and> KERNBASE \<le> kend s \<and> pt_ok s g \<and> pt_ok s d
     \<and> pt_pages (memory s) d \<inter> pt_pages (memory s) g = {}
     \<and> tables (memory s) d \<subseteq> K \<and> card (K - tables (memory s) d) \<le> length (free_pages s)"

text \<open>A page of the parent that can be shared: present, not yet in the child, in a frame of the
  allocator that is in use and whose count does not overflow.\<close>

definition shareable :: "uint32 \<Rightarrow> uint32 \<Rightarrow> uint32 set \<Rightarrow> 'a kheap_scheme \<Rightarrow> uint32 \<Rightarrow> bool" where
  "shareable g d K s vb \<longleftrightarrow> PDX vb \<in> K \<and> pte_of (memory s) g vb AND PTE_P \<noteq> 0 \<and> pte_of (memory s) d vb AND PTE_P = 0
     \<and> pte_of (memory s) g vb AND PTE_PG = 0 \<and> valid_page s (user_frame (memory s) g vb) \<and> user_frame (memory s) g vb \<notin> set (free_pages s)
     \<and> snd (pool s) (user_frame (memory s) g vb) < 65535"

lemma share_page_run:
  assumes ok: "both_ok g d K s" and sh: "shareable g d K s i" and al: "aligned 12 i"
  defines "v \<equiv> pte_of (memory s) g i" and "f \<equiv> user_frame (memory s) g i"
  shows "\<exists>t. share_page d (pte_addr (memory s) g i) i s = Done True t \<and> both_ok g d K t \<and> same_machine s t
     \<and> (\<forall>vb. pte_of (memory t) g vb = (if PGROUNDDOWN vb = i then v AND NOT PTE_W else pte_of (memory s) g vb))
     \<and> (\<forall>vb. pte_of (memory t) d vb = (if PGROUNDDOWN vb = i then v AND NOT PTE_W else pte_of (memory s) d vb))
     \<and> set (free_pages t) \<subseteq> set (free_pages s)
     \<and> (\<forall>x. x \<notin> set (free_pages s) \<longrightarrow> snd (pool t) x = snd (pool s) x + (if x = f then 1 else 0))
     \<and> changes_only (pt_pages (memory s) g \<union> pt_pages (memory s) d \<union> set (free_pages s)) (memory s) (memory t)
     \<and> pt_pages (memory t) g \<union> pt_pages (memory t) d \<union> set (free_pages t)
         \<subseteq> pt_pages (memory s) g \<union> pt_pages (memory s) d \<union> set (free_pages s)"
proof -
  let ?m = "memory s"
  define w where "w = v AND NOT PTE_W"
  have c: "kmem_inv s" "lock_ok L_kmem s" "KERNBASE \<le> kend s" "pt_ok s g" "pt_ok s d" "pt_pages ?m d \<inter> pt_pages ?m g = {}"
      "tables ?m d \<subseteq> K" "card (K - tables ?m d) \<le> length (free_pages s)"
    using ok by (auto simp: both_ok_def)
  have p: "PDX i \<in> K" "v AND PTE_P \<noteq> 0" "pte_of ?m d i AND PTE_P = 0" "valid_page s f" "f \<notin> set (free_pages s)" "snd (pool s) f < 65535"
    using sh by (auto simp: shareable_def v_def f_def)
  have wf: "pt_wf ?m g" "pt_wf ?m d" using c(4,5) by (auto simp: pt_ok_def)
  have "pte_of ?m g i \<noteq> 0" using p(2) by (auto simp: v_def)
  note wk = walk_pte [OF wf(1) this]
  note pw = pte_share [OF p(2), folded w_def]
  let ?s1 = "s\<lparr>memory := store32 ?m (pte_addr ?m g i) w\<rparr>"
  note sp = set_pte [OF wf(1) wk(1), of w]
  have e1: "pt_extends g s ?s1" by (rule pt_extends_set_pte [OF c(1,4) wk(1)])
  have dis: "pt_pages ?m g \<inter> pt_pages ?m d = {}" using c(6) by blast
  note o1 = pt_extends_other [OF e1 c(5) dis]
  have fr: "{table_of ?m g i} \<inter> set (free_pages s) = {}" using c(4) table_in_pages [OF wk(1)] by (auto simp: pt_ok_def)
  note km = kmem_inv_memory [OF c(1) sp(7) fr]
  have tab: "tables (memory ?s1) d = tables ?m d" using o1(2) by (simp add: tables_def)
  have mi: "map_inv d K ?s1 ?s1"
    using pt_extends_refl [OF km(1) o1(4)] c(7,8) tab km(3) by (simp add: map_inv_def)
  have cov: "covers i PGSIZE vb \<longleftrightarrow> PGROUNDDOWN vb = i" for vb
    unfolding covers_def span_page [OF al] PGROUNDDOWN_aligned [OF al] using in_page_iff [OF al] by simp
  have pre: "PDX vb \<in> K \<and> pte_of (memory ?s1) d vb AND PTE_P = 0" if "covers i PGSIZE vb" for vb
  proof -
    have pg: "PGROUNDDOWN vb = PGROUNDDOWN i" using that cov PGROUNDDOWN_aligned [OF al] by simp
    then show ?thesis using p(1,3) o1(1) [of vb] pte_of_page [OF pg, of ?m d] by (simp add: page_index_eq)
  qed
  obtain s2 where s2: "mappages d i PGSIZE (PTE_ADDR w) (PTE_FLAGS w) ?s1 = Done 0 s2" "map_inv d K ?s1 s2"
     "pte_of (memory s2) d = (\<lambda>vb. if PGROUNDDOWN vb = i then range_pte i (PTE_ADDR w) (PTE_FLAGS w) vb else pte_of (memory ?s1) d vb)"
    using kmapper.map_law [OF mi, where va = i and len = PGSIZE and pa = "PTE_ADDR w" and perm = "PTE_FLAGS w", OF pre] unfolding PGROUNDDOWN_aligned [OF al] cov by blast
  have e2: "pt_extends d ?s1 s2" and t2: "tables (memory s2) d \<subseteq> K" "card (K - tables (memory s2) d) \<le> length (free_pages s2)"
    using s2(2) by (auto simp: map_inv_def)
  note x2 = pt_extendsD [OF e2]
  have dis1: "pt_pages (memory ?s1) d \<inter> pt_pages (memory ?s1) g = {}" using o1(6) by blast
  note o2 = pt_extends_other [OF e2 pt_extendsD(2) [OF e1] dis1]
  have sm: "same_machine s s2" using same_machine_trans [OF same_machine_memory x2(3)] .
  have f2: "valid_page s2 f" "f \<notin> set (free_pages s2)" using p(4,5) same_machine_valid [OF sm] x2(4) km(3) by auto
  obtain ps where ps: "free_pages ?s1 = ps @ free_pages s2" "snd (pool s2) = (\<lambda>v. if v \<in> set ps then 1 else snd (pool ?s1) v)"
      "pt_pages (memory s2) d = pt_pages (memory ?s1) d \<union> set ps"
    using e2 unfolding pt_extends_def by blast
  have refs: "snd (pool s2) x = snd (pool s) x" if "x \<notin> set (free_pages s)" for x
    using that ps km(2,3) by auto
  define cnt where "cnt = pc_sh (kmem s2) (drop_bit 12 (V2P f)) + 1"
  define t where "t = s2\<lparr>kmem := (kmem s2)\<lparr>pc_sh := (pc_sh (kmem s2))(drop_bit 12 (V2P f) := cnt)\<rparr>\<rparr>"
  note su = share_update_inv [OF x2(1) f2, of cnt, folded t_def]
  have fc: "unat (pc_sh (kmem s2) (drop_bit 12 (V2P f))) = snd (pool s) f"
    using refs [OF p(5)] f2(1) by (simp add: pool_def page_refs_def)
  then have uc: "unat cnt = snd (pool s) f + 1" using p(6) by (simp add: cnt_def unat_word_ariths)
  have pa: "PTE_ADDR w = V2P f" using pw(2) by (simp add: f_def v_def frame_phys)
  have k2: "kend s2 = kend s" "lock_ok L_kmem s2" using same_machine_regs [OF sm] c(2) by auto
  have add: "add_page_share (PTE_ADDR w) s2 = Done () t"
    using add_page_share_run [OF k2(2), of "V2P f"] valid_phys [OF p(4) c(3)] k2(1) unfolding pa by (simp add: t_def cnt_def)
  have run: "share_page d (pte_addr ?m g i) i s = Done True t"
  proof -
    have "pte_of ?m g i AND - 3 = w" by (simp add: w_def v_def)
    then show ?thesis
      using s2(1) add wk(4) by (simp add: share_page_def kmonad ld32_def st32_def upd_memory_def)
  qed
  have mt: "memory t = memory s2" and ft: "free_pages t = free_pages s2" using su(2) by (simp_all add: t_def pool_def)
  have smt: "same_machine s t" unfolding t_def by (rule same_machine_kmem [OF sm]) simp
  have pok: "pt_ok t g" "pt_ok t d"
    using o2(4) x2(2) unfolding pt_ok_def mt ft by (simp_all add: same_machine_valid [OF smt] same_machine_valid [OF sm])
  have "both_ok g d K t"
    unfolding both_ok_def mt ft using su(1) pok t2 o2(6) same_machine_regs [OF smt] c(2,3) by auto
  moreover have "pte_of (memory t) g vb = (if PGROUNDDOWN vb = i then w else pte_of ?m g vb)" for vb
    using o2(1) [of vb] sp(4) [of vb] PGROUNDDOWN_aligned [OF al] by (simp add: mt)
  moreover have "pte_of (memory t) d vb = (if PGROUNDDOWN vb = i then w else pte_of ?m d vb)" for vb
    using pw(1) o1(1) [of vb] by (simp add: mt s2(3) range_pte_def or.assoc)
  moreover have "snd (pool t) x = snd (pool s) x + (if x = f then 1 else 0)" if "x \<notin> set (free_pages s)" for x
    using su(2) refs [OF that] uc by simp
  moreover have "changes_only (pt_pages ?m g \<union> pt_pages ?m d \<union> set (free_pages s)) ?m (memory t)"
  proof -
    have "changes_only (pt_pages ?m g \<union> pt_pages ?m d \<union> set (free_pages s)) ?m (memory ?s1)"
      by (rule changes_only_mono [OF pt_extendsD(5) [OF e1]]) auto
    moreover have "changes_only (pt_pages ?m g \<union> pt_pages ?m d \<union> set (free_pages s)) (memory ?s1) (memory s2)"
      by (rule changes_only_mono [OF x2(5)]) (use o1(5) km(3) in auto)
    ultimately show ?thesis unfolding mt by (rule changes_only_step)
  qed
  moreover have "pt_pages (memory t) g \<union> pt_pages (memory t) d \<union> set (free_pages t)
         \<subseteq> pt_pages ?m g \<union> pt_pages ?m d \<union> set (free_pages s)"
  proof -
    have pg: "pt_pages (memory t) g = pt_pages ?m g" using o2(5) sp(6) mt by simp
    have pd: "pt_pages (memory t) d = pt_pages ?m d \<union> set ps" using ps(3) o1(5) mt by simp
    have pf: "set (free_pages t) \<subseteq> set (free_pages s)" "set ps \<subseteq> set (free_pages s)"
      using x2(4) km(3) ft arg_cong [OF ps(1), of set] by auto
    show ?thesis unfolding pg pd using pf by blast
  qed
  ultimately show ?thesis
    using run smt x2(4) km(3) ft unfolding w_def [symmetric] by (intro exI [of _ t]) simp
qed

lemma in_range_next:
  assumes "aligned 12 i" "Suc n < 2 ^ 20" "in_range (i + 4096) (4096 * n) vb"
  shows "PGROUNDDOWN vb \<noteq> i" "in_range i (4096 * Suc n) vb"
proof -
  show "in_range i (4096 * Suc n) vb" using in_range_pages [of n i vb] assms(2,3) by simp
  show "PGROUNDDOWN vb \<noteq> i"
  proof
    assume "PGROUNDDOWN vb = i"
    then have v: "unat (vb - i) < 4096" using in_page_iff [OF assms(1), of vb] by (simp add: in_range_def)
    have "unat (vb - (i + 4096)) = unat (vb - i - 4096)" by (simp add: diff_diff_add)
    moreover have "unat (vb - i) + (2 ^ 32 - 4096) = unat (vb - i - 4096)" using v by (simp add: unat_sub_if')
    ultimately show False using assms(2,3) by (simp add: in_range_def)
  qed
qed

text \<open>Both loops of \<open>copyuvm\<close> have this shape: \<open>loop\<close> shares the page at \<open>i\<close> and goes on with the next one
  until it reaches \<open>psz\<close>.\<close>

definition sharing_loop :: "(nat \<Rightarrow> uint32 \<Rightarrow> (bool, 'a kheap_scheme) kop) \<Rightarrow> uint32 \<Rightarrow> uint32 \<Rightarrow> uint32 \<Rightarrow> bool" where
  "sharing_loop loop g d psz \<longleftrightarrow>
     (\<forall>f i s. \<not> i < psz \<longrightarrow> loop (Suc f) i s = Done True s)
     \<and> (\<forall>f i s t. i < psz \<and> pt_wf (memory s) g \<and> pte_of (memory s) g i AND PTE_P \<noteq> 0 \<and> pte_of (memory s) g i AND PTE_PG = 0
          \<and> share_page d (pte_addr (memory s) g i) i s = Done True t \<longrightarrow> loop (Suc f) i s = loop f (i + PGSIZE) t)"

lemma sharing_loop_text: "sharing_loop (\<lambda>f. copyuvm_text f g d psz) g d psz"
  unfolding sharing_loop_def
proof (intro conjI allI impI)
  fix f i and s t :: "'a kheap_scheme"
  assume a: "i < psz \<and> pt_wf (memory s) g \<and> pte_of (memory s) g i AND PTE_P \<noteq> 0 \<and> pte_of (memory s) g i AND PTE_PG = 0
          \<and> share_page d (pte_addr (memory s) g i) i s = Done True t"
  then have "pte_of (memory s) g i \<noteq> 0" by auto
  then show "copyuvm_text (Suc f) g d psz i s = copyuvm_text f g d psz (i + PGSIZE) t"
    using a walk_pte [of s g i] by (simp add: kmonad ld32_def)
qed simp

lemma sharing_loop_stack: "sharing_loop (\<lambda>f. copyuvm_stack f g d) g d USERSTACKTOP"
  unfolding sharing_loop_def
proof (intro conjI allI impI)
  fix f i and s t :: "'a kheap_scheme"
  assume a: "i < USERSTACKTOP \<and> pt_wf (memory s) g \<and> pte_of (memory s) g i AND PTE_P \<noteq> 0 \<and> pte_of (memory s) g i AND PTE_PG = 0
          \<and> share_page d (pte_addr (memory s) g i) i s = Done True t"
  then have "pte_of (memory s) g i \<noteq> 0" by auto
  then show "copyuvm_stack (Suc f) g d i s = copyuvm_stack f g d (i + PGSIZE) t"
    using a walk_pte [of s g i] by (simp add: kmonad ld32_def)
qed simp

text \<open>What such a loop over the \<open>n\<close> pages from \<open>i\<close> on does: parent and child have the same write-protected
  entries there, every frame has one share more, and only tables have been written.\<close>

definition shared_range :: "uint32 \<Rightarrow> uint32 \<Rightarrow> uint32 set \<Rightarrow> uint32 \<Rightarrow> nat \<Rightarrow> 'a kheap_scheme \<Rightarrow> 'a kheap_scheme \<Rightarrow> bool" where
  "shared_range g d K i n s t \<longleftrightarrow> both_ok g d K t \<and> same_machine s t
     \<and> (\<forall>vb. pte_of (memory t) g vb = (if in_range i (4096 * n) vb then pte_of (memory s) g vb AND NOT PTE_W else pte_of (memory s) g vb))
     \<and> (\<forall>vb. pte_of (memory t) d vb = (if in_range i (4096 * n) vb then pte_of (memory s) g vb AND NOT PTE_W else pte_of (memory s) d vb))
     \<and> set (free_pages t) \<subseteq> set (free_pages s)
     \<and> (\<forall>x. x \<notin> set (free_pages s) \<longrightarrow> snd (pool t) x = snd (pool s) x
          + (if \<exists>vb. in_range i (4096 * n) vb \<and> user_frame (memory s) g vb = x then 1 else 0))
     \<and> changes_only (pt_pages (memory s) g \<union> pt_pages (memory s) d \<union> set (free_pages s)) (memory s) (memory t)
     \<and> pt_pages (memory t) g \<union> pt_pages (memory t) d \<union> set (free_pages t)
         \<subseteq> pt_pages (memory s) g \<union> pt_pages (memory s) d \<union> set (free_pages s)"

lemma sharing_loop_run:
  assumes lp: "sharing_loop loop g d psz"
  assumes "both_ok g d K s" "aligned 12 i" "n < fuel" "Suc n < 2 ^ 20"
    "unat psz \<le> unat i + 4096 * n" "n = 0 \<or> unat i + 4096 * n < unat psz + 4096" "unat psz \<le> 0x80000000"
    "\<And>vb. in_range i (4096 * n) vb \<Longrightarrow> shareable g d K s vb"
    "\<And>vb vc. in_range i (4096 * n) vb \<Longrightarrow> in_range i (4096 * n) vc \<Longrightarrow>
       user_frame (memory s) g vb = user_frame (memory s) g vc \<Longrightarrow> PGROUNDDOWN vb = PGROUNDDOWN vc"
  shows "\<exists>t. loop fuel i s = Done True t \<and> shared_range g d K i n s t"
  unfolding shared_range_def
  using assms(2-)
proof (induction n arbitrary: s i fuel)
  case 0
  then have "\<not> i < psz" by (simp add: word_less_nat_alt)
  moreover obtain f where "fuel = Suc f" using "0.prems"(3) by (cases fuel) auto
  ultimately have "loop fuel i s = Done True s" using lp by (simp add: sharing_loop_def)
  then show ?case using "0.prems"(1) by (intro exI [of _ s]) simp
next
  case (Suc n)
  obtain f where f: "fuel = Suc f" using Suc.prems(3) by (cases fuel) auto
  have lt: "i < psz" using Suc.prems(6) by (simp add: word_less_nat_alt)
  have first: "in_range i (4096 * Suc n) vb" if "PGROUNDDOWN vb = i" for vb
    using that in_page_iff [OF Suc.prems(2), of vb] by (simp add: in_range_def)
  have sh: "shareable g d K s i" using Suc.prems(8) first PGROUNDDOWN_aligned [OF Suc.prems(2)] by blast
  have wf: "pt_wf (memory s) g" and nz: "pte_of (memory s) g i AND PTE_P \<noteq> 0"
    using Suc.prems(1) sh by (auto simp: both_ok_def pt_ok_def shareable_def)
  have "pte_of (memory s) g i \<noteq> 0" using nz by auto
  note wk = walk_pte [OF wf this]
  let ?f = "user_frame (memory s) g i"
  obtain t where t: "share_page d (pte_addr (memory s) g i) i s = Done True t" "both_ok g d K t" "same_machine s t"
     "\<And>vb. pte_of (memory t) g vb = (if PGROUNDDOWN vb = i then pte_of (memory s) g i AND NOT PTE_W else pte_of (memory s) g vb)"
     "\<And>vb. pte_of (memory t) d vb = (if PGROUNDDOWN vb = i then pte_of (memory s) g i AND NOT PTE_W else pte_of (memory s) d vb)"
     "set (free_pages t) \<subseteq> set (free_pages s)"
     "\<And>x. x \<notin> set (free_pages s) \<Longrightarrow> snd (pool t) x = snd (pool s) x + (if x = ?f then 1 else 0)"
     "changes_only (pt_pages (memory s) g \<union> pt_pages (memory s) d \<union> set (free_pages s)) (memory s) (memory t)"
     "pt_pages (memory t) g \<union> pt_pages (memory t) d \<union> set (free_pages t)
         \<subseteq> pt_pages (memory s) g \<union> pt_pages (memory s) d \<union> set (free_pages s)"
    using share_page_run [OF Suc.prems(1) sh Suc.prems(2)] by blast
  have step: "loop fuel i s = loop f (i + PGSIZE) t"
    using lp lt wf nz sh t(1) unfolding sharing_loop_def f by (auto simp: shareable_def)
  have bd: "n < f" "Suc n < 2 ^ 20" "unat (i + 4096) = unat i + 4096"
    using Suc.prems(3,4,6,7) f by (simp_all add: unat_word_ariths)
  have al: "aligned 12 (i + 4096)" using Suc.prems(2) by (intro aligned_plus) simp_all
  note nx = in_range_next [OF Suc.prems(2) bd(2)]
  have fr: "user_frame (memory t) g vb = user_frame (memory s) g vb" if "in_range (i + 4096) (4096 * n) vb" for vb
    using nx(1) [OF that] by (simp add: user_frame_def t(4))
  have other: "user_frame (memory s) g vb \<noteq> ?f" if "in_range (i + 4096) (4096 * n) vb" for vb
    using Suc.prems(9) [OF nx(2) [OF that] first, of i] nx(1) [OF that] PGROUNDDOWN_aligned [OF Suc.prems(2)] by auto
  have sh': "shareable g d K t vb" if v: "in_range (i + 4096) (4096 * n) vb" for vb
  proof -
    have sv: "shareable g d K s vb" using Suc.prems(8) nx(2) [OF v] .
    then have "snd (pool t) (user_frame (memory s) g vb) = snd (pool s) (user_frame (memory s) g vb)"
      using t(7) other [OF v] by (auto simp: shareable_def)
    then show ?thesis
      using sv nx(1) [OF v] t(6) unfolding shareable_def fr [OF v] by (auto simp: t(4,5) same_machine_valid [OF t(3)])
  qed
  obtain u where u: "loop f (i + 4096) t = Done True u" "both_ok g d K u" "same_machine t u"
     "\<And>vb. pte_of (memory u) g vb = (if in_range (i + 4096) (4096 * n) vb then pte_of (memory t) g vb AND NOT PTE_W else pte_of (memory t) g vb)"
     "\<And>vb. pte_of (memory u) d vb = (if in_range (i + 4096) (4096 * n) vb then pte_of (memory t) g vb AND NOT PTE_W else pte_of (memory t) d vb)"
     "set (free_pages u) \<subseteq> set (free_pages t)"
     "\<And>x. x \<notin> set (free_pages t) \<Longrightarrow> snd (pool u) x = snd (pool t) x
          + (if \<exists>vb. in_range (i + 4096) (4096 * n) vb \<and> user_frame (memory t) g vb = x then 1 else 0)"
     "changes_only (pt_pages (memory t) g \<union> pt_pages (memory t) d \<union> set (free_pages t)) (memory t) (memory u)"
     "pt_pages (memory u) g \<union> pt_pages (memory u) d \<union> set (free_pages u)
         \<subseteq> pt_pages (memory t) g \<union> pt_pages (memory t) d \<union> set (free_pages t)"
    using Suc.IH [OF t(2) al bd(1,2) _ _ Suc.prems(7) sh'] Suc.prems(5,6,9) bd(3) fr nx(2) by auto
  have range: "in_range i (4096 * Suc n) vb \<longleftrightarrow> PGROUNDDOWN vb = i \<or> in_range (i + 4096) (4096 * n) vb" for vb
    using in_range_pages [of n i vb] bd(2) in_page_iff [OF Suc.prems(2), of vb] by simp
  have page: "pte_of (memory s) g vb = pte_of (memory s) g i" "user_frame (memory s) g vb = ?f" if "PGROUNDDOWN vb = i" for vb
    using pte_of_page [of vb i "memory s" g] that PGROUNDDOWN_aligned [OF Suc.prems(2)] by (simp_all add: user_frame_def)
  show ?case
  proof (intro exI [of _ u] conjI allI impI)
    show "loop fuel i s = Done True u" using step u(1) by simp
    show "same_machine s u" using t(3) u(3) by (rule same_machine_trans)
    show "set (free_pages u) \<subseteq> set (free_pages s)" using t(6) u(6) by blast
    show "pte_of (memory u) g vb = (if in_range i (4096 * Suc n) vb then pte_of (memory s) g vb AND NOT PTE_W else pte_of (memory s) g vb)" for vb
      using nx(1) [of vb] page(1) [of vb] unfolding range u(4) t(4) by auto
    show "pte_of (memory u) d vb = (if in_range i (4096 * Suc n) vb then pte_of (memory s) g vb AND NOT PTE_W else pte_of (memory s) d vb)" for vb
      using nx(1) [of vb] page(1) [of vb] unfolding range u(5) t(4,5) by auto
    show "changes_only (pt_pages (memory s) g \<union> pt_pages (memory s) d \<union> set (free_pages s)) (memory s) (memory u)"
      by (rule changes_only_step [OF t(8) changes_only_mono [OF u(8) t(9)]])
    show "pt_pages (memory u) g \<union> pt_pages (memory u) d \<union> set (free_pages u)
         \<subseteq> pt_pages (memory s) g \<union> pt_pages (memory s) d \<union> set (free_pages s)"
      using t(9) u(9) by (rule subset_trans [rotated])
    fix x assume x: "x \<notin> set (free_pages s)"
    then have "x \<notin> set (free_pages t)" using t(6) by blast
    note ux = u(7) [OF this] and tx = t(7) [OF x]
    have e1: "(\<exists>vb. in_range i (4096 * Suc n) vb \<and> user_frame (memory s) g vb = x) \<longleftrightarrow>
       x = ?f \<or> (\<exists>vb. in_range (i + 4096) (4096 * n) vb \<and> user_frame (memory t) g vb = x)"
      unfolding range using page(2) fr PGROUNDDOWN_aligned [OF Suc.prems(2)] by metis
    have e2: "\<not> (\<exists>vb. in_range (i + 4096) (4096 * n) vb \<and> user_frame (memory t) g vb = x)" if "x = ?f"
      using that fr other by metis
    show "snd (pool u) x = snd (pool s) x
          + (if \<exists>vb. in_range i (4096 * Suc n) vb \<and> user_frame (memory s) g vb = x then 1 else 0)"
      unfolding e1 ux tx using e2 by simp
  qed (rule u(2))
qed

section \<open>Copying a whole address space\<close>

text \<open>The user pages \<open>copyuvm\<close> visits: \<open>n\<close> pages from \<open>PGSIZE\<close> on and the \<open>k\<close> pages below \<open>USERSTACKTOP\<close>.\<close>

definition visited :: "nat \<Rightarrow> nat \<Rightarrow> uint32 \<Rightarrow> bool" where
  "visited n k vb \<longleftrightarrow> in_range PGSIZE (4096 * n) vb \<or> in_range (USERSTACKTOP - of_nat (4096 * k)) (4096 * k) vb"

text \<open>A page of the parent that a child can share.\<close>

definition forkable :: "uint32 \<Rightarrow> uint32 set \<Rightarrow> 'a kheap_scheme \<Rightarrow> uint32 \<Rightarrow> bool" where
  "forkable g U s vb \<longleftrightarrow> PDX vb \<in> U \<and> pte_of (memory s) g vb AND PTE_P \<noteq> 0 \<and> pte_of (memory s) g vb AND PTE_PG = 0
     \<and> valid_page s (user_frame (memory s) g vb) \<and> user_frame (memory s) g vb \<notin> set (free_pages s)
     \<and> snd (pool s) (user_frame (memory s) g vb) < 65535"

lemma visited_bounds:
  assumes "n + k + 1 \<le> 0x80000"
  shows "in_range PGSIZE (4096 * n) vb \<longleftrightarrow> 4096 \<le> unat vb \<and> unat vb < 4096 + 4096 * n"
    "in_range (USERSTACKTOP - of_nat (4096 * k)) (4096 * k) vb \<longleftrightarrow> 0x80000000 - 4096 * k \<le> unat vb \<and> unat vb < 0x80000000"
    "unat (USERSTACKTOP - of_nat (4096 * k) :: uint32) = 0x80000000 - 4096 * k"
proof -
  have u: "unat (of_nat (4096 * k) :: uint32) = 4096 * k" using assms by (intro unat_of_nat32) simp
  show b: "unat (USERSTACKTOP - of_nat (4096 * k) :: uint32) = 0x80000000 - 4096 * k"
    using assms u by (subst of_nat_unat_sub) simp_all
  show "in_range PGSIZE (4096 * n) vb \<longleftrightarrow> 4096 \<le> unat vb \<and> unat vb < 4096 + 4096 * n"
    using assms by (subst in_range_bounds) simp_all
  show "in_range (USERSTACKTOP - of_nat (4096 * k)) (4096 * k) vb \<longleftrightarrow> 0x80000000 - 4096 * k \<le> unat vb \<and> unat vb < 0x80000000"
    using assms by (subst in_range_bounds) (simp_all add: b [simplified])
qed

lemma copyuvm_setup:
  assumes "kmem_inv s" "lock_ok L_kmem s" "KERNBASE \<le> kend s" "pt_ok s g" "data_ok (kdata s)"
    "65 + card U \<le> length (free_pages s)"
  shows "\<exists>t d. setupkvm s = Done d t \<and> d \<noteq> 0 \<and> both_ok g d (kernel_dirs \<union> U) t \<and> same_machine s t
     \<and> (\<forall>vb. pte_of (memory t) g vb = pte_of (memory s) g vb) \<and> pt_pages (memory t) g = pt_pages (memory s) g
     \<and> pte_of (memory t) d = kernel_pte (kdata s) \<and> set (free_pages t) \<subseteq> set (free_pages s)
     \<and> pt_pages (memory t) d \<subseteq> set (free_pages s) \<and> changes_only (set (free_pages s)) (memory s) (memory t)
     \<and> (\<forall>x. x \<notin> set (free_pages s) \<longrightarrow> snd (pool t) x = snd (pool s) x)"
proof -
  let ?K = "kernel_dirs \<union> U"
  obtain t d ps where t: "setupkvm s = Done d t" "kmem_inv t" "same_machine s t" "pt_ok t d"
      "pte_of (memory t) d = kernel_pte (kdata s)" "tables (memory t) d \<subseteq> kernel_dirs"
      "free_pages s = ps @ free_pages t" "pt_pages (memory t) d = set ps" "length ps = Suc (card (tables (memory t) d))" "d \<noteq> 0"
      "changes_only (set ps) (memory s) (memory t)" "snd (pool t) = (\<lambda>v. if v \<in> set ps then 1 else snd (pool s) v)"
    using setupkvm_run [OF assms(1) _ assms(5)] assms(6) by auto
  have wf: "pt_wf (memory s) g" and dis: "pt_pages (memory s) g \<inter> set ps = {}"
    using assms(4) t(7) by (auto simp: pt_ok_def)
  note fr = pt_frame(4) [OF t(11) wf dis] and fw = pt_wf_frame(2) [OF t(11) wf dis]
  have sub: "set ps \<subseteq> set (free_pages s)" "set (free_pages t) \<subseteq> set (free_pages s)" using t(7) by auto
  have ok: "pt_ok t g" using pt_ok_frame [OF assms(4) t(11) dis t(3)] sub(2) by blast
  have fin: "finite A" for A :: "uint32 set" by (rule finite_subset [OF subset_UNIV]) simp
  have "card (?K - tables (memory t) d) = card ?K - card (tables (memory t) d)"
    using t(6) by (intro card_Diff_subset fin) blast
  moreover have "card ?K \<le> 64 + card U" using card_Un_le [of kernel_dirs U] card_kernel_dirs [of "{}"] by simp
  ultimately have "card (?K - tables (memory t) d) \<le> length (free_pages t)"
    using assms(6) t(7,9) by simp
  then have "both_ok g d ?K t"
    unfolding both_ok_def using t(2,4,6,8) ok same_machine_regs [OF t(3)] assms(2,3) fw dis by auto
  then show ?thesis
    using t(1,3,5,8,10,12) fr fw sub changes_only_mono [OF t(11) sub(1)] by (intro exI [of _ t] exI [of _ d]) auto
qed

lemma share_addr: "PTE_ADDR (v AND NOT PTE_W) = PTE_ADDR v"
  unfolding PTE_ADDR_def by (rule bit_word_eqI) (auto simp: bit_simps)

lemma shared_rangeD:
  assumes "shared_range g d K i n s t"
  shows "both_ok g d K t" "same_machine s t"
    "pte_of (memory t) g vb = (if in_range i (4096 * n) vb then pte_of (memory s) g vb AND NOT PTE_W else pte_of (memory s) g vb)"
    "pte_of (memory t) d vb = (if in_range i (4096 * n) vb then pte_of (memory s) g vb AND NOT PTE_W else pte_of (memory s) d vb)"
    "set (free_pages t) \<subseteq> set (free_pages s)"
    "x \<notin> set (free_pages s) \<Longrightarrow> snd (pool t) x = snd (pool s) x
       + (if \<exists>vb. in_range i (4096 * n) vb \<and> user_frame (memory s) g vb = x then 1 else 0)"
    "changes_only (pt_pages (memory s) g \<union> pt_pages (memory s) d \<union> set (free_pages s)) (memory s) (memory t)"
    "pt_pages (memory t) g \<union> pt_pages (memory t) d \<union> set (free_pages t)
       \<subseteq> pt_pages (memory s) g \<union> pt_pages (memory s) d \<union> set (free_pages s)"
    "user_frame (memory t) g vb = user_frame (memory s) g vb"
proof -
  note a = assms [unfolded shared_range_def]
  show "both_ok g d K t" "same_machine s t" "set (free_pages t) \<subseteq> set (free_pages s)"
    "changes_only (pt_pages (memory s) g \<union> pt_pages (memory s) d \<union> set (free_pages s)) (memory s) (memory t)"
    "pt_pages (memory t) g \<union> pt_pages (memory t) d \<union> set (free_pages t)
       \<subseteq> pt_pages (memory s) g \<union> pt_pages (memory s) d \<union> set (free_pages s)"
    using a by argo+
  show p: "pte_of (memory t) g vb = (if in_range i (4096 * n) vb then pte_of (memory s) g vb AND NOT PTE_W else pte_of (memory s) g vb)"
    "pte_of (memory t) d vb = (if in_range i (4096 * n) vb then pte_of (memory s) g vb AND NOT PTE_W else pte_of (memory s) d vb)"
    using a by blast+
  show "snd (pool t) x = snd (pool s) x
       + (if \<exists>vb. in_range i (4096 * n) vb \<and> user_frame (memory s) g vb = x then 1 else 0)" if "x \<notin> set (free_pages s)"
    using a that by blast
  show "user_frame (memory t) g vb = user_frame (memory s) g vb" unfolding user_frame_def p(1) by (simp add: share_addr [simplified])
qed

lemma copyuvm_run:
  assumes "kmem_inv s" "lock_ok L_kmem s" "KERNBASE \<le> kend s" "pt_ok s g" "data_ok (kdata s)" "cur s = Some p"
    and size: "n + k + 1 \<le> 0x80000" "unat psz \<le> 4096 + 4096 * n" "4096 * n < unat psz \<or> n = 0"
      "stacksize (ptable s ! p) = of_nat (4096 * k)"
    and mem: "65 + card U \<le> length (free_pages s)"
    and pages: "\<And>vb. visited n k vb \<Longrightarrow> forkable g U s vb"
    and inj: "\<And>vb vc. visited n k vb \<Longrightarrow> visited n k vc \<Longrightarrow>
       user_frame (memory s) g vb = user_frame (memory s) g vc \<Longrightarrow> PGROUNDDOWN vb = PGROUNDDOWN vc"
  shows "\<exists>t d. copyuvm g psz s = Done d t \<and> d \<noteq> 0 \<and> kmem_inv t \<and> pt_ok t g \<and> pt_ok t d
     \<and> pt_pages (memory t) d \<inter> pt_pages (memory t) g = {} \<and> cr3 t = V2P g
     \<and> (\<forall>vb. pte_of (memory t) g vb = (if visited n k vb then pte_of (memory s) g vb AND NOT PTE_W else pte_of (memory s) g vb))
     \<and> (\<forall>vb. pte_of (memory t) d vb = (if visited n k vb then pte_of (memory s) g vb AND NOT PTE_W else kernel_pte (kdata s) vb))
     \<and> (\<forall>x. x \<notin> set (free_pages s) \<longrightarrow> snd (pool t) x = snd (pool s) x
          + (if \<exists>vb. visited n k vb \<and> user_frame (memory s) g vb = x then 1 else 0))
     \<and> changes_only (pt_pages (memory s) g \<union> set (free_pages s)) (memory s) (memory t)"
proof -
  let ?K = "kernel_dirs \<union> U" and ?st = "USERSTACKTOP - of_nat (4096 * k) :: uint32"
  obtain s1 d where s1: "setupkvm s = Done d s1" "d \<noteq> 0" "both_ok g d ?K s1" "same_machine s s1"
      "\<And>vb. pte_of (memory s1) g vb = pte_of (memory s) g vb" "pt_pages (memory s1) g = pt_pages (memory s) g"
      "pte_of (memory s1) d = kernel_pte (kdata s)" "set (free_pages s1) \<subseteq> set (free_pages s)"
      "pt_pages (memory s1) d \<subseteq> set (free_pages s)" "changes_only (set (free_pages s)) (memory s) (memory s1)"
      "\<And>x. x \<notin> set (free_pages s) \<Longrightarrow> snd (pool s1) x = snd (pool s) x"
    using copyuvm_setup [OF assms(1-5) mem] by blast
  note vis = visited_bounds [OF size(1)]
  have fr1: "user_frame (memory s1) g vb = user_frame (memory s) g vb" for vb by (simp add: user_frame_def s1(5))
  have low: "kernel_pte (kdata s) vb = 0" if "visited n k vb" for vb
  proof -
    have "unat vb < 0x80000000" using that vis(1,2) size(1) unfolding visited_def by auto
    then show ?thesis by (simp add: kernel_pte_def word_less_nat_alt)
  qed
  have sh1: "shareable g d ?K s1 vb" if "visited n k vb" for vb
    using pages [OF that] low [OF that] s1(8,11) unfolding shareable_def forkable_def fr1 s1(5,7)
    by (auto simp: same_machine_valid [OF s1(4)])
  have text_ok: "in_range PGSIZE (4096 * n) vb \<Longrightarrow> visited n k vb"
    and stack_ok: "in_range ?st (4096 * k) vb \<Longrightarrow> visited n k vb" for vb by (simp_all add: visited_def)
  have apart: "\<not> in_range PGSIZE (4096 * n) vb" if "in_range ?st (4096 * k) vb" for vb
    using that size(1) unfolding vis(1,2) by auto
  obtain s2 where s2: "copyuvm_text page_fuel g d psz PGSIZE s1 = Done True s2" "shared_range g d ?K PGSIZE n s1 s2"
  proof -
    have "\<exists>t. copyuvm_text page_fuel g d psz PGSIZE s1 = Done True t \<and> shared_range g d ?K PGSIZE n s1 t"
    proof (rule sharing_loop_run [OF sharing_loop_text s1(3)])
      show "n < page_fuel" "Suc n < 2 ^ 20" using size(1) by (simp_all add: page_fuel_def)
      show "unat psz \<le> unat PGSIZE + 4096 * n" "n = 0 \<or> unat PGSIZE + 4096 * n < unat psz + 4096" "unat psz \<le> 0x80000000"
        using size(1-3) by auto
    qed (use sh1 inj text_ok fr1 in auto)
    then show ?thesis using that by blast
  qed
  note r2 = shared_rangeD [OF s2(2)]
  have fr2: "user_frame (memory s2) g vb = user_frame (memory s) g vb" for vb using r2(9) fr1 by simp
  have frames_apart: "user_frame (memory s) g vc \<noteq> user_frame (memory s) g vb"
    if c: "in_range PGSIZE (4096 * n) vc" and v: "in_range ?st (4096 * k) vb" for vb vc
  proof
    assume "user_frame (memory s) g vc = user_frame (memory s) g vb"
    then have "PGROUNDDOWN vc = PGROUNDDOWN vb" using inj [OF text_ok [OF c] stack_ok [OF v]] by simp
    then have "unat vc div 4096 = unat vb div 4096"
      using unat_page_split [of vc] unat_page_split [of vb] by (simp add: minus_mod_eq_div_mult)
    moreover have "unat vc div 4096 < n + 1" using c unfolding vis(1) by (simp add: div_less_iff_less_mult)
    moreover have "0x80000 - k \<le> unat vb div 4096" using v unfolding vis(2) by (subst less_eq_div_iff_mult_less_eq) auto
    ultimately show False using size(1) by linarith
  qed
  have sh2: "shareable g d ?K s2 vb" if v: "in_range ?st (4096 * k) vb" for vb
  proof -
    have "user_frame (memory s) g vb \<notin> set (free_pages s1)" using pages [OF stack_ok [OF v]] s1(8) by (auto simp: forkable_def)
    moreover have "\<not> (\<exists>vc. in_range PGSIZE (4096 * n) vc \<and> user_frame (memory s1) g vc = user_frame (memory s) g vb)"
      using frames_apart [OF _ v] unfolding fr1 by blast
    ultimately have "snd (pool s2) (user_frame (memory s) g vb) = snd (pool s1) (user_frame (memory s) g vb)"
      using r2(6) by simp
    then show ?thesis
      using sh1 [OF stack_ok [OF v]] apart [OF v] r2(5) unfolding shareable_def fr2 fr1
      by (auto simp: r2(3,4) same_machine_valid [OF r2(2)])
  qed
  have al: "aligned 12 ?st"
    using aligned_minus [OF _ aligned_of_nat [of 12 "4096 * k"], of USERSTACKTOP] by simp
  obtain s3 where s3: "copyuvm_stack page_fuel g d ?st s2 = Done True s3" "shared_range g d ?K ?st k s2 s3"
  proof -
    have "\<exists>t. copyuvm_stack page_fuel g d ?st s2 = Done True t \<and> shared_range g d ?K ?st k s2 t"
    proof (rule sharing_loop_run [OF sharing_loop_stack r2(1) al])
      show "k < page_fuel" "Suc k < 2 ^ 20" using size(1) by (simp_all add: page_fuel_def)
      show "unat USERSTACKTOP \<le> unat ?st + 4096 * k" "k = 0 \<or> unat ?st + 4096 * k < unat USERSTACKTOP + 4096"
        "unat USERSTACKTOP \<le> 0x80000000" using size(1) unfolding vis(3) by auto
    qed (use sh2 inj stack_ok fr2 in auto)
    then show ?thesis using that by blast
  qed
  note r3 = shared_rangeD [OF s3(2)]
  have sm: "same_machine s s2" using same_machine_trans [OF s1(4) r2(2)] .
  have ptab: "ptable s2 = ptable s" by (rule same_machine_kproc [OF sm])
  have cpu: "cpu_ok s2" "cur s2 = Some p"
    using same_machine_regs(4-6) [OF sm] assms(2,6) by (auto simp: lock_ok_def cur_def this_cpu_def)
  let ?t = "s3\<lparr>cr3 := V2P g\<rparr>"
  have run: "copyuvm g psz s = Done d ?t"
    using s1(1,2) s2(1) s3(1) size(4)
    by (simp add: copyuvm_def kmonad with_proc_run [OF cpu] get_proc_def ptab lcr3_def Let_def del: copyuvm_text.simps copyuvm_stack.simps)
  have mt: "memory ?t = memory s3" "pool ?t = pool s3" "free_pages ?t = free_pages s3"
    by (simp_all add: pool_def free_pages_def valid_page_def page_refs_def cong: if_cong)
  have b3: "kmem_inv s3" "pt_ok s3 g" "pt_ok s3 d" "pt_pages (memory s3) d \<inter> pt_pages (memory s3) g = {}"
    using r3(1) by (auto simp: both_ok_def)
  have ok: "kmem_inv ?t" "pt_ok ?t g" "pt_ok ?t d"
    using b3(1-3) lock_ok_cong [of ?t s3 L_kmem] unfolding kmem_inv_def pt_ok_def mt
    by (simp_all add: valid_page_def page_refs_def)
  have pg: "pte_of (memory s3) g vb = (if visited n k vb then pte_of (memory s) g vb AND NOT PTE_W else pte_of (memory s) g vb)" for vb
    using apart [of vb] unfolding r3(3) r2(3) s1(5) visited_def by auto
  have pd: "pte_of (memory s3) d vb = (if visited n k vb then pte_of (memory s) g vb AND NOT PTE_W else kernel_pte (kdata s) vb)" for vb
    using apart [of vb] unfolding r3(4) r2(3,4) s1(5,7) visited_def by auto
  have ref: "snd (pool s3) x = snd (pool s) x + (if \<exists>vb. visited n k vb \<and> user_frame (memory s) g vb = x then 1 else 0)"
    if x: "x \<notin> set (free_pages s)" for x
  proof -
    have "x \<notin> set (free_pages s1)" "x \<notin> set (free_pages s2)" using x s1(8) r2(5) by auto
    note e = r3(6) [OF this(2)] r2(6) [OF this(1)] s1(11) [OF x]
    let ?A = "\<exists>vb. in_range ?st (4096 * k) vb \<and> user_frame (memory s) g vb = x"
    let ?B = "\<exists>vb. in_range PGSIZE (4096 * n) vb \<and> user_frame (memory s) g vb = x"
    have "\<not> (?A \<and> ?B)" using frames_apart by blast
    then show ?thesis using e unfolding fr2 fr1 visited_def by auto
  qed
  have sub1: "pt_pages (memory s1) g \<union> pt_pages (memory s1) d \<union> set (free_pages s1) \<subseteq> pt_pages (memory s) g \<union> set (free_pages s)"
    using s1(6,8,9) by blast
  let ?P = "pt_pages (memory s) g \<union> set (free_pages s)"
  have c1: "changes_only ?P (memory s) (memory s1)" by (rule changes_only_mono [OF s1(10)]) simp
  have c2: "changes_only ?P (memory s1) (memory s2)" by (rule changes_only_mono [OF r2(7) sub1])
  have c3: "changes_only ?P (memory s2) (memory s3)" by (rule changes_only_mono [OF r3(7) subset_trans [OF r2(8) sub1]])
  have "changes_only ?P (memory s) (memory s3)" by (rule changes_only_step [OF changes_only_step [OF c1 c2] c3])
  then show ?thesis
    using run s1(2) ok b3(4) pg pd ref unfolding mt [symmetric] by (intro exI [of _ ?t] exI [of _ d]) (simp add: mt)
qed

end
