(* ===== verification/VmProps.thy ===== *)
theory VmProps
  imports CopyUvm
begin

text \<open>What the virtual-memory operations of vm.c guarantee, with examples on a small page table.\<close>

section \<open>Correctness of address spaces\<close>

text \<open>A small system for the examples: the directory 0x80410000 maps the user page 0x1000,
  read-only, to the frame 0x80412000 through the table 0x80411000; the directory 0x80413000 is
  empty. In \<open>sample_vm\<close> process 0 runs in the first one and the frame has two shares.\<close>

definition sample_pt :: "mem \<Rightarrow> mem" where
  "sample_pt m = store32 (store32 (mem_fill (mem_fill (mem_fill m 0x80410000 4096 0) 0x80411000 4096 0) 0x80413000 4096 0)
     0x80410000 0x411007) 0x80411004 0x412005"

definition sample_vm_memory :: mem where
  "sample_vm_memory = sample_pt sample_memory"

definition sample_vm :: kproc where
  "sample_vm = sample_kproc\<lparr>memory := sample_vm_memory, kmem := sample_kmem\<lparr>pc_sh := (\<lambda>_. 0)(0x412 := 2)\<rparr>,
     ptable := (ptable sample_kproc)[0 := sample_proc\<lparr>pstate := RUNNING, pid := 1, pgdir := 0x80410000\<rparr>]\<rparr>"

lemma sample_pt_changes: "changes_only {0x80410000, 0x80411000, 0x80413000} m (sample_pt m)"
proof -
  let ?P = "{0x80410000, 0x80411000, 0x80413000}"
  let ?m1 = "mem_fill (mem_fill (mem_fill m 0x80410000 4096 0) 0x80411000 4096 0) 0x80413000 4096 0"
  have a: "changes_only ?P m ?m1"
    by (intro changes_only_step [OF changes_only_step [OF changes_only_fill changes_only_fill] changes_only_fill]) simp_all
  have b: "changes_only ?P ?m1 (store32 ?m1 (0x80410000 + 0) 0x411007)"
    by (rule changes_only_store32) simp_all
  have c: "changes_only ?P (store32 ?m1 (0x80410000 + 0) 0x411007) (store32 (store32 ?m1 (0x80410000 + 0) 0x411007) (0x80411000 + 4) 0x412005)"
    by (rule changes_only_store32) simp_all
  show ?thesis using changes_only_step [OF changes_only_step [OF a b] c] by (simp add: sample_pt_def)
qed

lemma sample_pt_load:
  assumes "unat j < 1024" "q \<in> {0x80410000, 0x80411000, 0x80413000}"
  shows "load32 (sample_pt m) (q + 4 * j) =
     (if q = 0x80411000 \<and> j = 1 then 0x412005 else if q = 0x80410000 \<and> j = 0 then 0x411007 else 0)"
proof -
  let ?m1 = "mem_fill (mem_fill (mem_fill m 0x80410000 4096 0) 0x80411000 4096 0) 0x80413000 4096 0"
  have e: "sample_pt m = store32 (store32 ?m1 (0x80410000 + 4 * 0) 0x411007) (0x80411000 + 4 * 1) 0x412005"
    by (simp add: sample_pt_def)
  have al: "aligned 12 0x80411000" "aligned 12 0x80410000" "aligned 12 q" using assms(2) by auto
  have z: "load32 ?m1 (q + 4 * j) = 0"
    using assms load32_zero_page [OF al(3) assms(1)] load32_fill_page [OF _ al(3), of "0x80413000" "4 * j"]
      load32_fill_page [OF _ al(3), of "0x80411000" "4 * j"] unat_index4 [OF assms(1)]
    by auto
  show ?thesis
    unfolding e
    by (subst load32_table [OF al(1,3) _ assms(1)], simp, subst load32_table [OF al(2,3) _ assms(1)], simp) (auto simp: z)
qed

lemma sample_pt:
  "has_table (sample_pt m) 0x80410000 va \<longleftrightarrow> PDX va = 0"
  "PDX va = 0 \<Longrightarrow> table_of (sample_pt m) 0x80410000 va = 0x80411000"
  "pte_of (sample_pt m) 0x80410000 va = (if PDX va = 0 \<and> PTX va = 1 then 0x412005 else 0)"
  "\<not> has_table (sample_pt m) 0x80413000 va"
  "pt_pages (sample_pt m) 0x80410000 = {0x80410000, 0x80411000}" "pt_pages (sample_pt m) 0x80413000 = {0x80413000}"
  "pt_wf (sample_pt m) 0x80410000" "pt_wf (sample_pt m) 0x80413000"
proof -
  have pde: "pde_of (sample_pt m) 0x80410000 vb = (if PDX vb = 0 then 0x411007 else 0)" for vb
    unfolding pde_of_def using sample_pt_load [OF unat_PDX, of "0x80410000"] by simp
  show h: "has_table (sample_pt m) 0x80410000 va \<longleftrightarrow> PDX va = 0" for va
    by (simp add: has_table_def pde)
  show t: "PDX va = 0 \<Longrightarrow> table_of (sample_pt m) 0x80410000 va = 0x80411000" for va
    by (simp add: table_of_def pde PTE_ADDR_def P2V_def)
  show "pte_of (sample_pt m) 0x80410000 va = (if PDX va = 0 \<and> PTX va = 1 then 0x412005 else 0)"
  proof (cases "PDX va = 0")
    case True
    then have "pte_of (sample_pt m) 0x80410000 va = load32 (sample_pt m) (0x80411000 + 4 * PTX va)"
      by (simp add: pte_of_def h t)
    then show ?thesis using sample_pt_load [OF unat_PTX, of "0x80411000" m va] True by simp
  qed (simp add: pte_of_def h)
  have "pde_of (sample_pt m) 0x80413000 va = 0" for va
    unfolding pde_of_def using sample_pt_load [OF unat_PDX, of "0x80413000"] by simp
  then show e: "\<not> has_table (sample_pt m) 0x80413000 va" for va by (simp add: has_table_def)
  have "PDX 0 = 0" by (simp add: PDX_def)
  then show "pt_pages (sample_pt m) 0x80410000 = {0x80410000, 0x80411000}"
    using h t by (auto simp: pt_pages_def image_iff intro: exI [of _ 0])
  show "pt_pages (sample_pt m) 0x80413000 = {0x80413000}" using e by (simp add: pt_pages_def)
  show "pt_wf (sample_pt m) 0x80410000" using h t by (auto simp: pt_wf_def)
  show "pt_wf (sample_pt m) 0x80413000" using e by (auto simp: pt_wf_def)
qed

lemmas sample_vm_pt = sample_pt [where m = sample_memory, folded sample_vm_memory_def]

lemma sample_vm_fields:
  "memory sample_vm = sample_vm_memory" "kend sample_vm = 0x80110000" "ptable sample_vm ! 0 = sample_proc\<lparr>pstate := RUNNING, pid := 1, pgdir := 0x80410000\<rparr>"
  "length (ptable sample_vm) = 64" "lock_ok l sample_vm" "cur sample_vm = Some 0" "kmem sample_vm = sample_kmem\<lparr>pc_sh := (\<lambda>_. 0)(0x412 := 2)\<rparr>"
  by (simp_all add: sample_vm_def sample_kproc_def [THEN arg_cong [of _ _ kend]] sample_kproc_def [THEN arg_cong [of _ _ ptable]])
   (simp_all add: cur_def this_cpu_def cpu_index_def sample_kproc_def sample_cpu_def)

lemma sample_vm_inv: "kmem_inv sample_vm" "free_pages sample_vm = [0x80400000, 0x80401000]"
proof -
  have l: "load32 sample_vm_memory 0x80400000 = 0x80401000" "load32 sample_vm_memory 0x80401000 = 0"
    using changes_only_load32_0 [OF sample_pt_changes, of "0x80400000" sample_memory]
      changes_only_load32_0 [OF sample_pt_changes, of "0x80401000" sample_memory]
    by (simp_all add: sample_vm_memory_def)
  have ch: "flist (memory sample_vm) (freelist (kmem sample_vm)) [0x80400000, 0x80401000]"
    by (simp add: sample_vm_fields sample_kmem_def l)
  show "kmem_inv sample_vm" "free_pages sample_vm = [0x80400000, 0x80401000]"
    by (rule kmem_invI [OF ch]; auto simp: sample_vm_fields sample_kmem_def valid_page_def page_refs_def V2P_def)+
qed

lemma sample_vm_ok: "pt_ok sample_vm 0x80410000" "pt_ok sample_vm 0x80413000"
  "pt_pages (memory sample_vm) 0x80410000 = {0x80410000, 0x80411000}" "pt_pages (memory sample_vm) 0x80413000 = {0x80413000}"
  using sample_vm_pt(5-8)
  by (auto simp: pt_ok_def sample_vm_inv valid_page_def sample_vm_fields V2P_def)



lemma present_iff: "(v :: uint32) AND PTE_P \<noteq> 0 \<longleftrightarrow> bit v 0"
  by (metis and_one_eq bit_0 odd_iff_mod_2_eq_one zero_neq_one even_iff_mod_2_eq_zero)

lemma kernel_pte_bits:
  assumes "data_ok data"
  shows "kernel_pte data va AND PTE_U = 0"
    "KERNBASE \<le> va \<Longrightarrow> va < KERNBASE + PHYSTOP \<Longrightarrow>
       kernel_pte data va AND PTE_P \<noteq> 0 \<and> P2V (PTE_ADDR (kernel_pte data va)) = PGROUNDDOWN va"
proof -
  have al: "aligned 12 (V2P (PGROUNDDOWN vb))" for vb by (simp add: aligned_V2P)
  have u: "(a OR w OR 1) AND 4 = 0" if "aligned 12 a" "w = 0 \<or> w = 2" for a w :: uint32
  proof (rule bit_word_eqI)
    fix n
    have "\<not> bit a 2" using that(1) unfolding aligned_def by (metis bit_take_bit_iff bit_0_eq bot_apply bot_bool_def numeral_less_iff semiring_norm(68) semiring_norm(76) semiring_norm(78) semiring_norm(75))
    moreover have "bit (4 :: uint32) n \<longleftrightarrow> n = 2"
      using bit_push_bit_iff [of 2 "1 :: uint32" n] by (auto simp: bit_1_iff dest: bit_imp_le_length)
    ultimately show "bit ((a OR w OR 1) AND 4) n = bit (0 :: uint32) n"
      using that(2) by (auto simp: bit_simps)
  qed
  show "kernel_pte data va AND PTE_U = 0"
  proof -
    have "(V2P (PGROUNDDOWN va) OR (if KERNLINK \<le> va \<and> va < data then 0 else PTE_W) OR PTE_P) AND PTE_U = 0"
      by (rule u [OF al]) simp
    moreover have "(PGROUNDDOWN va OR PTE_W OR PTE_P) AND PTE_U = 0" by (rule u) simp_all
    ultimately show ?thesis
      unfolding kernel_pte_def
      by (cases "va < KERNBASE"; cases "va < KERNBASE + PHYSTOP"; cases "va < DEVSPACE") (simp_all only: if_True if_False zero_and_eq simp_thms)
  qed
  assume b: "KERNBASE \<le> va" "va < KERNBASE + PHYSTOP"
  define w where "w = (if KERNLINK \<le> va \<and> va < data then 0 else PTE_W)"
  have e: "kernel_pte data va = V2P (PGROUNDDOWN va) OR (w OR PTE_P)"
  proof -
    have "(va < KERNBASE) = False" using b(1) by simp
    then show ?thesis using b(2) unfolding kernel_pte_def w_def by simp
  qed
  have w: "unat (w OR PTE_P) < 4096" "(w OR PTE_P) AND PTE_P = 1" by (auto simp: w_def)
  have "kernel_pte data va AND PTE_P \<noteq> 0"
    unfolding e present_iff by (simp add: bit_simps)
  then show "kernel_pte data va AND PTE_P \<noteq> 0 \<and> P2V (PTE_ADDR (kernel_pte data va)) = PGROUNDDOWN va"
    unfolding e using PTE_ADDR_or [OF al w(1)] by simp
qed


lemma sample_rich_kdata: "data_ok (kdata sample_rich)"
proof -
  have "kdata sample_rich = kdata sample_kproc" by (rule same_machine_regs [OF sample_rich_props(6)])
  then show ?thesis by (simp add: data_ok_def sample_kproc_def)
qed


lemma sample_vm_frame:
  "user_frame (memory sample_vm) 0x80410000 0x1000 = 0x80412000" "user_ok (memory sample_vm) 0x80410000 0x1000"
  "pte_of (memory sample_vm) 0x80410000 0x1000 = 0x412005" "snd (pool sample_vm) 0x80412000 = 2"
proof -
  have ix: "PDX 0x1000 = 0" "PTX 0x1000 = 1" by (simp_all add: PDX_def PTX_def)
  show p: "pte_of (memory sample_vm) 0x80410000 0x1000 = 0x412005" by (simp add: sample_vm_fields sample_vm_pt(3) ix)
  show f: "user_frame (memory sample_vm) 0x80410000 0x1000 = 0x80412000" by (simp add: user_frame_def p PTE_ADDR_def P2V_def)
  show "user_ok (memory sample_vm) 0x80410000 0x1000" by (simp add: user_ok_def p f sample_vm_ok(3))
  show "snd (pool sample_vm) 0x80412000 = 2"
    by (simp add: pool_def valid_page_def page_refs_def sample_vm_fields V2P_def)
qed

lemma sample_vm_cow: "cow_ready sample_vm 0 0x1000"
proof -
  have d: "pgdir (ptable sample_vm ! 0) = 0x80410000" by (simp add: sample_vm_fields)
  show ?thesis
    unfolding cow_ready_def Let_def d
    using sample_vm_inv sample_vm_ok(1) sample_vm_frame sample_vm_fields(5) [of L_kmem]
    by (simp add: sample_vm_fields(2,4) valid_page_def V2P_def)
qed

lemma cow_pte: "PTE_ADDR (v OR PTE_W) = PTE_ADDR v" "(v OR PTE_W) AND PTE_W \<noteq> 0"
proof -
  show "PTE_ADDR (v OR PTE_W) = PTE_ADDR v"
    unfolding PTE_ADDR_def by (rule bit_word_eqI) (auto simp: bit_simps)
  have "bit ((v OR PTE_W) AND PTE_W) 1" by (simp add: bit_simps)
  then show "(v OR PTE_W) AND PTE_W \<noteq> 0" by auto
qed

lemma cow_reads:
  assumes "changes_only P m m'" "user_frame m d vb \<notin> P"
  shows "m' (user_frame m d vb + (vb - PGROUNDDOWN vb)) = m (user_frame m d vb + (vb - PGROUNDDOWN vb))"
  using assms PGROUNDDOWN_add [OF user_frame_aligned page_offset_less, of m d vb vb] by (simp add: changes_only_def)



text \<open>C5. \<open>copyuvm\<close>, called by \<open>fork\<close>, returns a child address space that shares every user page of the
  parent: both have the same write-protected entries there, so both read the same bytes, each
  frame has exactly one share more, and no byte outside page tables and free pages has changed.\<close>

theorem copyuvm_shares:
  assumes "kmem_inv s" "lock_ok L_kmem s" "KERNBASE \<le> kend s" "pt_ok s g" "data_ok (kdata s)" "cur s = Some p"
    "n + k + 1 \<le> 0x80000" "unat psz \<le> 4096 + 4096 * n" "4096 * n < unat psz \<or> n = 0"
    "stacksize (ptable s ! p) = of_nat (4096 * k)" "65 + card U \<le> length (free_pages s)"
    "\<forall>vb. visited n k vb \<longrightarrow> forkable g U s vb"
    "\<forall>vb vc. visited n k vb \<and> visited n k vc \<and> user_frame (memory s) g vb = user_frame (memory s) g vc
        \<longrightarrow> PGROUNDDOWN vb = PGROUNDDOWN vc"
  shows "\<exists>t d. copyuvm g psz s = Done d t \<and> d \<noteq> 0 \<and> kmem_inv t \<and> pt_ok t g \<and> pt_ok t d \<and> cr3 t = V2P g
     \<and> (\<forall>vb. visited n k vb \<longrightarrow> pte_of (memory t) d vb = pte_of (memory s) g vb AND NOT PTE_W
          \<and> pte_of (memory t) g vb = pte_of (memory s) g vb AND NOT PTE_W
          \<and> user_addr (memory t) d vb = user_addr (memory s) g vb
          \<and> snd (pool t) (user_frame (memory s) g vb) = snd (pool s) (user_frame (memory s) g vb) + 1)
     \<and> (\<forall>vb. \<not> visited n k vb \<longrightarrow> pte_of (memory t) g vb = pte_of (memory s) g vb)
     \<and> changes_only (pt_pages (memory s) g \<union> set (free_pages s)) (memory s) (memory t)"
proof -
  obtain t d where t: "copyuvm g psz s = Done d t" "d \<noteq> 0" "kmem_inv t" "pt_ok t g" "pt_ok t d" "cr3 t = V2P g"
     "\<And>vb. pte_of (memory t) g vb = (if visited n k vb then pte_of (memory s) g vb AND NOT PTE_W else pte_of (memory s) g vb)"
     "\<And>vb. pte_of (memory t) d vb = (if visited n k vb then pte_of (memory s) g vb AND NOT PTE_W else kernel_pte (kdata s) vb)"
     "\<And>x. x \<notin> set (free_pages s) \<Longrightarrow> snd (pool t) x = snd (pool s) x
          + (if \<exists>vb. visited n k vb \<and> user_frame (memory s) g vb = x then 1 else 0)"
     "changes_only (pt_pages (memory s) g \<union> set (free_pages s)) (memory s) (memory t)"
    using copyuvm_run [OF assms(1-11)] assms(12,13) by blast
  have "user_addr (memory t) d vb = user_addr (memory s) g vb" if "visited n k vb" for vb
    using that by (simp add: user_addr_def user_frame_def t(8) share_addr [simplified])
  moreover have "snd (pool t) (user_frame (memory s) g vb) = snd (pool s) (user_frame (memory s) g vb) + 1" if "visited n k vb" for vb
    using t(9) [of "user_frame (memory s) g vb"] assms(12) that by (auto simp: forkable_def)
  ultimately show ?thesis
    using t(1-8,10) by (intro exI [of _ t] exI [of _ d]) (simp add: t(7,8))
qed

text \<open>The sample address space in a kernel with many free pages.\<close>

definition sample_fork :: kproc where
  "sample_fork = sample_rich\<lparr>memory := sample_pt (memory sample_rich),
     kmem := (kmem sample_rich)\<lparr>pc_sh := (pc_sh (kmem sample_rich))(0x412 := 1)\<rparr>\<rparr>"

lemma sample_fork_props:
  "kmem_inv sample_fork" "free_pages sample_fork = free_pages sample_rich" "snd (pool sample_fork) 0x80412000 = 1"
  "same_machine sample_kproc sample_fork" "pt_ok sample_fork 0x80410000"
proof -
  have free: "q \<notin> set (free_pages sample_rich)" if "q \<in> {0x80410000, 0x80411000, 0x80412000, 0x80413000}" for q
    using sample_rich_props(7) [of q] that by auto
  have k: "kend sample_rich = 0x80110000"
    using same_machine_regs(1) [OF sample_rich_props(6)] by (simp add: sample_kproc_def)
  have val: "valid_page sample_rich 0x80412000" by (simp add: valid_page_def k V2P_def)
  let ?u = "sample_rich\<lparr>kmem := (kmem sample_rich)\<lparr>pc_sh := (pc_sh (kmem sample_rich))(drop_bit 12 (V2P 0x80412000) := 1)\<rparr>\<rparr>"
  note su = share_update_inv [OF sample_rich_props(1) val free, of 1, simplified]
  have e: "sample_fork = ?u\<lparr>memory := sample_pt (memory sample_rich)\<rparr>" by (simp add: sample_fork_def V2P_def)
  have fu: "free_pages ?u = free_pages sample_rich" by (simp add: free_pages_def)
  have km: "kmem_inv sample_fork" "pool sample_fork = pool ?u" "free_pages sample_fork = free_pages ?u"
    using kmem_inv_memory [of ?u "{0x80410000, 0x80411000, 0x80413000}" "sample_pt (memory sample_rich)"] su(1) sample_pt_changes free fu
    unfolding e by auto
  then show "kmem_inv sample_fork" "free_pages sample_fork = free_pages sample_rich" using fu by simp_all
  show "snd (pool sample_fork) 0x80412000 = 1" using km(2) su(2) by simp
  show sm: "same_machine sample_kproc sample_fork"
    unfolding e by (intro same_machine_upd same_machine_kmem [OF sample_rich_props(6)]) simp
  show "pt_ok sample_fork 0x80410000"
    unfolding pt_ok_def km(3) fu using sample_pt(5,7) free same_machine_valid [OF sm]
    by (auto simp: e valid_page_def sample_kproc_def V2P_def)
qed

theorem copyuvm_shares_witness:
  "\<exists>t d. copyuvm 0x80410000 0x2000 sample_fork = Done d t \<and> pte_of (memory t) d 0x1000 = 0x412005 \<and> snd (pool t) 0x80412000 = 2"
proof -
  note sm = sample_fork_props(4) and rg = same_machine_regs [OF sample_fork_props(4)]
  have m: "memory sample_fork = sample_pt (memory sample_rich)" by (simp add: sample_fork_def)
  have vis: "visited 1 0 vb \<longleftrightarrow> PGROUNDDOWN vb = 0x1000" for vb
    using in_page_iff [of "0x1000" vb] by (simp add: visited_def)
  have ix: "PDX vb = 0" "PTX vb = 1" if "visited 1 0 vb" for vb
  proof -
    have "PGROUNDDOWN vb = PGROUNDDOWN 0x1000" using that unfolding vis by (simp add: PGROUNDDOWN_def)
    then show "PDX vb = 0" "PTX vb = 1" by (simp_all add: page_index_eq PDX_def [of "0x1000"] PTX_def [of "0x1000"])
  qed
  have p: "pte_of (memory sample_fork) 0x80410000 vb = 0x412005" if "visited 1 0 vb" for vb
    using ix [OF that] by (simp add: m sample_pt(3))
  have f: "user_frame (memory sample_fork) 0x80410000 vb = 0x80412000" if "visited 1 0 vb" for vb
    by (simp add: user_frame_def p [OF that] PTE_ADDR_def P2V_def)
  have nf: "0x80412000 \<notin> set (free_pages sample_fork)" using sample_rich_props(7) [of "0x80412000"] by (auto simp: sample_fork_props(2))
  have fk: "\<forall>vb. visited 1 0 vb \<longrightarrow> forkable 0x80410000 {0} sample_fork vb"
    using ix(1) p f nf sample_fork_props(3) rg(1)
    by (auto simp: forkable_def valid_page_def sample_kproc_def V2P_def)
  have st: "stacksize (ptable sample_fork ! 0) = 0" "cur sample_fork = Some 0"
    using same_machine_kproc(1) [OF sm] rg(5,6) by (simp_all add: sample_kproc_def sample_proc_def cur_def this_cpu_def cpu_index_def sample_cpu_def)
  have v: "visited 1 0 0x1000" unfolding vis by (simp add: PGROUNDDOWN_def)
  have "\<exists>t d. copyuvm 0x80410000 0x2000 sample_fork = Done d t \<and> d \<noteq> 0 \<and> kmem_inv t \<and> pt_ok t 0x80410000 \<and> pt_ok t d \<and> cr3 t = V2P 0x80410000
     \<and> (\<forall>vb. visited 1 0 vb \<longrightarrow> pte_of (memory t) d vb = pte_of (memory sample_fork) 0x80410000 vb AND NOT PTE_W
          \<and> pte_of (memory t) 0x80410000 vb = pte_of (memory sample_fork) 0x80410000 vb AND NOT PTE_W
          \<and> user_addr (memory t) d vb = user_addr (memory sample_fork) 0x80410000 vb
          \<and> snd (pool t) (user_frame (memory sample_fork) 0x80410000 vb) = snd (pool sample_fork) (user_frame (memory sample_fork) 0x80410000 vb) + 1)
     \<and> (\<forall>vb. \<not> visited 1 0 vb \<longrightarrow> pte_of (memory t) 0x80410000 vb = pte_of (memory sample_fork) 0x80410000 vb)
     \<and> changes_only (pt_pages (memory sample_fork) 0x80410000 \<union> set (free_pages sample_fork)) (memory sample_fork) (memory t)"
  proof (rule copyuvm_shares [OF sample_fork_props(1) _ _ sample_fork_props(5) _ st(2)])
    show "lock_ok L_kmem sample_fork" "KERNBASE \<le> kend sample_fork" "data_ok (kdata sample_fork)"
      using rg(1,2,4) by (simp_all add: sample_kproc_def data_ok_def lock_ok_def cpu_ok_def lock_free_def this_cpu_def cpu_index_def sample_cpu_def)
    show "65 + card {0 :: uint32} \<le> length (free_pages sample_fork)" using sample_rich_props(2) by (simp add: sample_fork_props(2))
    show "\<forall>vb vc. visited 1 0 vb \<and> visited 1 0 vc \<and> user_frame (memory sample_fork) 0x80410000 vb = user_frame (memory sample_fork) 0x80410000 vc
        \<longrightarrow> PGROUNDDOWN vb = PGROUNDDOWN vc" unfolding vis by simp
  qed (use fk st(1) in auto)
  then show ?thesis using v p [OF v] f [OF v] sample_fork_props(3) by fastforce
qed

text \<open>C12. \<open>copyout\<close> to user addresses that are mapped, user-accessible and distinct in memory returns 0 and
  puts byte \<open>i\<close> of the buffer where address \<open>va + i\<close> translates to, and changes no other byte.\<close>

theorem copyout_writes:
  assumes "pt_wf (memory s) d" "unat va + length buf \<le> 2 ^ 32"
    "\<forall>i < length buf. user_ok (memory s) d (va + of_nat i)"
    "inj_on (\<lambda>i. user_addr (memory s) d (va + of_nat i)) {..<length buf}"
  shows "\<exists>m'. copyout d va buf s = Done 0 (s\<lparr>memory := m'\<rparr>)
     \<and> (\<forall>i < length buf. m' (user_addr (memory s) d (va + of_nat i)) = buf ! i)
     \<and> (\<forall>x. (\<forall>i < length buf. x \<noteq> user_addr (memory s) d (va + of_nat i)) \<longrightarrow> m' x = memory s x)"
  using copyout_run [OF assms(1,2) _ assms(4)] assms(3) by blast

theorem copyout_writes_witness:
  "\<exists>m'. copyout 0x80410000 0x1FFF [42] sample_vm = Done 0 (sample_vm\<lparr>memory := m'\<rparr>) \<and> m' 0x80412FFF = 42"
proof -
  have ix: "PDX 0x1FFF = 0" "PTX 0x1FFF = 1" "PGROUNDDOWN 0x1FFF = 0x1000" by (simp_all add: PDX_def PTX_def PGROUNDDOWN_def)
  have p: "pte_of (memory sample_vm) 0x80410000 0x1FFF = 0x412005" by (simp add: sample_vm_fields sample_vm_pt(3) ix)
  then have f: "user_frame (memory sample_vm) 0x80410000 0x1FFF = 0x80412000" by (simp add: user_frame_def PTE_ADDR_def P2V_def)
  then have a: "user_addr (memory sample_vm) 0x80410000 0x1FFF = 0x80412FFF" by (simp add: user_addr_def ix(3))
  have "user_ok (memory sample_vm) 0x80410000 0x1FFF" by (simp add: user_ok_def p f sample_vm_ok(3))
  then show ?thesis
    using copyout_writes [of sample_vm "0x80410000" "0x1FFF" "[42]"] sample_vm_ok(1) a by (auto simp: pt_ok_def inj_on_def)
qed

lemma seek_slot_returns:
  assumes "chain (page_next (memory s)) pg pgs" "length pgs < fuel"
  shows "\<exists>e. seek_slot fuel pg va s = Done e s"
  using assms
proof (induction pgs arbitrary: pg fuel)
  case Nil
  then show ?case by (cases fuel) auto
next
  case (Cons q pgs)
  obtain f where f: "fuel = Suc f" using Cons.prems(2) by (cases fuel) auto
  have "\<exists>e. seek_slot f (load32 (memory s) (pg + 4)) va s = Done e s"
    using Cons by (intro Cons.IH) (auto simp: f page_next_def)
  then show ?case using Cons.prems(1) by (auto simp: f kmonad ld32_def split: option.splits)
qed

text \<open>C32. Shrinking one's own address space is impossible: \<open>deallocuvm\<close> on the page directory of the
  running process panics at the first page that is present, although its slot may well exist.\<close>

theorem deallocuvm_own_panics:
  assumes "cpu_ok s" "cur s = Some p" "d = pgdir (ptable s ! p)" "pt_wf (memory s) d" "newsz < oldsz" "PGROUNDUP newsz < oldsz"
    "pte_of (memory s) d (PGROUNDUP newsz) AND PTE_P \<noteq> 0" "PTE_ADDR (pte_of (memory s) d (PGROUNDUP newsz)) \<noteq> 0"
    "chain (page_next (memory s)) (mem_page_head (ptable s ! p)) pgs" "length pgs < page_fuel"
  shows "deallocuvm d oldsz newsz s = Panic ''Should have a slot.''"
proof -
  let ?a = "PGROUNDUP newsz"
  have "pte_of (memory s) d ?a \<noteq> 0" using assms(7) by auto
  note w = walk_pte [OF assms(4) this]
  obtain e where e: "seek_slot page_fuel (mem_page_head (ptable s ! p)) ?a s = Done e s"
    using seek_slot_returns [OF assms(9,10)] by blast
  have ld: "ld32 (pte_addr (memory s) d ?a) s = Done (pte_of (memory s) d ?a) s" by (simp add: ld32_def w(4))
  have "deallocuvm_loop (Suc n) d (Some p) oldsz newsz ?a s = Panic ''Should have a slot.''" for n
    using assms(3,6-8) w(2,3) e ld by (simp add: kmonad get_proc_def)
  then have "deallocuvm_loop page_fuel d (Some p) oldsz newsz ?a s = Panic ''Should have a slot.''"
    by (simp only: page_fuel_def)
  moreover have "(oldsz \<le> newsz) = False" using assms(5) by simp
  ultimately show ?thesis
    using assms(2) by (simp add: deallocuvm_def kmonad myproc_run [OF assms(1)])
qed

theorem deallocuvm_own_panics_witness:
  "deallocuvm 0x80410000 0x3000 0x1000 sample_vm = Panic ''Should have a slot.''"
proof -
  have "PGROUNDUP 0x1000 = 0x1000" by (simp add: PGROUNDUP_def)
  then show ?thesis
    using deallocuvm_own_panics [of sample_vm 0 "0x80410000" "0x1000" "0x3000" "[]"] sample_vm_frame(3) sample_vm_ok(1)
      sample_vm_fields(5) [of L_kmem, unfolded lock_ok_def]
    by (simp add: sample_vm_fields(3,6) pt_ok_def sample_proc_def PTE_ADDR_def page_fuel_def)
qed

end
