(* ===== verification/Bio.thy ===== *)
theory Bio
  imports Vm
begin

text \<open>
  The buffer cache of bio.c and buf.h on the memory disk of memide.c, the driver of the kernel that
  is linked with its file system image. A buffer is an entry of \<open>bcache\<close> and a pointer to it is its
  index; index \<open>NBUF\<close> is the list head \<open>bcache.head\<close>, so the list of recently used buffers runs
  through \<open>b_prev\<close> and \<open>b_next\<close> as in the code. The disk is the list of its blocks. The field
  \<open>disk_writes\<close> is not part of the program: it records the blocks written, in order, so that the
  state of the disk after a power failure can be stated.
\<close>

section \<open>Words in blocks\<close>

definition splice :: "uint8 list \<Rightarrow> nat \<Rightarrow> uint8 list \<Rightarrow> uint8 list" where
  "splice bs off new = take off bs @ new @ drop (off + length new) bs"

definition get16 :: "uint8 list \<Rightarrow> nat \<Rightarrow> uint16" where
  "get16 bs off = ucast (bs ! off) OR push_bit 8 (ucast (bs ! (off + 1)))"

definition put16 :: "uint8 list \<Rightarrow> nat \<Rightarrow> uint16 \<Rightarrow> uint8 list" where
  "put16 bs off v = splice bs off [ucast v, ucast (drop_bit 8 v)]"

definition get32 :: "uint8 list \<Rightarrow> nat \<Rightarrow> uint32" where
  "get32 bs off = ucast (bs ! off) OR push_bit 8 (ucast (bs ! (off + 1)))
     OR push_bit 16 (ucast (bs ! (off + 2))) OR push_bit 24 (ucast (bs ! (off + 3)))"

definition put32 :: "uint8 list \<Rightarrow> nat \<Rightarrow> uint32 \<Rightarrow> uint8 list" where
  "put32 bs off v = splice bs off
     [ucast v, ucast (drop_bit 8 v), ucast (drop_bit 16 v), ucast (drop_bit 24 v)]"

definition get32s :: "uint8 list \<Rightarrow> nat \<Rightarrow> nat \<Rightarrow> uint32 list" where
  "get32s bs off n = map (\<lambda>i. get32 bs (off + 4 * i)) [0..<n]"

fun put32s :: "uint8 list \<Rightarrow> nat \<Rightarrow> uint32 list \<Rightarrow> uint8 list" where
  "put32s bs off [] = bs"
| "put32s bs off (v # vs) = put32s (put32 bs off v) (off + 4) vs"

section \<open>Buffers\<close>

abbreviation (input) "BSIZE \<equiv> 512 :: nat"
abbreviation (input) "NBUF \<equiv> 30 :: nat"
abbreviation (input) "B_VALID \<equiv> 0x2 :: uint32"
abbreviation (input) "B_DIRTY \<equiv> 0x4 :: uint32"

record buf =
  b_flags :: uint32
  b_dev :: uint32
  b_blockno :: uint32
  b_refcnt :: uint32
  b_prev :: nat
  b_next :: nat
  b_qnext :: "nat option"
  b_data :: "uint8 list"

record kbuf = kvm +
  bcache :: "buf list"
  memdisk :: "uint8 list list"
  disksize :: uint32
  disk_writes :: "(nat \<times> uint8 list) list"

definition get_buf :: "nat \<Rightarrow> (buf \<Rightarrow> 'b) \<Rightarrow> ('b, 'a kbuf_scheme) kop" where
  "get_buf b f = kget (\<lambda>s. f (bcache s ! b))"

definition upd_buf :: "nat \<Rightarrow> (buf \<Rightarrow> buf) \<Rightarrow> (unit, 'a kbuf_scheme) kop" where
  "upd_buf b f = kmod (\<lambda>s. s\<lparr>bcache := (bcache s)[b := f (bcache s ! b)]\<rparr>)"

section \<open>The memory disk\<close>

text \<open>The image \<open>_binary_fs_img_start\<close>, of \<open>_binary_fs_img_size\<close> bytes, is linked into the kernel.\<close>

definition ideinit :: "uint8 list list \<Rightarrow> uint32 \<Rightarrow> (unit, 'a kbuf_scheme) kop" where
  "ideinit img img_size =
     kseq (kmod (\<lambda>s. s\<lparr>memdisk := img\<rparr>)) (
     kmod (\<lambda>s. s\<lparr>disksize := img_size div 512\<rparr>))"

definition disk_write :: "nat \<Rightarrow> uint8 list \<Rightarrow> (unit, 'a kbuf_scheme) kop" where
  "disk_write n bs = kmod (\<lambda>s. s\<lparr>memdisk := (memdisk s)[n := bs], disk_writes := disk_writes s @ [(n, bs)]\<rparr>)"

definition iderw :: "nat \<Rightarrow> (unit, 'a kbuf_scheme) kop" where
  "iderw b =
     kbind (holdingsleep (S_buf b)) (\<lambda>h.
     kseq (kassert (h \<noteq> 0) ''iderw: buf not locked'') (
     kbind (get_buf b b_flags) (\<lambda>fl.
     kseq (kassert (fl AND (B_VALID OR B_DIRTY) \<noteq> B_VALID) ''iderw: nothing to do'') (
     kbind (get_buf b b_dev) (\<lambda>dev.
     kseq (kassert (dev = 1) ''iderw: request not for disk 1'') (
     kbind (get_buf b b_blockno) (\<lambda>n.
     kbind (kget disksize) (\<lambda>d.
     kseq (kassert (n < d) ''iderw: block out of range'') (
     kseq (if fl AND B_DIRTY \<noteq> 0 then
         kseq (upd_buf b (\<lambda>x. x\<lparr>b_flags := b_flags x AND NOT B_DIRTY\<rparr>)) (
         kbind (get_buf b b_data) (\<lambda>bs. disk_write (unat n) bs))
       else
         kbind (kget (\<lambda>s. memdisk s ! unat n)) (\<lambda>bs. upd_buf b (\<lambda>x. x\<lparr>b_data := bs\<rparr>))) (
     upd_buf b (\<lambda>x. x\<lparr>b_flags := b_flags x OR B_VALID\<rparr>)))))))))))"

section \<open>The cache\<close>

text \<open>Taking a buffer out of the list and putting one at its front, as \<open>binit\<close> and \<open>brelse\<close> write it out.\<close>

definition lru_unlink :: "nat \<Rightarrow> (unit, 'a kbuf_scheme) kop" where
  "lru_unlink b =
     kbind (get_buf b b_next) (\<lambda>nx.
     kbind (get_buf b b_prev) (\<lambda>pv.
     kseq (upd_buf nx (\<lambda>x. x\<lparr>b_prev := pv\<rparr>)) (
     upd_buf pv (\<lambda>x. x\<lparr>b_next := nx\<rparr>))))"

definition lru_push :: "nat \<Rightarrow> (unit, 'a kbuf_scheme) kop" where
  "lru_push b =
     kbind (get_buf NBUF b_next) (\<lambda>nx.
     kseq (upd_buf b (\<lambda>x. x\<lparr>b_next := nx\<rparr>)) (
     kseq (upd_buf b (\<lambda>x. x\<lparr>b_prev := NBUF\<rparr>)) (
     kseq (upd_buf nx (\<lambda>x. x\<lparr>b_prev := b\<rparr>)) (
     upd_buf NBUF (\<lambda>x. x\<lparr>b_next := b\<rparr>)))))"

fun binit_loop :: "nat list \<Rightarrow> (unit, 'a kbuf_scheme) kop" where
  "binit_loop [] = kret ()"
| "binit_loop (b # bs) = kseq (lru_push b) (kseq (initsleeplock (S_buf b)) (binit_loop bs))"

definition binit :: "(unit, 'a kbuf_scheme) kop" where
  "binit =
     kseq (initlock L_bcache) (
     kseq (upd_buf NBUF (\<lambda>x. x\<lparr>b_prev := NBUF\<rparr>)) (
     kseq (upd_buf NBUF (\<lambda>x. x\<lparr>b_next := NBUF\<rparr>)) (
     binit_loop [0..<NBUF])))"

text \<open>The two searches of \<open>bget\<close>, forwards for a cached block and backwards for a buffer to recycle;
  \<open>Suc NBUF\<close> steps reach the list head.\<close>

fun scan_bufs :: "nat \<Rightarrow> (buf \<Rightarrow> nat) \<Rightarrow> (buf \<Rightarrow> bool) \<Rightarrow> nat \<Rightarrow> (nat option, 'a kbuf_scheme) kop" where
  "scan_bufs 0 follow P b = kspin"
| "scan_bufs (Suc n) follow P b =
     (if b = NBUF then kret None else
      kbind (get_buf b id) (\<lambda>x. if P x then kret (Some b) else scan_bufs n follow P (follow x)))"

definition bget :: "uint32 \<Rightarrow> uint32 \<Rightarrow> (nat, 'a kbuf_scheme) kop" where
  "bget dev blockno =
     kseq (acquire L_bcache) (
     kbind (get_buf NBUF b_next) (\<lambda>h.
     kbind (scan_bufs (Suc NBUF) b_next (\<lambda>x. b_dev x = dev \<and> b_blockno x = blockno) h) (\<lambda>r.
     case r of
       Some b \<Rightarrow>
         kseq (upd_buf b (\<lambda>x. x\<lparr>b_refcnt := b_refcnt x + 1\<rparr>)) (
         kseq (release L_bcache) (
         kseq (acquiresleep (S_buf b)) (kret b)))
     | None \<Rightarrow>
         kbind (get_buf NBUF b_prev) (\<lambda>h.
         kbind (scan_bufs (Suc NBUF) b_prev (\<lambda>x. b_refcnt x = 0 \<and> b_flags x AND B_DIRTY = 0) h) (\<lambda>r.
         case r of
           Some b \<Rightarrow>
             kseq (upd_buf b (\<lambda>x. x\<lparr>b_dev := dev, b_blockno := blockno, b_flags := 0, b_refcnt := 1\<rparr>)) (
             kseq (release L_bcache) (
             kseq (acquiresleep (S_buf b)) (kret b)))
         | None \<Rightarrow> kpanic ''bget: no buffers'')))))"

definition bread :: "uint32 \<Rightarrow> uint32 \<Rightarrow> (nat, 'a kbuf_scheme) kop" where
  "bread dev blockno =
     kbind (bget dev blockno) (\<lambda>b.
     kbind (get_buf b b_flags) (\<lambda>fl.
     kseq (kwhen (fl AND B_VALID = 0) (iderw b)) (kret b)))"

definition bwrite :: "nat \<Rightarrow> (unit, 'a kbuf_scheme) kop" where
  "bwrite b =
     kbind (holdingsleep (S_buf b)) (\<lambda>h.
     kseq (kassert (h \<noteq> 0) ''bwrite'') (
     kseq (upd_buf b (\<lambda>x. x\<lparr>b_flags := b_flags x OR B_DIRTY\<rparr>)) (
     iderw b)))"

definition brelse :: "nat \<Rightarrow> (unit, 'a kbuf_scheme) kop" where
  "brelse b =
     kbind (holdingsleep (S_buf b)) (\<lambda>h.
     kseq (kassert (h \<noteq> 0) ''brelse'') (
     kseq (releasesleep (S_buf b)) (
     kseq (acquire L_bcache) (
     kseq (upd_buf b (\<lambda>x. x\<lparr>b_refcnt := b_refcnt x - 1\<rparr>)) (
     kbind (get_buf b b_refcnt) (\<lambda>r.
     kseq (kwhen (r = 0) (kseq (lru_unlink b) (lru_push b))) (
     release L_bcache)))))))"

end
