(* ===== verification/Log.thy ===== *)
theory Log
  imports Bio
begin

text \<open>
  The write-ahead log of log.c on the buffer cache, with \<open>readsb\<close> of fs.c: a transaction of several
  system calls, the commit through the log blocks and the header, and the recovery that replays a
  committed log. The header block holds the number of logged blocks and their home addresses as
  words; \<open>log.lh\<close> is its copy in memory.
\<close>

abbreviation (input) "LOGSIZE \<equiv> 30 :: nat"
abbreviation (input) "MAXOPBLOCKS \<equiv> 10 :: int"

record superblock =
  sb_size :: uint32
  sb_nblocks :: uint32
  sb_ninodes :: uint32
  sb_nlog :: uint32
  sb_logstart :: uint32
  sb_inodestart :: uint32
  sb_bmapstart :: uint32

record log =
  lg_start :: uint32
  lg_size :: int
  lg_outstanding :: int
  lg_committing :: int
  lg_dev :: uint32
  lh_n :: int
  lh_block :: "uint32 list"

record klog = kbuf +
  lg :: log

definition upd_log :: "(log \<Rightarrow> log) \<Rightarrow> (unit, 'a klog_scheme) kop" where
  "upd_log f = kmod (\<lambda>s. s\<lparr>lg := f (lg s)\<rparr>)"

definition get_log :: "(log \<Rightarrow> 'b) \<Rightarrow> ('b, 'a klog_scheme) kop" where
  "get_log f = kget (\<lambda>s. f (lg s))"

definition superblock_of :: "uint8 list \<Rightarrow> superblock" where
  "superblock_of bs = \<lparr>sb_size = get32 bs 0, sb_nblocks = get32 bs 4, sb_ninodes = get32 bs 8, sb_nlog = get32 bs 12,
     sb_logstart = get32 bs 16, sb_inodestart = get32 bs 20, sb_bmapstart = get32 bs 24\<rparr>"

definition readsb :: "uint32 \<Rightarrow> (superblock, 'a kbuf_scheme) kop" where
  "readsb dev =
     kbind (bread dev 1) (\<lambda>bp.
     kbind (get_buf bp (\<lambda>b. superblock_of (b_data b))) (\<lambda>sb.
     kseq (brelse bp) (kret sb)))"

section \<open>Commit and recovery\<close>

text \<open>One round of \<open>install_trans\<close> copies log block \<open>tail\<close> to its home location.\<close>

definition install_one :: "nat \<Rightarrow> (unit, 'a klog_scheme) kop" where
  "install_one tail =
     kbind (kget lg) (\<lambda>l.
     kbind (bread (lg_dev l) (lg_start l + of_nat tail + 1)) (\<lambda>lbuf.
     kbind (bread (lg_dev l) (lh_block l ! tail)) (\<lambda>dbuf.
     kbind (get_buf lbuf b_data) (\<lambda>bs.
     kseq (upd_buf dbuf (\<lambda>x. x\<lparr>b_data := bs\<rparr>)) (
     kseq (bwrite dbuf) (
     kseq (brelse lbuf) (brelse dbuf)))))))"

fun for_each :: "(nat \<Rightarrow> (unit, 's) kop) \<Rightarrow> nat list \<Rightarrow> (unit, 's) kop" where
  "for_each f [] = kret ()"
| "for_each f (i # is) = kseq (f i) (for_each f is)"

definition install_trans :: "(unit, 'a klog_scheme) kop" where
  "install_trans = kbind (get_log lh_n) (\<lambda>n. for_each install_one [0..<nat n])"

definition read_head :: "(unit, 'a klog_scheme) kop" where
  "read_head =
     kbind (kget lg) (\<lambda>l.
     kbind (bread (lg_dev l) (lg_start l)) (\<lambda>b.
     kbind (get_buf b b_data) (\<lambda>bs.
     let n = sint (get32 bs 0) in
     if n > int LOGSIZE then kfault else
     kseq (upd_log (\<lambda>l. l\<lparr>lh_n := n, lh_block := get32s bs 4 (nat n) @ drop (nat n) (lh_block l)\<rparr>)) (
     brelse b))))"

definition write_head :: "(unit, 'a klog_scheme) kop" where
  "write_head =
     kbind (kget lg) (\<lambda>l.
     kbind (bread (lg_dev l) (lg_start l)) (\<lambda>b.
     kseq (upd_buf b (\<lambda>x. x\<lparr>b_data :=
         put32s (put32 (b_data x) 0 (of_int (lh_n l))) 4 (take (nat (lh_n l)) (lh_block l))\<rparr>)) (
     kseq (bwrite b) (brelse b))))"

definition recover_from_log :: "(unit, 'a klog_scheme) kop" where
  "recover_from_log =
     kseq read_head (
     kseq install_trans (
     kseq (upd_log (\<lambda>l. l\<lparr>lh_n := 0\<rparr>)) write_head))"

text \<open>\<open>sizeof(struct logheader)\<close> is \<open>4 + 4 * LOGSIZE\<close>.\<close>

definition initlog :: "uint32 \<Rightarrow> (unit, 'a klog_scheme) kop" where
  "initlog dev =
     kseq (kassert (4 + 4 * LOGSIZE < BSIZE) ''initlog: too big logheader'') (
     kseq (initlock L_log) (
     kbind (readsb dev) (\<lambda>sb.
     kseq (upd_log (\<lambda>l. l\<lparr>lg_start := sb_logstart sb, lg_size := sint (sb_nlog sb), lg_dev := dev\<rparr>)) (
     recover_from_log))))"

definition write_log_one :: "nat \<Rightarrow> (unit, 'a klog_scheme) kop" where
  "write_log_one tail =
     kbind (kget lg) (\<lambda>l.
     kbind (bread (lg_dev l) (lg_start l + of_nat tail + 1)) (\<lambda>to.
     kbind (bread (lg_dev l) (lh_block l ! tail)) (\<lambda>from.
     kbind (get_buf from b_data) (\<lambda>bs.
     kseq (upd_buf to (\<lambda>x. x\<lparr>b_data := bs\<rparr>)) (
     kseq (bwrite to) (
     kseq (brelse from) (brelse to)))))))"

definition write_log :: "(unit, 'a klog_scheme) kop" where
  "write_log = kbind (get_log lh_n) (\<lambda>n. for_each write_log_one [0..<nat n])"

definition commit :: "(unit, 'a klog_scheme) kop" where
  "commit =
     kbind (get_log lh_n) (\<lambda>n.
     kwhen (n > 0) (
       kseq write_log (
       kseq write_head (
       kseq install_trans (
       kseq (upd_log (\<lambda>l. l\<lparr>lh_n := 0\<rparr>)) write_head)))))"

section \<open>Transactions\<close>

text \<open>A process that finds no room goes to sleep; it repeats the test when it runs again.\<close>

definition begin_op :: "(unit, 'a klog_scheme) kop" where
  "begin_op =
     kseq (acquire L_log) (
     kbind (kget lg) (\<lambda>l.
     if lg_committing l \<noteq> 0 then sleep C_log L_log
     else if lh_n l + (lg_outstanding l + 1) * MAXOPBLOCKS > int LOGSIZE then sleep C_log L_log
     else kseq (upd_log (\<lambda>l. l\<lparr>lg_outstanding := lg_outstanding l + 1\<rparr>)) (release L_log)))"

definition end_op :: "(unit, 'a klog_scheme) kop" where
  "end_op =
     kseq (acquire L_log) (
     kseq (upd_log (\<lambda>l. l\<lparr>lg_outstanding := lg_outstanding l - 1\<rparr>)) (
     kbind (kget lg) (\<lambda>l.
     kseq (kassert (lg_committing l = 0) ''log.committing'') (
     kseq (if lg_outstanding l = 0 then upd_log (\<lambda>l. l\<lparr>lg_committing := 1\<rparr>) else wakeup C_log) (
     kseq (release L_log) (
     kwhen (lg_outstanding l = 0) (
       kseq commit (
       kseq (acquire L_log) (
       kseq (upd_log (\<lambda>l. l\<lparr>lg_committing := 0\<rparr>)) (
       kseq (wakeup C_log) (release L_log)))))))))))"

text \<open>The index at which \<open>log_write\<close> records a block: its old one if it is logged already, the next
  free one otherwise.\<close>

definition log_slot :: "uint32 \<Rightarrow> log \<Rightarrow> nat" where
  "log_slot n l = (case find_index (\<lambda>b. b = n) (take (nat (lh_n l)) (lh_block l)) of
     Some i \<Rightarrow> i | None \<Rightarrow> nat (lh_n l))"

definition log_write :: "nat \<Rightarrow> (unit, 'a klog_scheme) kop" where
  "log_write b =
     kbind (kget lg) (\<lambda>l.
     kseq (kassert (\<not> (lh_n l \<ge> int LOGSIZE \<or> lh_n l \<ge> lg_size l - 1)) ''too big a transaction'') (
     kseq (kassert (\<not> lg_outstanding l < 1) ''log_write outside of trans'') (
     kseq (acquire L_log) (
     kbind (get_buf b b_blockno) (\<lambda>n.
     kbind (get_log (log_slot n)) (\<lambda>i.
     kseq (upd_log (\<lambda>l. l\<lparr>lh_block := (lh_block l)[i := n]\<rparr>)) (
     kseq (upd_log (\<lambda>l. if int i = lh_n l then l\<lparr>lh_n := lh_n l + 1\<rparr> else l)) (
     kseq (upd_buf b (\<lambda>x. x\<lparr>b_flags := b_flags x OR B_DIRTY\<rparr>)) (
     release L_log)))))))))"

end
