(* ===== verification/UserMem.thy ===== *)
theory UserMem
  imports Vm
begin

text \<open>
  How the kernel reads and writes through an address that a system call or a kernel buffer gives it.
  Kernel addresses are mapped one to one (see \<open>kmap\<close>); user addresses are translated by the page
  tables the processor uses. An access that the page tables do not allow is the outcome \<open>Fault\<close>: the
  page fault that the processor takes in kernel mode is not modelled.
\<close>

text \<open>The tables are walked as the processor does; a write needs the writable bit also in kernel mode,
  since entry.S sets \<open>CR0_WP\<close>.\<close>

definition mmu_translate :: "mem \<Rightarrow> uint32 \<Rightarrow> bool \<Rightarrow> uint32 \<Rightarrow> uint32 option" where
  "mmu_translate m dir wr va =
     (let pde = load32 m (P2V (PTE_ADDR dir) + 4 * PDX va) in
      if pde AND PTE_P = 0 then None else
      let pte = load32 m (P2V (PTE_ADDR pde) + 4 * PTX va) in
      if pte AND PTE_P = 0 then None else
      if wr \<and> pde AND pte AND PTE_W = 0 then None else
      Some (P2V (PTE_ADDR pte) + (va - PGROUNDDOWN va)))"

definition kaddr :: "'a kheap_scheme \<Rightarrow> bool \<Rightarrow> uint32 \<Rightarrow> uint32 option" where
  "kaddr s wr va = (if va \<ge> KERNBASE then Some va else mmu_translate (memory s) (cr3 s) wr va)"

definition kload8 :: "uint32 \<Rightarrow> (uint8, 'a kheap_scheme) kop" where
  "kload8 va = (\<lambda>s. case kaddr s False va of None \<Rightarrow> Fault | Some a \<Rightarrow> Done (memory s a) s)"

definition kstore8 :: "uint32 \<Rightarrow> uint8 \<Rightarrow> (unit, 'a kheap_scheme) kop" where
  "kstore8 va b = (\<lambda>s. case kaddr s True va of None \<Rightarrow> Fault | Some a \<Rightarrow> Done () (s\<lparr>memory := (memory s)(a := b)\<rparr>))"

fun kload :: "uint32 \<Rightarrow> nat \<Rightarrow> (uint8 list, 'a kheap_scheme) kop" where
  "kload va 0 = kret []"
| "kload va (Suc n) = kbind (kload8 va) (\<lambda>b. kbind (kload (va + 1) n) (\<lambda>bs. kret (b # bs)))"

fun kstore :: "uint32 \<Rightarrow> uint8 list \<Rightarrow> (unit, 'a kheap_scheme) kop" where
  "kstore va [] = kret ()"
| "kstore va (b # bs) = kseq (kstore8 va b) (kstore (va + 1) bs)"

definition word_of_bytes :: "uint8 list \<Rightarrow> uint32" where
  "word_of_bytes bs = ucast (bs ! 0) OR push_bit 8 (ucast (bs ! 1)) OR push_bit 16 (ucast (bs ! 2)) OR push_bit 24 (ucast (bs ! 3))"

definition bytes_of :: "uint32 \<Rightarrow> uint8 list" where
  "bytes_of v = [ucast v, ucast (drop_bit 8 v), ucast (drop_bit 16 v), ucast (drop_bit 24 v)]"

definition kload32 :: "uint32 \<Rightarrow> (uint32, 'a kheap_scheme) kop" where
  "kload32 va = kbind (kload va 4) (\<lambda>bs. kret (word_of_bytes bs))"

definition kstore32 :: "uint32 \<Rightarrow> uint32 \<Rightarrow> (unit, 'a kheap_scheme) kop" where
  "kstore32 va v = kstore va (bytes_of v)"

text \<open>The bytes of a string up to its end, at most \<open>n\<close> of them; the flag tells whether the end was found.\<close>

fun kloadstr :: "nat \<Rightarrow> uint32 \<Rightarrow> (uint8 list \<times> bool, 'a kheap_scheme) kop" where
  "kloadstr 0 va = kret ([], False)"
| "kloadstr (Suc n) va = kbind (kload8 va) (\<lambda>b.
     if b = 0 then kret ([], True)
     else kbind (kloadstr n (va + 1)) (\<lambda>(bs, fin). kret (b # bs, fin)))"

end
