(* ===== verification/Inode.thy ===== *)
theory Inode
  imports Log UserMem
begin

text \<open>
  The lower half of fs.c: blocks and their bitmap, the inode cache with its reference counts and
  locks, the copy of an inode on disk, and the block map of a file. An inode of the cache is an index
  into \<open>icache\<close>; a null pointer is \<open>None\<close>. The super block read by \<open>iinit\<close> and \<open>bfree\<close> is \<open>sb\<close>.
\<close>

abbreviation (input) "BPB \<equiv> 4096 :: uint32"
abbreviation (input) "IPB \<equiv> 8 :: uint32"
abbreviation (input) "NDIRECT \<equiv> 12 :: nat"
abbreviation (input) "NINDIRECT \<equiv> 128 :: nat"
abbreviation (input) "NINODE \<equiv> 50 :: nat"
abbreviation (input) "ROOTDEV \<equiv> 1 :: uint32"
abbreviation (input) "ROOTINO \<equiv> 1 :: uint32"
abbreviation (input) "T_DIR \<equiv> 1 :: uint16"
abbreviation (input) "T_FILE \<equiv> 2 :: uint16"
abbreviation (input) "T_DEV \<equiv> 3 :: uint16"

record inode =
  i_dev :: uint32
  i_inum :: uint32
  i_ref :: int
  i_valid :: uint32
  i_type :: uint16
  i_major :: uint16
  i_minor :: uint16
  i_nlink :: uint16
  i_size :: uint32
  i_addrs :: "uint32 list"

record kfs = klog +
  sb :: superblock
  icache :: "inode list"

definition get_inode :: "nat \<Rightarrow> (inode \<Rightarrow> 'b) \<Rightarrow> ('b, 'a kfs_scheme) kop" where
  "get_inode i f = kget (\<lambda>s. f (icache s ! i))"

definition upd_inode :: "nat \<Rightarrow> (inode \<Rightarrow> inode) \<Rightarrow> (unit, 'a kfs_scheme) kop" where
  "upd_inode i f = kmod (\<lambda>s. s\<lparr>icache := (icache s)[i := f (icache s ! i)]\<rparr>)"

section \<open>Blocks\<close>

definition BBLOCK :: "uint32 \<Rightarrow> superblock \<Rightarrow> uint32" where
  "BBLOCK b su = b div BPB + sb_bmapstart su"

definition IBLOCK :: "uint32 \<Rightarrow> superblock \<Rightarrow> uint32" where
  "IBLOCK i su = i div IPB + sb_inodestart su"

definition bzero :: "uint32 \<Rightarrow> uint32 \<Rightarrow> (unit, 'a klog_scheme) kop" where
  "bzero dev bno =
     kbind (bread dev bno) (\<lambda>bp.
     kseq (upd_buf bp (\<lambda>x. x\<lparr>b_data := replicate BSIZE 0\<rparr>)) (
     kseq (log_write bp) (brelse bp)))"

text \<open>The bit of block \<open>bi\<close> in a bitmap block.\<close>

definition bmap_mask :: "nat \<Rightarrow> uint8" where
  "bmap_mask bi = push_bit (bi mod 8) 1"

definition bmap_used :: "uint8 list \<Rightarrow> nat \<Rightarrow> bool" where
  "bmap_used bs bi \<longleftrightarrow> bs ! (bi div 8) AND bmap_mask bi \<noteq> 0"

definition free_bit :: "uint8 list \<Rightarrow> nat \<Rightarrow> nat option" where
  "free_bit bs lim = find (\<lambda>bi. \<not> bmap_used bs bi) [0..<min 4096 lim]"

fun balloc_loop :: "nat \<Rightarrow> uint32 \<Rightarrow> uint32 \<Rightarrow> (uint32, 'a kfs_scheme) kop" where
  "balloc_loop 0 dev b = kspin"
| "balloc_loop (Suc n) dev b =
     kbind (kget sb) (\<lambda>sb.
     if \<not> b < sb_size sb then kpanic ''balloc: out of blocks'' else
     kbind (bread dev (BBLOCK b sb)) (\<lambda>bp.
     kbind (get_buf bp b_data) (\<lambda>bs.
     case free_bit bs (unat (sb_size sb) - unat b) of
       Some bi \<Rightarrow>
         kseq (upd_buf bp (\<lambda>x. x\<lparr>b_data := (b_data x)[bi div 8 := b_data x ! (bi div 8) OR bmap_mask bi]\<rparr>)) (
         kseq (log_write bp) (
         kseq (brelse bp) (
         kseq (bzero dev (b + of_nat bi)) (
         kret (b + of_nat bi)))))
     | None \<Rightarrow> kseq (brelse bp) (balloc_loop n dev (b + BPB)))))"

definition balloc :: "uint32 \<Rightarrow> (uint32, 'a kfs_scheme) kop" where
  "balloc dev = balloc_loop page_fuel dev 0"

definition bfree :: "uint32 \<Rightarrow> uint32 \<Rightarrow> (unit, 'a kfs_scheme) kop" where
  "bfree dev b =
     kbind (readsb dev) (\<lambda>sb'.
     kseq (kmod (\<lambda>s. s\<lparr>sb := sb'\<rparr>)) (
     kbind (bread dev (BBLOCK b sb')) (\<lambda>bp.
     let bi = unat (b mod BPB) in
     kbind (get_buf bp b_data) (\<lambda>bs.
     kseq (kassert (bmap_used bs bi) ''freeing free block'') (
     kseq (upd_buf bp (\<lambda>x. x\<lparr>b_data := (b_data x)[bi div 8 := b_data x ! (bi div 8) AND NOT (bmap_mask bi)]\<rparr>)) (
     kseq (log_write bp) (brelse bp)))))))"

section \<open>The inode cache\<close>

definition iinit :: "uint32 \<Rightarrow> (unit, 'a kfs_scheme) kop" where
  "iinit dev =
     kseq (initlock L_icache) (
     kseq (for_each (\<lambda>i. initsleeplock (S_inode i)) [0..<NINODE]) (
     kbind (readsb dev) (\<lambda>sb'. kmod (\<lambda>s. s\<lparr>sb := sb'\<rparr>))))"

text \<open>The entry of an inode, or the first unused one.\<close>

definition iget :: "uint32 \<Rightarrow> uint32 \<Rightarrow> (nat, 'a kfs_scheme) kop" where
  "iget dev inum =
     kseq (acquire L_icache) (
     kbind (kget (\<lambda>s. find_index (\<lambda>ip. i_ref ip > 0 \<and> i_dev ip = dev \<and> i_inum ip = inum) (icache s))) (\<lambda>r.
     case r of
       Some i \<Rightarrow>
         kseq (upd_inode i (\<lambda>ip. ip\<lparr>i_ref := i_ref ip + 1\<rparr>)) (
         kseq (release L_icache) (kret i))
     | None \<Rightarrow>
         kbind (kget (\<lambda>s. find_index (\<lambda>ip. i_ref ip = 0) (icache s))) (\<lambda>r.
         case r of
           None \<Rightarrow> kpanic ''iget: no inodes''
         | Some i \<Rightarrow>
             kseq (upd_inode i (\<lambda>ip. ip\<lparr>i_dev := dev, i_inum := inum, i_ref := 1, i_valid := 0\<rparr>)) (
             kseq (release L_icache) (kret i)))))"

definition idup :: "nat \<Rightarrow> (nat, 'a kfs_scheme) kop" where
  "idup i =
     kseq (acquire L_icache) (
     kseq (upd_inode i (\<lambda>ip. ip\<lparr>i_ref := i_ref ip + 1\<rparr>)) (
     kseq (release L_icache) (kret i)))"

text \<open>The structure \<open>dinode\<close> at offset \<open>o\<close> of a block, 64 bytes long.\<close>

definition dinode_off :: "uint32 \<Rightarrow> nat" where
  "dinode_off inum = 64 * unat (inum mod IPB)"

definition load_dinode :: "uint8 list \<Rightarrow> nat \<Rightarrow> inode \<Rightarrow> inode" where
  "load_dinode bs o1 ip = ip\<lparr>i_type := get16 bs o1, i_major := get16 bs (o1 + 2), i_minor := get16 bs (o1 + 4),
     i_nlink := get16 bs (o1 + 6), i_size := get32 bs (o1 + 8), i_addrs := get32s bs (o1 + 12) (Suc NDIRECT)\<rparr>"

definition store_dinode :: "inode \<Rightarrow> uint8 list \<Rightarrow> nat \<Rightarrow> uint8 list" where
  "store_dinode ip bs o1 =
     put32s (put32 (put16 (put16 (put16 (put16 bs o1 (i_type ip)) (o1 + 2) (i_major ip)) (o1 + 4) (i_minor ip))
       (o1 + 6) (i_nlink ip)) (o1 + 8) (i_size ip)) (o1 + 12) (i_addrs ip)"

fun ialloc_scan :: "uint32 \<Rightarrow> uint16 \<Rightarrow> nat list \<Rightarrow> (nat, 'a kfs_scheme) kop" where
  "ialloc_scan dev type [] = kpanic ''ialloc: no inodes''"
| "ialloc_scan dev type (i # is) =
     (let inum = of_nat i in
     kbind (kget sb) (\<lambda>sb.
     kbind (bread dev (IBLOCK inum sb)) (\<lambda>bp.
     kbind (get_buf bp b_data) (\<lambda>bs.
     if get16 bs (dinode_off inum) = 0 then
       kseq (upd_buf bp (\<lambda>x. x\<lparr>b_data := put16 (splice (b_data x) (dinode_off inum) (replicate 64 0)) (dinode_off inum) type\<rparr>)) (
       kseq (log_write bp) (
       kseq (brelse bp) (iget dev inum)))
     else kseq (brelse bp) (ialloc_scan dev type is)))))"

definition ialloc :: "uint32 \<Rightarrow> uint16 \<Rightarrow> (nat, 'a kfs_scheme) kop" where
  "ialloc dev type = kbind (kget sb) (\<lambda>sb. ialloc_scan dev type [1..<unat (sb_ninodes sb)])"

definition iupdate :: "nat \<Rightarrow> (unit, 'a kfs_scheme) kop" where
  "iupdate i =
     kbind (get_inode i id) (\<lambda>ip.
     kbind (kget sb) (\<lambda>sb.
     kbind (bread (i_dev ip) (IBLOCK (i_inum ip) sb)) (\<lambda>bp.
     kseq (upd_buf bp (\<lambda>x. x\<lparr>b_data := store_dinode ip (b_data x) (dinode_off (i_inum ip))\<rparr>)) (
     kseq (log_write bp) (brelse bp)))))"

definition ilock :: "nat option \<Rightarrow> (unit, 'a kfs_scheme) kop" where
  "ilock ip =
     (case ip of None \<Rightarrow> kpanic ''ilock'' | Some i \<Rightarrow>
     kbind (get_inode i i_ref) (\<lambda>r.
     kseq (kassert (\<not> r < 1) ''ilock'') (
     kseq (acquiresleep (S_inode i)) (
     kbind (get_inode i i_valid) (\<lambda>v.
     kwhen (v = 0) (
       kbind (kget sb) (\<lambda>sb.
       kbind (get_inode i id) (\<lambda>ip.
       kbind (bread (i_dev ip) (IBLOCK (i_inum ip) sb)) (\<lambda>bp.
       kbind (get_buf bp b_data) (\<lambda>bs.
       kseq (upd_inode i (load_dinode bs (dinode_off (i_inum ip)))) (
       kseq (brelse bp) (
       kseq (upd_inode i (\<lambda>ip. ip\<lparr>i_valid := 1\<rparr>)) (
       kbind (get_inode i i_type) (\<lambda>t.
       kassert (t \<noteq> 0) ''ilock: no type''))))))))))))))"

definition iunlock :: "nat option \<Rightarrow> (unit, 'a kfs_scheme) kop" where
  "iunlock ip =
     (case ip of None \<Rightarrow> kpanic ''iunlock'' | Some i \<Rightarrow>
     kbind (holdingsleep (S_inode i)) (\<lambda>h.
     kbind (get_inode i i_ref) (\<lambda>r.
     kseq (kassert (h \<noteq> 0 \<and> \<not> r < 1) ''iunlock'') (
     releasesleep (S_inode i)))))"

section \<open>The blocks of a file\<close>

definition set_addr :: "nat \<Rightarrow> nat \<Rightarrow> uint32 \<Rightarrow> (unit, 'a kfs_scheme) kop" where
  "set_addr i k a = upd_inode i (\<lambda>ip. ip\<lparr>i_addrs := (i_addrs ip)[k := a]\<rparr>)"

text \<open>Entry \<open>k\<close> of \<open>ip->addrs\<close>, with a new block if it is empty.\<close>

definition ensure_addr :: "nat \<Rightarrow> nat \<Rightarrow> (uint32, 'a kfs_scheme) kop" where
  "ensure_addr i k =
     kbind (get_inode i (\<lambda>ip. i_addrs ip ! k)) (\<lambda>a.
     if a \<noteq> 0 then kret a else
     kbind (get_inode i i_dev) (\<lambda>dev.
     kbind (balloc dev) (\<lambda>a. kseq (set_addr i k a) (kret a))))"

definition bmap :: "nat \<Rightarrow> uint32 \<Rightarrow> (uint32, 'a kfs_scheme) kop" where
  "bmap i bn =
     (if bn < of_nat NDIRECT then ensure_addr i (unat bn)
      else
        let bn = bn - of_nat NDIRECT in
        if bn < of_nat NINDIRECT then
          kbind (ensure_addr i NDIRECT) (\<lambda>addr.
          kbind (get_inode i i_dev) (\<lambda>dev.
          kbind (bread dev addr) (\<lambda>bp.
          kbind (get_buf bp (\<lambda>b. get32 (b_data b) (4 * unat bn))) (\<lambda>a.
          kbind (if a \<noteq> 0 then kret a else
              kbind (balloc dev) (\<lambda>a.
              kseq (upd_buf bp (\<lambda>x. x\<lparr>b_data := put32 (b_data x) (4 * unat bn) a\<rparr>)) (
              kseq (log_write bp) (kret a)))) (\<lambda>a.
          kseq (brelse bp) (kret a))))))
        else kpanic ''bmap: out of range'')"

definition free_addr :: "nat \<Rightarrow> nat \<Rightarrow> (unit, 'a kfs_scheme) kop" where
  "free_addr i k =
     kbind (get_inode i (\<lambda>ip. i_addrs ip ! k)) (\<lambda>a.
     kwhen (a \<noteq> 0) (
       kbind (get_inode i i_dev) (\<lambda>dev. kseq (bfree dev a) (set_addr i k 0))))"

definition itrunc :: "nat \<Rightarrow> (unit, 'a kfs_scheme) kop" where
  "itrunc i =
     kseq (for_each (free_addr i) [0..<NDIRECT]) (
     kbind (get_inode i (\<lambda>ip. i_addrs ip ! NDIRECT)) (\<lambda>ind.
     kseq (kwhen (ind \<noteq> 0) (
       kbind (get_inode i i_dev) (\<lambda>dev.
       kbind (bread dev ind) (\<lambda>bp.
       kseq (for_each (\<lambda>j.
           kbind (get_buf bp (\<lambda>b. get32 (b_data b) (4 * j))) (\<lambda>a. kwhen (a \<noteq> 0) (bfree dev a))) [0..<NINDIRECT]) (
       kseq (brelse bp) (free_addr i NDIRECT)))))) (
     kseq (upd_inode i (\<lambda>ip. ip\<lparr>i_size := 0\<rparr>)) (
     iupdate i))))"

text \<open>\<open>iput\<close> on the last reference to an inode without links frees its contents and the inode itself.\<close>

definition ifree :: "nat \<Rightarrow> (unit, 'a kfs_scheme) kop" where
  "ifree i =
     kseq (acquire L_icache) (
     kbind (get_inode i i_ref) (\<lambda>r.
     kseq (release L_icache) (
     kwhen (r = 1) (
       kseq (itrunc i) (
       kseq (upd_inode i (\<lambda>ip. ip\<lparr>i_type := 0\<rparr>)) (
       kseq (iupdate i) (
       upd_inode i (\<lambda>ip. ip\<lparr>i_valid := 0\<rparr>))))))))"

definition iput :: "nat \<Rightarrow> (unit, 'a kfs_scheme) kop" where
  "iput i =
     kseq (acquiresleep (S_inode i)) (
     kbind (get_inode i id) (\<lambda>ip.
     kseq (kwhen (i_valid ip \<noteq> 0 \<and> i_nlink ip = 0) (ifree i)) (
     kseq (releasesleep (S_inode i)) (
     kseq (acquire L_icache) (
     kseq (upd_inode i (\<lambda>ip. ip\<lparr>i_ref := i_ref ip - 1\<rparr>)) (
     release L_icache))))))"

definition iunlockput :: "nat \<Rightarrow> (unit, 'a kfs_scheme) kop" where
  "iunlockput i = kseq (iunlock (Some i)) (iput i)"

text \<open>The structure \<open>stat\<close>: type, device, number, links and size, 20 bytes with padding.\<close>

definition stati :: "nat \<Rightarrow> uint32 \<Rightarrow> (unit, 'a kfs_scheme) kop" where
  "stati i st =
     kbind (get_inode i id) (\<lambda>ip.
     kseq (kstore32 (st + 4) (i_dev ip)) (
     kseq (kstore32 (st + 8) (i_inum ip)) (
     kseq (kstore st (take 2 (bytes_of (ucast (i_type ip))))) (
     kseq (kstore (st + 12) (take 2 (bytes_of (ucast (i_nlink ip))))) (
     kstore32 (st + 16) (i_size ip))))))"

end
