(* ===== verification/Console.thy ===== *)
theory Console
  imports Inode
begin

text \<open>
  The console: output to the screen and the serial line and line editing of console.c, the keyboard
  of kbd.c and kbd.h and the serial input of uart.c. The devices are part of the state: the screen
  memory and its cursor, the bytes sent to the serial line, and the bytes the keyboard controller and
  the serial line have ready. A reader that finds no input goes to sleep; the model of the call ends
  there.
\<close>

abbreviation (input) "INPUT_BUF \<equiv> 128 :: nat"
abbreviation (input) "BACKSPACE \<equiv> 0x100 :: int"
abbreviation (input) "NDEV \<equiv> 10 :: int"
abbreviation (input) "CONSOLE \<equiv> 1 :: nat"

datatype devfn = FN_consoleread | FN_consolewrite

record kcons = kfs +
  crt :: "nat \<Rightarrow> uint16"
  crt_pos :: int
  uart :: uint32
  serial :: "uint8 list"
  uart_in :: "uint8 list"
  kbd_in :: "uint8 list"
  kbd_shift :: uint8
  in_buf :: "uint8 list"
  in_r :: uint32
  in_w :: uint32
  in_e :: uint32
  cons_locking :: uint32
  devsw :: "(devfn option \<times> devfn option) list"

section \<open>Output\<close>

definition uartputc :: "int \<Rightarrow> (unit, 'a kcons_scheme) kop" where
  "uartputc c = kmod (\<lambda>s. if uart s = 0 then s else s\<lparr>serial := serial s @ [of_int c]\<rparr>)"

text \<open>The screen after character \<open>c\<close> at cursor position \<open>pos\<close>: the new position and memory, before the
  check of the position and the scrolling.\<close>

definition cga_place :: "int \<Rightarrow> int \<Rightarrow> (nat \<Rightarrow> uint16) \<Rightarrow> int \<times> (nat \<Rightarrow> uint16)" where
  "cga_place c pos m =
     (if c = 10 then (pos + (80 - pos mod 80), m)
      else if c = BACKSPACE then (if pos > 0 then pos - 1 else pos, m)
      else (pos + 1, m(nat pos := (of_int c AND 0xFF) OR 0x0700)))"

definition cga_scroll :: "int \<Rightarrow> (nat \<Rightarrow> uint16) \<Rightarrow> int \<times> (nat \<Rightarrow> uint16)" where
  "cga_scroll pos m =
     (if pos div 80 \<ge> 24 then
        let m = (\<lambda>i. if i < 23 * 80 then m (i + 80) else m i); pos = pos - 80
        in (pos, \<lambda>i. if nat pos \<le> i \<and> i < 24 * 80 then 0 else m i)
      else (pos, m))"

definition cgaputc :: "int \<Rightarrow> (unit, 'a kcons_scheme) kop" where
  "cgaputc c =
     kbind (kget (\<lambda>s. cga_place c (crt_pos s) (crt s))) (\<lambda>(pos, m).
     kseq (kassert (\<not> (pos < 0 \<or> pos > 25 * 80)) ''pos under/overflow'') (
     let (pos, m) = cga_scroll pos m in
     kmod (\<lambda>s. s\<lparr>crt_pos := pos, crt := m(nat pos := 0x20 OR 0x0700)\<rparr>)))"

text \<open>After a panic every processor stops in \<open>consputc\<close>; a state after a panic does not exist here.\<close>

definition consputc :: "int \<Rightarrow> (unit, 'a kcons_scheme) kop" where
  "consputc c =
     kseq (if c = BACKSPACE then kseq (uartputc 8) (kseq (uartputc 32) (uartputc 8)) else uartputc c) (
     cgaputc c)"

fun consputs :: "uint8 list \<Rightarrow> (unit, 'a kcons_scheme) kop" where
  "consputs [] = kret ()"
| "consputs (b # bs) = kseq (consputc (uint b)) (consputs bs)"

text \<open>The digits of a number, last one first, in a buffer with room for \<open>n\<close> more characters.\<close>

fun print_digits :: "uint8 list \<Rightarrow> nat \<Rightarrow> uint32 \<Rightarrow> uint32 \<Rightarrow> uint8 list option" where
  "print_digits digits 0 x base = None"
| "print_digits digits (Suc n) x base =
     (let d = digits ! unat (x mod base) in
      if x div base = 0 then Some [d]
      else map_option (Cons d) (print_digits digits n (x div base) base))"

text \<open>\<open>printint\<close>: the characters in the order they are printed; \<open>None\<close> when the buffer of 16 overflows.\<close>

definition print_number :: "uint8 list \<Rightarrow> uint32 \<Rightarrow> uint32 \<Rightarrow> bool \<Rightarrow> uint8 list option" where
  "print_number digits xx base sign =
     (let neg = (sign \<and> sint xx < 0); x = (if neg then - xx else xx) in
      case print_digits digits 16 x base of
        None \<Rightarrow> None
      | Some ds \<Rightarrow> if \<not> neg then Some (rev ds) else if length ds < 16 then Some (0x2D # rev ds) else None)"

definition lower_digits :: "uint8 list" where
  "lower_digits = [48, 49, 50, 51, 52, 53, 54, 55, 56, 57, 97, 98, 99, 100, 101, 102]"

definition printint :: "uint32 \<Rightarrow> uint32 \<Rightarrow> bool \<Rightarrow> (unit, 'a kcons_scheme) kop" where
  "printint xx base sign =
     (case print_number lower_digits xx base sign of None \<Rightarrow> kfault | Some cs \<Rightarrow> consputs cs)"

text \<open>The format string and the words after it on the stack; \<open>%s\<close> prints the string at an address.\<close>

fun cprintf_loop :: "uint8 list \<Rightarrow> uint32 list \<Rightarrow> (unit, 'a kcons_scheme) kop" where
  "cprintf_loop [] args = kret ()"
| "cprintf_loop [c] args = (if c \<noteq> 0x25 then consputc (uint c) else kret ())"
| "cprintf_loop (c # d # fmt) args =
     (if c \<noteq> 0x25 then kseq (consputc (uint c)) (cprintf_loop (d # fmt) args)
      else if d = 0x64 then
        (case args of [] \<Rightarrow> kfault | a # as \<Rightarrow> kseq (printint a 10 True) (cprintf_loop fmt as))
      else if d = 0x78 \<or> d = 0x70 then
        (case args of [] \<Rightarrow> kfault | a # as \<Rightarrow> kseq (printint a 16 False) (cprintf_loop fmt as))
      else if d = 0x73 then
        (case args of [] \<Rightarrow> kfault | a # as \<Rightarrow>
          kseq (if a = 0 then consputs [40, 110, 117, 108, 108, 41]
                else kbind (kloadstr page_fuel a) (\<lambda>(bs, fin). if fin then consputs bs else kspin))
            (cprintf_loop fmt as))
      else if d = 0x25 then kseq (consputc 0x25) (cprintf_loop fmt args)
      else kseq (consputc 0x25) (kseq (consputc (uint d)) (cprintf_loop fmt args)))"

definition cprintf :: "uint8 list \<Rightarrow> uint32 list \<Rightarrow> (unit, 'a kcons_scheme) kop" where
  "cprintf fmt args =
     kbind (kget cons_locking) (\<lambda>locking.
     kseq (kwhen (locking \<noteq> 0) (acquire L_cons)) (
     kseq (cprintf_loop fmt args) (
     kwhen (locking \<noteq> 0) (release L_cons))))"

section \<open>Input\<close>

definition shiftcode :: "uint8 list" where
  "shiftcode = (replicate 256 0)
     [0x1D := 2, 0x2A := 1, 0x36 := 1, 0x38 := 4, 0x9D := 2, 0xB8 := 4]"

definition togglecode :: "uint8 list" where
  "togglecode = (replicate 256 0)
     [0x3A := 8, 0x45 := 16, 0x46 := 32]"

definition normalmap :: "uint8 list" where
  "normalmap = ([0, 27, 49, 50, 51, 52, 53, 54, 55, 56, 57, 48, 45, 61, 8, 9,
       113, 119, 101, 114, 116, 121, 117, 105, 111, 112, 91, 93, 10, 0, 97, 115,
       100, 102, 103, 104, 106, 107, 108, 59, 39, 96, 0, 92, 122, 120, 99, 118,
       98, 110, 109, 44, 46, 47, 0, 42, 0, 32, 0, 0, 0, 0, 0, 0,
       0, 0, 0, 0, 0, 0, 0, 55, 56, 57, 45, 52, 53, 54, 43, 49,
       50, 51, 48, 46, 0, 0, 0, 0]
       @ replicate 168 0)
     [0x9C := 10, 0xB5 := 47, 0xC8 := 226, 0xD0 := 227, 0xC9 := 230, 0xD1 := 231, 0xCB := 228, 0xCD := 229, 0x97 := 224, 0xCF := 225, 0xD2 := 232, 0xD3 := 233]"

definition shiftmap :: "uint8 list" where
  "shiftmap = ([0, 27, 33, 64, 35, 36, 37, 94, 38, 42, 40, 41, 95, 43, 8, 9,
       81, 87, 69, 82, 84, 89, 85, 73, 79, 80, 123, 125, 10, 0, 65, 83,
       68, 70, 71, 72, 74, 75, 76, 58, 34, 126, 0, 124, 90, 88, 67, 86,
       66, 78, 77, 60, 62, 63, 0, 42, 0, 32, 0, 0, 0, 0, 0, 0,
       0, 0, 0, 0, 0, 0, 0, 55, 56, 57, 45, 52, 53, 54, 43, 49,
       50, 51, 48, 46, 0, 0, 0, 0]
       @ replicate 168 0)
     [0x9C := 10, 0xB5 := 47, 0xC8 := 226, 0xD0 := 227, 0xC9 := 230, 0xD1 := 231, 0xCB := 228, 0xCD := 229, 0x97 := 224, 0xCF := 225, 0xD2 := 232, 0xD3 := 233]"

definition ctlmap :: "uint8 list" where
  "ctlmap = ([0, 0, 0, 0, 0, 0, 0, 0, 0, 0, 0, 0, 0, 0, 0, 0,
       17, 23, 5, 18, 20, 25, 21, 9, 15, 16, 0, 0, 13, 0, 1, 19,
       4, 6, 7, 8, 10, 11, 12, 0, 0, 0, 0, 28, 26, 24, 3, 22,
       2, 14, 13, 0, 0, 239, 0, 0]
       @ replicate 200 0)
     [0x9C := 13, 0xB5 := 239, 0xC8 := 226, 0xD0 := 227, 0xC9 := 230, 0xD1 := 231, 0xCB := 228, 0xCD := 229, 0x97 := 224, 0xCF := 225, 0xD2 := 232, 0xD3 := 233]"

text \<open>The byte at the data port; no byte ready is -1.\<close>

definition kbd_decode :: "uint8 \<Rightarrow> uint8 \<Rightarrow> uint8 \<times> uint8" where
  "kbd_decode data shift =
     (if data = 0xE0 then (shift OR 0x40, 0)
      else if data AND 0x80 \<noteq> 0 then
        let data = (if shift AND 0x40 \<noteq> 0 then data else data AND 0x7F)
        in (shift AND NOT (shiftcode ! unat data OR 0x40), 0)
      else
        let esc = shift AND 0x40 \<noteq> 0;
            data = (if esc then data OR 0x80 else data);
            shift = (if esc then shift AND NOT 0x40 else shift);
            shift = shift OR shiftcode ! unat data;
            shift = shift XOR togglecode ! unat data;
            c = [normalmap, shiftmap, ctlmap, ctlmap] ! unat (shift AND 3) ! unat data
        in (shift,
            if shift AND 8 = 0 then c
            else if 97 \<le> c \<and> c \<le> 122 then c + (65 - 97)
            else if 65 \<le> c \<and> c \<le> 90 then c + (97 - 65)
            else c))"

definition kbdgetc :: "(int, 'a kcons_scheme) kop" where
  "kbdgetc = (\<lambda>s. case kbd_in s of
       [] \<Rightarrow> Done (- 1) s
     | data # rest \<Rightarrow> (case kbd_decode data (kbd_shift s) of (shift, c) \<Rightarrow>
         Done (uint c) (s\<lparr>kbd_in := rest, kbd_shift := shift\<rparr>)))"

definition uartgetc :: "(int, 'a kcons_scheme) kop" where
  "uartgetc = (\<lambda>s. if uart s = 0 then Done (- 1) s else case uart_in s of
       [] \<Rightarrow> Done (- 1) s
     | b # rest \<Rightarrow> Done (uint b) (s\<lparr>uart_in := rest\<rparr>))"

definition input_at :: "'a kcons_scheme \<Rightarrow> uint32 \<Rightarrow> uint8" where
  "input_at s k = in_buf s ! (unat k mod INPUT_BUF)"

definition rub_out :: "(unit, 'a kcons_scheme) kop" where
  "rub_out = kseq (kmod (\<lambda>s. s\<lparr>in_e := in_e s - 1\<rparr>)) (consputc BACKSPACE)"

fun kill_line :: "nat \<Rightarrow> (unit, 'a kcons_scheme) kop" where
  "kill_line 0 = kspin"
| "kill_line (Suc n) =
     kbind (kget (\<lambda>s. in_e s \<noteq> in_w s \<and> input_at s (in_e s - 1) \<noteq> 10)) (\<lambda>more.
     if more then kseq rub_out (kill_line n) else kret ())"

definition put_input :: "int \<Rightarrow> (unit, 'a kcons_scheme) kop" where
  "put_input c =
     (let c = (if c = 13 then 10 else c) in
     kseq (kmod (\<lambda>s. s\<lparr>in_buf := (in_buf s)[unat (in_e s) mod INPUT_BUF := of_int c]\<rparr>)) (
     kseq (kmod (\<lambda>s. s\<lparr>in_e := in_e s + 1\<rparr>)) (
     kseq (consputc c) (
     kbind (kget (\<lambda>s. in_e s = in_r s + of_nat INPUT_BUF)) (\<lambda>full.
     kwhen (c = 10 \<or> c = 4 \<or> full) (
       kseq (kmod (\<lambda>s. s\<lparr>in_w := in_e s\<rparr>)) (wakeup C_input)))))))"

definition console_key :: "int \<Rightarrow> (unit, 'a kcons_scheme) kop" where
  "console_key c =
     (if c = 16 then kret ()
      else if c = 21 then kbind (kget (\<lambda>s. in_e s - in_w s)) (\<lambda>d. kill_line (Suc (unat d)))
      else if c = 8 \<or> c = 127 then
        kbind (kget (\<lambda>s. in_e s \<noteq> in_w s)) (\<lambda>more. kwhen more rub_out)
      else
        kbind (kget (\<lambda>s. in_e s - in_r s < of_nat INPUT_BUF)) (\<lambda>room.
        kwhen (c \<noteq> 0 \<and> room) (put_input c)))"

text \<open>\<open>n\<close> bounds the characters the device has ready. Control-P only prints the process table.\<close>

fun console_keys :: "nat \<Rightarrow> (int, 'a kcons_scheme) kop \<Rightarrow> (unit, 'a kcons_scheme) kop" where
  "console_keys 0 getc = kspin"
| "console_keys (Suc n) getc =
     kbind getc (\<lambda>c. if c \<ge> 0 then kseq (console_key c) (console_keys n getc) else kret ())"

definition consoleintr :: "nat \<Rightarrow> (int, 'a kcons_scheme) kop \<Rightarrow> (unit, 'a kcons_scheme) kop" where
  "consoleintr n getc = kseq (acquire L_cons) (kseq (console_keys n getc) (release L_cons))"

definition kbdintr :: "(unit, 'a kcons_scheme) kop" where
  "kbdintr = kbind (kget (\<lambda>s. length (kbd_in s))) (\<lambda>n. consoleintr (Suc n) kbdgetc)"

definition uartintr :: "(unit, 'a kcons_scheme) kop" where
  "uartintr = kbind (kget (\<lambda>s. length (uart_in s))) (\<lambda>n. consoleintr (Suc n) uartgetc)"

section \<open>The console device\<close>

text \<open>The characters still wanted at the end, or \<open>None\<close> for a reader that was killed.\<close>

fun consoleread_loop :: "nat \<Rightarrow> nat \<Rightarrow> uint32 \<Rightarrow> (nat option, 'a kcons_scheme) kop" where
  "consoleread_loop target 0 dst = kret (Some 0)"
| "consoleread_loop target (Suc n) dst =
     kbind (kget (\<lambda>s. in_r s = in_w s)) (\<lambda>empty.
     if empty then
       with_proc (\<lambda>p.
       kbind (get_proc p killed) (\<lambda>k.
       if k \<noteq> 0 then kret None else kseq (sleep C_input L_cons) (kret None)))
     else
       kbind (kget (\<lambda>s. input_at s (in_r s))) (\<lambda>c.
       kseq (kmod (\<lambda>s. s\<lparr>in_r := in_r s + 1\<rparr>)) (
       if c = 4 then
         kseq (kwhen (Suc n < target) (kmod (\<lambda>s. s\<lparr>in_r := in_r s - 1\<rparr>))) (kret (Some (Suc n)))
       else
         kseq (kstore8 dst c) (
         if c = 10 then kret (Some n) else consoleread_loop target n (dst + 1)))))"

definition consoleread :: "nat \<Rightarrow> uint32 \<Rightarrow> int \<Rightarrow> (int, 'a kcons_scheme) kop" where
  "consoleread ip dst n =
     kseq (iunlock (Some ip)) (
     kseq (acquire L_cons) (
     kbind (consoleread_loop (nat n) (nat n) dst) (\<lambda>r.
     kseq (release L_cons) (
     kseq (ilock (Some ip)) (
     kret (case r of None \<Rightarrow> - 1 | Some left \<Rightarrow> n - (if n \<le> 0 then n else int left)))))))"

definition consolewrite :: "nat \<Rightarrow> uint32 \<Rightarrow> int \<Rightarrow> (int, 'a kcons_scheme) kop" where
  "consolewrite ip buf n =
     kseq (iunlock (Some ip)) (
     kseq (acquire L_cons) (
     kseq (for_each (\<lambda>i. kbind (kload8 (buf + of_nat i)) (\<lambda>c. consputc (uint c))) [0..<nat n]) (
     kseq (release L_cons) (
     kseq (ilock (Some ip)) (kret n)))))"

definition consoleinit :: "(unit, 'a kcons_scheme) kop" where
  "consoleinit =
     kseq (initlock L_cons) (
     kseq (kmod (\<lambda>s. s\<lparr>devsw := (devsw s)[CONSOLE := (fst (devsw s ! CONSOLE), Some FN_consolewrite)]\<rparr>)) (
     kseq (kmod (\<lambda>s. s\<lparr>devsw := (devsw s)[CONSOLE := (Some FN_consoleread, snd (devsw s ! CONSOLE))]\<rparr>)) (
     kmod (\<lambda>s. s\<lparr>cons_locking := 1\<rparr>))))"

end
