(* ===== verification/Fs.thy ===== *)
theory Fs
  imports Console
begin

text \<open>
  The upper half of fs.c: reading and writing the contents of an inode, directories and path names.
  Paths and names are byte lists without the terminating zero; a directory entry is 16 bytes, the
  inode number and 14 bytes of name. The buffer of \<open>readi\<close> and \<open>writei\<close> is an address, or a local
  variable of the caller whose bytes are passed as a list.
\<close>

abbreviation (input) "DIRSIZ \<equiv> 14 :: nat"

section \<open>Contents of an inode\<close>

text \<open>\<open>put off bs\<close> stores what was read at offset \<open>off\<close> of the destination. Each round moves at least
  one byte, so \<open>n + 1\<close> rounds are enough.\<close>

fun readi_loop :: "nat \<Rightarrow> (uint32 \<Rightarrow> uint8 list \<Rightarrow> (unit, 'a kcons_scheme) kop) \<Rightarrow> nat \<Rightarrow> uint32 \<Rightarrow> uint32 \<Rightarrow> uint32
    \<Rightarrow> (uint8 list, 'a kcons_scheme) kop" where
  "readi_loop 0 put i off n tot = kspin"
| "readi_loop (Suc k) put i off n tot =
     (if \<not> tot < n then kret [] else
      kbind (get_inode i i_dev) (\<lambda>dev.
      kbind (bmap i (off div 512)) (\<lambda>addr.
      kbind (bread dev addr) (\<lambda>bp.
      let m = min (n - tot) (512 - off mod 512) in
      kbind (get_buf bp (\<lambda>b. take (unat m) (drop (unat (off mod 512)) (b_data b)))) (\<lambda>bs.
      kseq (put tot bs) (
      kseq (brelse bp) (
      kbind (readi_loop k put i (off + m) n (tot + m)) (\<lambda>rest. kret (bs @ rest)))))))))"

definition readi_file :: "(uint32 \<Rightarrow> uint8 list \<Rightarrow> (unit, 'a kcons_scheme) kop) \<Rightarrow> nat \<Rightarrow> uint32 \<Rightarrow> uint32
    \<Rightarrow> (int \<times> uint8 list, 'a kcons_scheme) kop" where
  "readi_file put i off n =
     kbind (get_inode i i_size) (\<lambda>sz.
     if off > sz \<or> off + n < off then kret (- 1, []) else
     let n = (if off + n > sz then sz - off else n) in
     kbind (readi_loop (Suc (unat n)) put i off n 0) (\<lambda>bs. kret (sint n, bs)))"

definition readi :: "nat \<Rightarrow> uint32 \<Rightarrow> uint32 \<Rightarrow> uint32 \<Rightarrow> (int, 'a kcons_scheme) kop" where
  "readi i dst off n =
     kbind (get_inode i id) (\<lambda>ip.
     if i_type ip = T_DEV then
       let major = sint (i_major ip) in
       if major < 0 \<or> major \<ge> NDEV then kret (- 1) else
       kbind (kget (\<lambda>s. fst (devsw s ! nat major))) (\<lambda>f.
       case f of None \<Rightarrow> kret (- 1)
         | Some FN_consoleread \<Rightarrow> consoleread i dst (sint n)
         | Some FN_consolewrite \<Rightarrow> consolewrite i dst (sint n))
     else
       kbind (readi_file (\<lambda>tot bs. kstore (dst + tot) bs) i off n) (\<lambda>(r, _). kret r))"

text \<open>\<open>readi\<close> into a local variable. Only directories and program files are read this way; a device there is
  outside the model.\<close>

definition readi_local :: "nat \<Rightarrow> uint32 \<Rightarrow> uint32 \<Rightarrow> (int \<times> uint8 list, 'a kcons_scheme) kop" where
  "readi_local i off n =
     kbind (get_inode i i_type) (\<lambda>ty.
     if ty = T_DEV then kfault else readi_file (\<lambda>_ _. kret ()) i off n)"

text \<open>\<open>get off m\<close> gives \<open>m\<close> bytes at offset \<open>off\<close> of the source.\<close>

fun writei_loop :: "nat \<Rightarrow> (uint32 \<Rightarrow> uint32 \<Rightarrow> (uint8 list, 'a kcons_scheme) kop) \<Rightarrow> nat \<Rightarrow> uint32 \<Rightarrow> uint32 \<Rightarrow> uint32
    \<Rightarrow> (uint32, 'a kcons_scheme) kop" where
  "writei_loop 0 get i off n tot = kspin"
| "writei_loop (Suc k) get i off n tot =
     (if \<not> tot < n then kret off else
      kbind (get_inode i i_dev) (\<lambda>dev.
      kbind (bmap i (off div 512)) (\<lambda>addr.
      kbind (bread dev addr) (\<lambda>bp.
      let m = min (n - tot) (512 - off mod 512) in
      kbind (get tot m) (\<lambda>bs.
      kseq (upd_buf bp (\<lambda>x. x\<lparr>b_data := splice (b_data x) (unat (off mod 512)) bs\<rparr>)) (
      kseq (log_write bp) (
      kseq (brelse bp) (
      writei_loop k get i (off + m) n (tot + m)))))))))"

definition writei_file :: "(uint32 \<Rightarrow> uint32 \<Rightarrow> (uint8 list, 'a kcons_scheme) kop) \<Rightarrow> nat \<Rightarrow> uint32 \<Rightarrow> uint32
    \<Rightarrow> (int, 'a kcons_scheme) kop" where
  "writei_file get i off n =
     kbind (get_inode i i_size) (\<lambda>sz.
     if off > sz \<or> off + n < off then kret (- 1) else
     if off + n > 71680 then kret (- 1) else
     kbind (writei_loop (Suc (unat n)) get i off n 0) (\<lambda>off.
     kbind (get_inode i i_size) (\<lambda>sz.
     kseq (kwhen (n > 0 \<and> off > sz) (
       kseq (upd_inode i (\<lambda>ip. ip\<lparr>i_size := off\<rparr>)) (iupdate i))) (
     kret (sint n)))))"

definition writei :: "nat \<Rightarrow> uint32 \<Rightarrow> uint32 \<Rightarrow> uint32 \<Rightarrow> (int, 'a kcons_scheme) kop" where
  "writei i src off n =
     kbind (get_inode i id) (\<lambda>ip.
     if i_type ip = T_DEV then
       let major = sint (i_major ip) in
       if major < 0 \<or> major \<ge> NDEV then kret (- 1) else
       kbind (kget (\<lambda>s. snd (devsw s ! nat major))) (\<lambda>f.
       case f of None \<Rightarrow> kret (- 1)
         | Some FN_consoleread \<Rightarrow> consoleread i src (sint n)
         | Some FN_consolewrite \<Rightarrow> consolewrite i src (sint n))
     else writei_file (\<lambda>tot m. kload (src + tot) (unat m)) i off n)"

definition writei_local :: "nat \<Rightarrow> uint8 list \<Rightarrow> uint32 \<Rightarrow> (int, 'a kcons_scheme) kop" where
  "writei_local i src off =
     kbind (get_inode i i_type) (\<lambda>ty.
     if ty = T_DEV then kfault else
     writei_file (\<lambda>tot m. kret (take (unat m) (drop (unat tot) src))) i off (of_nat (length src)))"

section \<open>Directories\<close>

text \<open>\<open>strncmp\<close> on names; a name that is shorter than \<open>DIRSIZ\<close> is followed by a zero byte.\<close>

fun name_strncmp :: "nat \<Rightarrow> uint8 list \<Rightarrow> uint8 list \<Rightarrow> int" where
  "name_strncmp 0 p q = 0"
| "name_strncmp (Suc n) p q =
     (let a = (case p of [] \<Rightarrow> 0 | x # _ \<Rightarrow> x); b = (case q of [] \<Rightarrow> 0 | y # _ \<Rightarrow> y) in
      if a \<noteq> 0 \<and> a = b then name_strncmp n (tl p) (tl q) else uint a - uint b)"

definition namecmp :: "uint8 list \<Rightarrow> uint8 list \<Rightarrow> int" where
  "namecmp s t = name_strncmp DIRSIZ s t"

definition de_inum :: "uint8 list \<Rightarrow> uint16" where
  "de_inum de = get16 de 0"

definition de_name :: "uint8 list \<Rightarrow> uint8 list" where
  "de_name de = drop 2 de"

fun name_strncpy :: "nat \<Rightarrow> uint8 list \<Rightarrow> uint8 list" where
  "name_strncpy 0 t = []"
| "name_strncpy (Suc n) t = (case t of
      [] \<Rightarrow> replicate (Suc n) 0
    | c # t \<Rightarrow> if c = 0 then replicate (Suc n) 0 else c # name_strncpy n t)"

definition make_dirent :: "uint8 list \<Rightarrow> uint16 \<Rightarrow> uint8 list" where
  "make_dirent name inum = [ucast inum, ucast (drop_bit 8 inum)] @ name_strncpy DIRSIZ name"

text \<open>The directory is scanned entry by entry from \<open>off\<close>; the result is the first entry accepted by \<open>P\<close>
  and its offset, or the offset after the last entry.\<close>

fun dir_scan :: "nat \<Rightarrow> string \<Rightarrow> (uint8 list \<Rightarrow> bool) \<Rightarrow> nat \<Rightarrow> uint32 \<Rightarrow> (uint8 list option \<times> uint32, 'a kcons_scheme) kop" where
  "dir_scan 0 msg P dp off = kspin"
| "dir_scan (Suc n) msg P dp off =
     kbind (get_inode dp i_size) (\<lambda>sz.
     if \<not> off < sz then kret (None, off) else
     kbind (readi_local dp off 16) (\<lambda>(r, de).
     kseq (kassert (r = 16) msg) (
     if P de then kret (Some de, off) else dir_scan n msg P dp (off + 16))))"

definition dir_fuel :: nat where
  "dir_fuel = Suc (2 ^ 28)"

definition dirlookup :: "nat \<Rightarrow> uint8 list \<Rightarrow> ((nat \<times> uint32) option, 'a kcons_scheme) kop" where
  "dirlookup dp name =
     kbind (get_inode dp i_type) (\<lambda>ty.
     kseq (kassert (ty = T_DIR) ''dirlookup not DIR'') (
     kbind (dir_scan dir_fuel ''dirlookup read'' (\<lambda>de. de_inum de \<noteq> 0 \<and> namecmp name (de_name de) = 0) dp 0) (\<lambda>(r, off).
     case r of
       None \<Rightarrow> kret None
     | Some de \<Rightarrow>
         kbind (get_inode dp i_dev) (\<lambda>dev.
         kbind (iget dev (ucast (de_inum de))) (\<lambda>ip. kret (Some (ip, off)))))))"

definition dirlink :: "nat \<Rightarrow> uint8 list \<Rightarrow> uint32 \<Rightarrow> (int, 'a kcons_scheme) kop" where
  "dirlink dp name inum =
     kbind (dirlookup dp name) (\<lambda>r.
     case r of
       Some (ip, _) \<Rightarrow> kseq (iput ip) (kret (- 1))
     | None \<Rightarrow>
         kbind (dir_scan dir_fuel ''dirlink read'' (\<lambda>de. de_inum de = 0) dp 0) (\<lambda>(_, off).
         kbind (writei_local dp (make_dirent name (ucast inum)) off) (\<lambda>w.
         kseq (kassert (w = 16) ''dirlink'') (kret 0))))"

section \<open>Paths\<close>

text \<open>The element copied to \<open>name\<close> and the rest of the path.\<close>

definition skipelem :: "uint8 list \<Rightarrow> (uint8 list \<times> uint8 list) option" where
  "skipelem path =
     (let path = dropWhile (\<lambda>c. c = 0x2F) path in
      if path = [] then None else
      let s = takeWhile (\<lambda>c. c \<noteq> 0x2F) path;
          path = dropWhile (\<lambda>c. c \<noteq> 0x2F) path;
          name = (if length s \<ge> DIRSIZ then take DIRSIZ s else s)
      in Some (name, dropWhile (\<lambda>c. c = 0x2F) path))"

text \<open>Every round consumes at least one byte of the path.\<close>

fun namex_loop :: "nat \<Rightarrow> uint8 list \<Rightarrow> bool \<Rightarrow> nat \<Rightarrow> uint8 list \<Rightarrow> ((nat \<times> uint8 list) option, 'a kcons_scheme) kop" where
  "namex_loop 0 path par ip name = kspin"
| "namex_loop (Suc n) path par ip name =
     (case skipelem path of
       None \<Rightarrow> if par then kseq (iput ip) (kret None) else kret (Some (ip, name))
     | Some (name, path) \<Rightarrow>
         kseq (ilock (Some ip)) (
         kbind (get_inode ip i_type) (\<lambda>ty.
         if ty \<noteq> T_DIR then kseq (iunlockput ip) (kret None)
         else if par \<and> path = [] then kseq (iunlock (Some ip)) (kret (Some (ip, name)))
         else kbind (dirlookup ip name) (\<lambda>r.
           case r of
             None \<Rightarrow> kseq (iunlockput ip) (kret None)
           | Some (next, _) \<Rightarrow> kseq (iunlockput ip) (namex_loop n path par next name)))))"

definition namex :: "uint8 list \<Rightarrow> bool \<Rightarrow> ((nat \<times> uint8 list) option, 'a kcons_scheme) kop" where
  "namex path par =
     kbind (if path \<noteq> [] \<and> hd path = 0x2F then iget ROOTDEV ROOTINO
            else with_proc (\<lambda>p. kbind (get_proc p cwd) (\<lambda>c. case c of None \<Rightarrow> kfault | Some d \<Rightarrow> idup d))) (\<lambda>ip.
     namex_loop (Suc (length path)) path par ip [])"

definition namei :: "uint8 list \<Rightarrow> (nat option, 'a kcons_scheme) kop" where
  "namei path = kbind (namex path False) (\<lambda>r. kret (map_option fst r))"

definition nameiparent :: "uint8 list \<Rightarrow> ((nat \<times> uint8 list) option, 'a kcons_scheme) kop" where
  "nameiparent path = namex path True"

end
