(* ===== verification/File.thy ===== *)
theory File
  imports Fs
begin

text \<open>
  Open files of file.c and file.h and the pipes of pipe.c. An open file is an index into \<open>ftable\<close>.
  A pipe is a page of the allocator that holds \<open>struct pipe\<close>: the lock, the circular buffer at offset
  52 and the counters \<open>nread\<close>, \<open>nwrite\<close>, \<open>readopen\<close> and \<open>writeopen\<close> behind it.
\<close>

abbreviation (input) "NFILE \<equiv> 100 :: nat"
abbreviation (input) "PIPESIZE \<equiv> 512 :: nat"
abbreviation (input) "pipe_data \<equiv> 52 :: uint32"
abbreviation (input) "pipe_nread \<equiv> 564 :: uint32"
abbreviation (input) "pipe_nwrite \<equiv> 568 :: uint32"
abbreviation (input) "pipe_readopen \<equiv> 572 :: uint32"
abbreviation (input) "pipe_writeopen \<equiv> 576 :: uint32"

datatype ftype = FD_NONE | FD_PIPE | FD_INODE

record openfile =
  f_type :: ftype
  f_ref :: int
  f_readable :: uint8
  f_writable :: uint8
  f_pipe :: uint32
  f_ip :: "nat option"
  f_off :: uint32

record kfile = kcons +
  ftable :: "openfile list"

definition get_file :: "nat \<Rightarrow> (openfile \<Rightarrow> 'b) \<Rightarrow> ('b, 'a kfile_scheme) kop" where
  "get_file i f = kget (\<lambda>s. f (ftable s ! i))"

definition upd_file :: "nat \<Rightarrow> (openfile \<Rightarrow> openfile) \<Rightarrow> (unit, 'a kfile_scheme) kop" where
  "upd_file i f = kmod (\<lambda>s. s\<lparr>ftable := (ftable s)[i := f (ftable s ! i)]\<rparr>)"

section \<open>Pipes\<close>

definition pipeclose :: "uint32 \<Rightarrow> bool \<Rightarrow> (unit, 'a kproc_scheme) kop" where
  "pipeclose p writable =
     kseq (acquire (L_pipe p)) (
     kseq (if writable
           then kseq (st32 (p + pipe_writeopen) 0) (wakeup (C_piperead p))
           else kseq (st32 (p + pipe_readopen) 0) (wakeup (C_pipewrite p))) (
     kbind (ld32 (p + pipe_readopen)) (\<lambda>ro.
     kbind (ld32 (p + pipe_writeopen)) (\<lambda>wo.
     kseq (release (L_pipe p)) (kwhen (ro = 0 \<and> wo = 0) (kfree p))))))"

text \<open>Byte \<open>c\<close> enters the buffer; the oldest byte leaves it.\<close>

definition pipe_put :: "uint32 \<Rightarrow> uint8 \<Rightarrow> (unit, 'a kheap_scheme) kop" where
  "pipe_put p c =
     kbind (ld32 (p + pipe_nwrite)) (\<lambda>nw.
     kseq (st32 (p + pipe_nwrite) (nw + 1)) (
     upd_memory (\<lambda>m. m(p + pipe_data + nw mod of_nat PIPESIZE := c))))"

definition pipe_take :: "uint32 \<Rightarrow> (uint8, 'a kheap_scheme) kop" where
  "pipe_take p =
     kbind (ld32 (p + pipe_nread)) (\<lambda>nr.
     kseq (st32 (p + pipe_nread) (nr + 1)) (
     kget (\<lambda>s. memory s (p + pipe_data + nr mod of_nat PIPESIZE))))"

definition pipe_full :: "uint32 \<Rightarrow> (bool, 'a kheap_scheme) kop" where
  "pipe_full p = kbind (ld32 (p + pipe_nwrite)) (\<lambda>nw. kbind (ld32 (p + pipe_nread)) (\<lambda>nr. kret (nw = nr + of_nat PIPESIZE)))"

definition pipe_empty :: "uint32 \<Rightarrow> (bool, 'a kheap_scheme) kop" where
  "pipe_empty p = kbind (ld32 (p + pipe_nread)) (\<lambda>nr. kbind (ld32 (p + pipe_nwrite)) (\<lambda>nw. kret (nr = nw)))"

text \<open>\<open>n\<close> bytes from \<open>addr\<close>; the result is \<open>False\<close> when nobody will read them. A writer that finds the
  buffer full sleeps; the model of the call ends there.\<close>

fun pipewrite_loop :: "uint32 \<Rightarrow> uint32 \<Rightarrow> nat \<Rightarrow> (bool, 'a kproc_scheme) kop" where
  "pipewrite_loop p addr 0 = kret True"
| "pipewrite_loop p addr (Suc n) =
     kbind (pipe_full p) (\<lambda>full.
     if full then
       kbind (ld32 (p + pipe_readopen)) (\<lambda>ro.
       with_proc (\<lambda>q.
       kbind (get_proc q killed) (\<lambda>k.
       if ro = 0 \<or> k \<noteq> 0 then kret False
       else kseq (wakeup (C_piperead p)) (kseq (sleep (C_pipewrite p) (L_pipe p)) (kret False)))))
     else
       kbind (kload8 addr) (\<lambda>c.
       kseq (pipe_put p c) (pipewrite_loop p (addr + 1) n)))"

definition pipewrite :: "uint32 \<Rightarrow> uint32 \<Rightarrow> int \<Rightarrow> (int, 'a kproc_scheme) kop" where
  "pipewrite p addr n =
     kseq (acquire (L_pipe p)) (
     kbind (pipewrite_loop p addr (nat n)) (\<lambda>ok.
     if \<not> ok then kseq (release (L_pipe p)) (kret (- 1)) else
     kseq (wakeup (C_piperead p)) (
     kseq (release (L_pipe p)) (kret n))))"

fun piperead_loop :: "uint32 \<Rightarrow> uint32 \<Rightarrow> nat \<Rightarrow> (nat, 'a kproc_scheme) kop" where
  "piperead_loop p addr 0 = kret 0"
| "piperead_loop p addr (Suc n) =
     kbind (pipe_empty p) (\<lambda>empty.
     if empty then kret 0 else
     kbind (pipe_take p) (\<lambda>c.
     kseq (kstore8 addr c) (
     kbind (piperead_loop p (addr + 1) n) (\<lambda>i. kret (Suc i)))))"

definition piperead :: "uint32 \<Rightarrow> uint32 \<Rightarrow> int \<Rightarrow> (int, 'a kproc_scheme) kop" where
  "piperead p addr n =
     kseq (acquire (L_pipe p)) (
     kbind (pipe_empty p) (\<lambda>empty.
     kbind (ld32 (p + pipe_writeopen)) (\<lambda>wo.
     if empty \<and> wo \<noteq> 0 then
       with_proc (\<lambda>q.
       kbind (get_proc q killed) (\<lambda>k.
       if k \<noteq> 0 then kseq (release (L_pipe p)) (kret (- 1))
       else kseq (sleep (C_piperead p) (L_pipe p)) (kret (- 1))))
     else
       kbind (piperead_loop p addr (nat n)) (\<lambda>i.
       kseq (wakeup (C_pipewrite p)) (
       kseq (release (L_pipe p)) (kret (int i)))))))"

section \<open>Open files\<close>

definition fileinit :: "(unit, 'a kfile_scheme) kop" where
  "fileinit = initlock L_ftable"

definition filealloc :: "(nat option, 'a kfile_scheme) kop" where
  "filealloc =
     kseq (acquire L_ftable) (
     kbind (kget (\<lambda>s. find_index (\<lambda>f. f_ref f = 0) (ftable s))) (\<lambda>r.
     kseq (case r of Some i \<Rightarrow> upd_file i (\<lambda>f. f\<lparr>f_ref := 1\<rparr>) | None \<Rightarrow> kret ()) (
     kseq (release L_ftable) (kret r))))"

definition filedup :: "nat \<Rightarrow> (nat, 'a kfile_scheme) kop" where
  "filedup f =
     kseq (acquire L_ftable) (
     kbind (get_file f f_ref) (\<lambda>r.
     kseq (kassert (\<not> r < 1) ''filedup'') (
     kseq (upd_file f (\<lambda>x. x\<lparr>f_ref := f_ref x + 1\<rparr>)) (
     kseq (release L_ftable) (kret f)))))"

definition deref :: "'b option \<Rightarrow> ('b \<Rightarrow> ('c, 's) kop) \<Rightarrow> ('c, 's) kop" where
  "deref p f = (case p of None \<Rightarrow> kfault | Some x \<Rightarrow> f x)"

definition fileclose :: "nat \<Rightarrow> (unit, 'a kfile_scheme) kop" where
  "fileclose f =
     kseq (acquire L_ftable) (
     kbind (get_file f f_ref) (\<lambda>r.
     kseq (kassert (\<not> r < 1) ''fileclose'') (
     kseq (upd_file f (\<lambda>x. x\<lparr>f_ref := f_ref x - 1\<rparr>)) (
     if r - 1 > 0 then release L_ftable else
     kbind (get_file f id) (\<lambda>ff.
     kseq (upd_file f (\<lambda>x. x\<lparr>f_ref := 0, f_type := FD_NONE\<rparr>)) (
     kseq (release L_ftable) (
     case f_type ff of
       FD_PIPE \<Rightarrow> pipeclose (f_pipe ff) (f_writable ff \<noteq> 0)
     | FD_INODE \<Rightarrow> kseq begin_op (kseq (deref (f_ip ff) iput) end_op)
     | FD_NONE \<Rightarrow> kret ())))))))"

definition filestat :: "nat \<Rightarrow> uint32 \<Rightarrow> (int, 'a kfile_scheme) kop" where
  "filestat f st =
     kbind (get_file f id) (\<lambda>ff.
     if f_type ff = FD_INODE then
       kseq (ilock (f_ip ff)) (
       kseq (deref (f_ip ff) (\<lambda>i. stati i st)) (
       kseq (iunlock (f_ip ff)) (kret 0)))
     else kret (- 1))"

text \<open>Reading and writing at the offset of an open inode. The function \<open>rd\<close> (\<open>wr\<close>) reads (writes) the
  inode at an offset; it stands for \<open>readi\<close> (\<open>writei\<close>) with the buffer of the caller. A file is written
  in pieces of at most 1536 bytes, \<open>((MAXOPBLOCKS-1-1-2) / 2) * 512\<close>, each in its own transaction.\<close>

definition fileread_inode :: "(nat \<Rightarrow> uint32 \<Rightarrow> uint32 \<Rightarrow> (int \<times> uint8 list, 'a kfile_scheme) kop) \<Rightarrow> nat \<Rightarrow> int
    \<Rightarrow> (int \<times> uint8 list, 'a kfile_scheme) kop" where
  "fileread_inode rd f n =
     kbind (get_file f id) (\<lambda>ff.
     kseq (ilock (f_ip ff)) (
     kbind (deref (f_ip ff) (\<lambda>i. rd i (f_off ff) (of_int n))) (\<lambda>(r, bs).
     kseq (kwhen (r > 0) (upd_file f (\<lambda>x. x\<lparr>f_off := f_off x + of_int r\<rparr>))) (
     kseq (iunlock (f_ip ff)) (kret (r, bs))))))"

fun filewrite_loop :: "nat \<Rightarrow> (nat \<Rightarrow> int \<Rightarrow> uint32 \<Rightarrow> int \<Rightarrow> (int, 'a kfile_scheme) kop) \<Rightarrow> nat \<Rightarrow> int \<Rightarrow> int
    \<Rightarrow> (int, 'a kfile_scheme) kop" where
  "filewrite_loop 0 wr f n i = kspin"
| "filewrite_loop (Suc k) wr f n i =
     (if \<not> i < n then kret i else
      let n1 = min (n - i) 1536 in
      kseq begin_op (
      kbind (get_file f id) (\<lambda>ff.
      kseq (ilock (f_ip ff)) (
      kbind (deref (f_ip ff) (\<lambda>ip. wr ip i (f_off ff) n1)) (\<lambda>r.
      kseq (kwhen (r > 0) (upd_file f (\<lambda>x. x\<lparr>f_off := f_off x + of_int r\<rparr>))) (
      kseq (iunlock (f_ip ff)) (
      kseq end_op (
      if r < 0 then kret i else
      kseq (kassert (r = n1) ''short filewrite'') (
      filewrite_loop k wr f n (i + r))))))))))"

definition filewrite_inode :: "(nat \<Rightarrow> int \<Rightarrow> uint32 \<Rightarrow> int \<Rightarrow> (int, 'a kfile_scheme) kop) \<Rightarrow> nat \<Rightarrow> int
    \<Rightarrow> (int, 'a kfile_scheme) kop" where
  "filewrite_inode wr f n = kbind (filewrite_loop (Suc (nat n)) wr f n 0) (\<lambda>i. kret (if i = n then n else - 1))"

definition fileread :: "nat \<Rightarrow> uint32 \<Rightarrow> int \<Rightarrow> (int, 'a kfile_scheme) kop" where
  "fileread f addr n =
     kbind (get_file f id) (\<lambda>ff.
     if f_readable ff = 0 then kret (- 1) else
     case f_type ff of
       FD_PIPE \<Rightarrow> piperead (f_pipe ff) addr n
     | FD_INODE \<Rightarrow>
         kbind (fileread_inode (\<lambda>i off m. kbind (readi i addr off m) (\<lambda>r. kret (r, []))) f n) (\<lambda>(r, _). kret r)
     | FD_NONE \<Rightarrow> kpanic ''fileread'')"

definition filewrite :: "nat \<Rightarrow> uint32 \<Rightarrow> int \<Rightarrow> (int, 'a kfile_scheme) kop" where
  "filewrite f addr n =
     kbind (get_file f id) (\<lambda>ff.
     if f_writable ff = 0 then kret (- 1) else
     case f_type ff of
       FD_PIPE \<Rightarrow> pipewrite (f_pipe ff) addr n
     | FD_INODE \<Rightarrow> filewrite_inode (\<lambda>ip i off n1. writei ip (addr + of_int i) off (of_int n1)) f n
     | FD_NONE \<Rightarrow> kpanic ''filewrite'')"

text \<open>The same with a buffer that is a local variable, for files that are inodes.\<close>

definition fileread_local :: "nat \<Rightarrow> int \<Rightarrow> (int \<times> uint8 list, 'a kfile_scheme) kop" where
  "fileread_local f n =
     kbind (get_file f id) (\<lambda>ff.
     if f_readable ff = 0 then kret (- 1, []) else
     if f_type ff = FD_INODE then fileread_inode readi_local f n else kfault)"

definition filewrite_local :: "nat \<Rightarrow> uint8 list \<Rightarrow> (int, 'a kfile_scheme) kop" where
  "filewrite_local f bs =
     kbind (get_file f id) (\<lambda>ff.
     if f_writable ff = 0 then kret (- 1) else
     if f_type ff = FD_INODE then
       filewrite_inode (\<lambda>ip i off n1. writei_local ip (take (nat n1) (drop (nat i) bs)) off) f (int (length bs))
     else kfault)"

definition pipe_bad :: "nat option \<Rightarrow> nat option \<Rightarrow> uint32 \<Rightarrow> ((nat \<times> nat) option, 'a kfile_scheme) kop" where
  "pipe_bad f0 f1 p =
     kseq (kwhen (p \<noteq> 0) (kfree p)) (
     kseq (case f0 of Some f \<Rightarrow> fileclose f | None \<Rightarrow> kret ()) (
     kseq (case f1 of Some f \<Rightarrow> fileclose f | None \<Rightarrow> kret ()) (kret None)))"

definition pipealloc :: "((nat \<times> nat) option, 'a kfile_scheme) kop" where
  "pipealloc =
     kbind filealloc (\<lambda>f0.
     case f0 of None \<Rightarrow> pipe_bad None None 0 | Some f0p \<Rightarrow>
     kbind filealloc (\<lambda>f1.
     case f1 of None \<Rightarrow> pipe_bad f0 None 0 | Some f1p \<Rightarrow>
     kbind kalloc (\<lambda>p.
     if p = 0 then pipe_bad f0 f1 0 else
     kseq (st32 (p + pipe_readopen) 1) (
     kseq (st32 (p + pipe_writeopen) 1) (
     kseq (st32 (p + pipe_nwrite) 0) (
     kseq (st32 (p + pipe_nread) 0) (
     kseq (initlock (L_pipe p)) (
     kseq (upd_file f0p (\<lambda>x. x\<lparr>f_type := FD_PIPE, f_readable := 1, f_writable := 0, f_pipe := p\<rparr>)) (
     kseq (upd_file f1p (\<lambda>x. x\<lparr>f_type := FD_PIPE, f_readable := 0, f_writable := 1, f_pipe := p\<rparr>)) (
     kret (Some (f0p, f1p))))))))))))"

end
