(* ===== verification/PipeProps.thy ===== *)
theory PipeProps
  imports File
begin

text \<open>
  Pipes are bounded queues: the locale \<open>bounded_fifo\<close> with the loops of a writer and a reader, its
  interpretation on the circular buffer of pipe.c, and \<open>pipewrite\<close> and \<open>piperead\<close> as operations on the queue.
\<close>

section \<open>Bounded queues\<close>

text \<open>What the two ends of a pipe rely on: elements leave in the order in which they came, at most \<open>cap\<close> of them
  wait, and the operations touch nothing outside the queue (\<open>same\<close>).\<close>

locale bounded_fifo =
  fixes ok :: "'s \<Rightarrow> bool"
    and queue :: "'s \<Rightarrow> 'e list"
    and cap :: nat
    and same :: "'s \<Rightarrow> 's \<Rightarrow> bool"
    and put :: "'e \<Rightarrow> (unit, 's) kop"
    and take1 :: "('e, 's) kop"
    and full :: "(bool, 's) kop"
    and empty :: "(bool, 's) kop"
  assumes put_law: "\<lbrakk>ok s; length (queue s) < cap\<rbrakk> \<Longrightarrow> \<exists>t. put c s = Done () t \<and> ok t \<and> queue t = queue s @ [c] \<and> same s t"
    and take_law: "\<lbrakk>ok s; queue s = x # xs\<rbrakk> \<Longrightarrow> \<exists>t. take1 s = Done x t \<and> ok t \<and> queue t = xs \<and> same s t"
    and full_law: "ok s \<Longrightarrow> full s = Done (length (queue s) = cap) s"
    and empty_law: "ok s \<Longrightarrow> empty s = Done (queue s = []) s"
    and bound_law: "ok s \<Longrightarrow> length (queue s) \<le> cap"
    and same_refl: "same s s"
    and same_trans: "same s t \<Longrightarrow> same t u \<Longrightarrow> same s u"
begin

text \<open>A writer that puts the bytes it gets from \<open>src\<close>, and a reader that hands what it takes to \<open>dst\<close>.\<close>

lemma write_loop:
  assumes "\<And>i. W i 0 = kret True"
    and "\<And>i n. W i (Suc n) = kbind full (\<lambda>f. if f then stop else kbind (src i) (\<lambda>c. kseq (put c) (W (Suc i) n)))"
    and "\<And>j t. i \<le> j \<Longrightarrow> j < i + n \<Longrightarrow> same s t \<Longrightarrow> src j t = Done (b j) t"
    and "ok s" "length (queue s) + n \<le> cap"
  shows "\<exists>t. W i n s = Done True t \<and> ok t \<and> queue t = queue s @ map b [i..<i + n] \<and> same s t"
  using assms(3-5)
proof (induction n arbitrary: i s)
  case 0
  then show ?case by (simp add: assms(1) kmonad same_refl)
next
  case (Suc n)
  have "full s = Done False s" using full_law [OF Suc.prems(2)] Suc.prems(3) by simp
  moreover have "src i s = Done (b i) s" using Suc.prems(1) [of i s] same_refl by simp
  moreover obtain t where t: "put (b i) s = Done () t" "ok t" "queue t = queue s @ [b i]" "same s t"
    using put_law [OF Suc.prems(2), of "b i"] Suc.prems(3) by auto
  moreover have "\<exists>u. W (Suc i) n t = Done True u \<and> ok u \<and> queue u = queue t @ map b [Suc i..<Suc i + n] \<and> same t u"
    by (rule Suc.IH) (use Suc.prems t same_trans in auto)
  then obtain u where "W (Suc i) n t = Done True u" "ok u" "queue u = queue t @ map b [Suc i..<Suc i + n]" "same t u" by blast
  moreover have "[i..<i + Suc n] = i # [Suc i..<Suc i + n]" by (simp add: upt_rec)
  ultimately show ?case using same_trans [of s t u] by (simp add: assms(2) kmonad)
qed

lemma read_loop:
  assumes "\<And>i. R i 0 = kret 0"
    and "\<And>i n. R i (Suc n) = kbind empty (\<lambda>e. if e then kret 0 else kbind take1 (\<lambda>c. kseq (dst i c) (kbind (R (Suc i) n) (\<lambda>k. kret (Suc k)))))"
    and same: "\<And>t u. P t \<Longrightarrow> same t u \<Longrightarrow> P u \<and> val u = val t"
    and "\<And>j t c. i \<le> j \<Longrightarrow> j < i + n \<Longrightarrow> P t \<Longrightarrow> ok t \<Longrightarrow> \<exists>u. dst j c t = Done () u \<and> ok u \<and> P u \<and> queue u = queue t \<and> val u = (val t)(j := c)"
    and "ok s" "P s"
  shows "\<exists>t. R i n s = Done (min n (length (queue s))) t \<and> ok t \<and> P t \<and> queue t = drop n (queue s)
     \<and> (\<forall>j. val t j = (if i \<le> j \<and> j < i + min n (length (queue s)) then queue s ! (j - i) else val s j))"
  using assms(4-6)
proof (induction n arbitrary: i s)
  case 0
  then show ?case by (auto simp: assms(1) kmonad)
next
  case (Suc n)
  show ?case
  proof (cases "queue s")
    case Nil
    then show ?thesis using Suc.prems(2,3) empty_law [OF Suc.prems(2)] by (auto simp: assms(2) kmonad)
  next
    case (Cons c cs)
    have e: "empty s = Done False s" using empty_law [OF Suc.prems(2)] Cons by simp
    obtain t where t: "take1 s = Done c t" "ok t" "queue t = cs" "same s t" using take_law [OF Suc.prems(2) Cons] by blast
    have pt: "P t" "val t = val s" using same [OF Suc.prems(3) t(4)] by simp_all
    obtain u where u: "dst i c t = Done () u" "ok u" "P u" "queue u = cs" "val u = (val s)(i := c)"
      using Suc.prems(1) [of i t c] pt t(2,3) by (auto simp: fun_upd_def)
    have "\<exists>v. R (Suc i) n u = Done (min n (length (queue u))) v \<and> ok v \<and> P v \<and> queue v = drop n (queue u)
       \<and> (\<forall>j. val v j = (if Suc i \<le> j \<and> j < Suc i + min n (length (queue u)) then queue u ! (j - Suc i) else val u j))"
      by (rule Suc.IH) (use Suc.prems(1) u(2,3) in auto)
    then obtain v where v: "R (Suc i) n u = Done (min n (length cs)) v" "ok v" "P v" "queue v = drop n cs"
       "\<And>j. val v j = (if Suc i \<le> j \<and> j < Suc i + min n (length cs) then cs ! (j - Suc i) else val u j)" using u(4) by auto
    have "val v j = (if i \<le> j \<and> j < i + min (Suc n) (length (queue s)) then queue s ! (j - i) else val s j)" for j
      using v(5) [of j] u(5) Cons by (cases "j = i") (auto simp: nth_Cons')
    then show ?thesis using e t(1) u(1) v(1-4) Cons by (simp add: assms(2) kmonad)
  qed
qed

end

section \<open>The pipe as a queue\<close>

definition pipe_nr :: "mem \<Rightarrow> uint32 \<Rightarrow> uint32" where "pipe_nr m p = load32 m (p + pipe_nread)"
definition pipe_nw :: "mem \<Rightarrow> uint32 \<Rightarrow> uint32" where "pipe_nw m p = load32 m (p + pipe_nwrite)"

definition pipe_bytes :: "mem \<Rightarrow> uint32 \<Rightarrow> uint8 list" where
  "pipe_bytes m p = map (\<lambda>i. m (p + pipe_data + (pipe_nr m p + of_nat i) mod of_nat PIPESIZE)) [0..<unat (pipe_nw m p - pipe_nr m p)]"

definition pipe_ok :: "uint32 \<Rightarrow> 'a kheap_scheme \<Rightarrow> bool" where
  "pipe_ok p s \<longleftrightarrow> unat (pipe_nw (memory s) p - pipe_nr (memory s) p) \<le> PIPESIZE"

text \<open>The counters and the buffer are 520 consecutive bytes.\<close>

definition in_pipe :: "uint32 \<Rightarrow> uint32 \<Rightarrow> bool" where
  "in_pipe p a \<longleftrightarrow> pipe_data \<le> a - p \<and> a - p < pipe_readopen"

definition pipe_same :: "uint32 \<Rightarrow> 'a kheap_scheme \<Rightarrow> 'a kheap_scheme \<Rightarrow> bool" where
  "pipe_same p s t \<longleftrightarrow> t = s\<lparr>memory := memory t\<rparr> \<and> (\<forall>a. \<not> in_pipe p a \<longrightarrow> memory t a = memory s a)"

lemma add_mod_inj:
  assumes "(a + i) mod n = (a + j) mod n" "i < n" "j < n" shows "i = (j :: nat)"
proof -
  have "j \<le> i" if "(a + i) mod n = (a + j) mod n" "i < n" "j < n" for i j
  proof (rule ccontr)
    assume "\<not> j \<le> i"
    then have "n dvd j - i" "0 < j - i" using that(1) mod_eq_dvd_iff_nat [of "a + i" "a + j" n] by auto
    then show False using that(3) dvd_imp_le [of n "j - i"] by linarith
  qed
  then show ?thesis using assms by (metis antisym)
qed

lemma slot_inj:
  fixes a :: uint32
  assumes "(a + of_nat i) mod 512 = (a + of_nat j) mod 512" "i < 512" "j < 512" shows "i = j"
proof -
  have "unat ((a + of_nat k) mod 512) = (unat a + k) mod 512" for k
  proof -
    have "unat (a + of_nat k) = (unat a + k) mod 2 ^ 32" by (simp add: unat_word_ariths unat_of_nat take_bit_eq_mod mod_simps)
    then show ?thesis by (simp add: unat_mod mod_mod_cancel)
  qed
  then have "(unat a + i) mod 512 = (unat a + j) mod 512" using assms(1) by metis
  then show ?thesis using add_mod_inj assms(2,3) by blast
qed

lemma slot_off:
  fixes k :: uint32
  shows "unat (52 + k mod 512) = 52 + unat k mod 512" "52 + k mod 512 < 564"
proof -
  show u: "unat (52 + k mod 512) = 52 + unat k mod 512"
    by (subst unat_add_lem [THEN iffD1]) (simp_all add: unat_mod)
  show "52 + k mod 512 < 564" by (simp add: word_less_nat_alt u)
qed

lemma slot_ne: "564 \<le> x \<Longrightarrow> p + 52 + k mod 512 \<noteq> p + (x :: uint32)"
proof
  assume x: "564 \<le> x" "p + 52 + k mod 512 = p + x"
  then have "52 + k mod 512 = x" by (simp add: add.assoc)
  then show False using slot_off(2) [of k] x(1) by (metis not_less)
qed

lemma counters_slot [simp]:
  "pipe_nr (m(p + 52 + k mod 512 := c)) p = pipe_nr m p" "pipe_nw (m(p + 52 + k mod 512 := c)) p = pipe_nw m p"
  using slot_ne [of 564 p k] slot_ne [of 565 p k] slot_ne [of 566 p k] slot_ne [of 567 p k]
    slot_ne [of 568 p k] slot_ne [of 569 p k] slot_ne [of 570 p k] slot_ne [of 571 p k]
  by (simp_all add: pipe_nr_def pipe_nw_def load32_def add.assoc)

lemma store32_nth: "store32 m a v b = (if b = a then ucast v else if b = a + 1 then ucast (drop_bit 8 v) else if b = a + 2 then ucast (drop_bit 16 v)
   else if b = a + 3 then ucast (drop_bit 24 v) else m b)"
  by (auto simp: store32_def)

lemma counters_store:
  "pipe_nr (store32 m (p + 564) v) p = v" "pipe_nw (store32 m (p + 564) v) p = pipe_nw m p"
  "pipe_nr (store32 m (p + 568) v) p = pipe_nr m p" "pipe_nw (store32 m (p + 568) v) p = v"
  by (simp_all add: pipe_nr_def pipe_nw_def load32_def store32_nth bytes_of_word add.assoc)

lemma slot_store:
  "store32 m (p + 564) v (p + 52 + k mod 512) = m (p + 52 + k mod 512)" "store32 m (p + 568) v (p + 52 + k mod 512) = m (p + 52 + k mod 512)"
  using slot_ne [of 564 p k] slot_ne [of 565 p k] slot_ne [of 566 p k] slot_ne [of 567 p k]
    slot_ne [of 568 p k] slot_ne [of 569 p k] slot_ne [of 570 p k] slot_ne [of 571 p k]
  by (simp_all add: store32_nth add.assoc)

lemma mod_slot [simp]: "of_nat PIPESIZE = (512 :: uint32)"
  by simp

lemma in_pipe_slots:
  "in_pipe p (p + 52 + k mod 512)" "in_pipe p (p + 564)" "in_pipe p (p + 565)" "in_pipe p (p + 566)" "in_pipe p (p + 567)"
  "in_pipe p (p + 568)" "in_pipe p (p + 569)" "in_pipe p (p + 570)" "in_pipe p (p + 571)"
proof -
  have "52 \<le> 52 + k mod 512" "52 + k mod 512 < 572" using slot_off(1) [of k] by (simp_all add: word_le_nat_alt word_less_nat_alt)
  then show "in_pipe p (p + 52 + k mod 512)" by (simp add: in_pipe_def add.assoc)
qed (simp_all add: in_pipe_def)

lemma pipe_put_ok:
  assumes "pipe_ok p s" "length (pipe_bytes (memory s) p) < PIPESIZE"
  shows "\<exists>t. pipe_put p c s = Done () t \<and> pipe_ok p t \<and> pipe_bytes (memory t) p = pipe_bytes (memory s) p @ [c] \<and> pipe_same p s t"
proof -
  let ?m = "memory s" and ?nw = "pipe_nw (memory s) p" and ?nr = "pipe_nr (memory s) p"
  let ?m' = "(store32 ?m (p + 568) (?nw + 1))(p + 52 + ?nw mod 512 := c)"
  have l: "unat (?nw - ?nr) < 512" using assms(2) by (simp add: pipe_bytes_def)
  have u: "unat (?nw + 1 - ?nr) = Suc (unat (?nw - ?nr))"
  proof -
    have "?nw + 1 - ?nr = (?nw - ?nr) + 1" by simp
    also have "unat \<dots> = Suc (unat (?nw - ?nr))" using l by (subst unat_add_lem [THEN iffD1]) simp_all
    finally show ?thesis .
  qed
  have run: "pipe_put p c s = Done () (s\<lparr>memory := ?m'\<rparr>)"
    by (simp add: pipe_put_def kmonad ld32_def st32_def upd_memory_def pipe_nw_def)
  have c: "pipe_nr ?m' p = ?nr" "pipe_nw ?m' p = ?nw + 1" by (simp_all add: counters_store)
  have old: "?m' (p + 52 + (?nr + of_nat i) mod 512) = ?m (p + 52 + (?nr + of_nat i) mod 512)" if "i < unat (?nw - ?nr)" for i
  proof -
    have "?nw = ?nr + of_nat (unat (?nw - ?nr))" by simp
    then have "(?nr + of_nat i) mod 512 \<noteq> ?nw mod 512" using slot_inj [of ?nr i "unat (?nw - ?nr)"] that l by force
    then show ?thesis by (simp add: slot_store)
  qed
  have new: "?m' (p + 52 + (?nr + of_nat (unat (?nw - ?nr))) mod 512) = c" by simp
  have "pipe_bytes ?m' p = pipe_bytes ?m p @ [c]"
    unfolding pipe_bytes_def c u using old new by simp
  moreover have "pipe_ok p (s\<lparr>memory := ?m'\<rparr>)" using l by (simp add: pipe_ok_def counters_store u)
  moreover have "pipe_same p s (s\<lparr>memory := ?m'\<rparr>)"
    using in_pipe_slots [of p] by (auto simp: pipe_same_def store32_nth add.assoc)
  ultimately show ?thesis using run by simp
qed

lemma pipe_take_ok:
  assumes "pipe_ok p s" "pipe_bytes (memory s) p = x # xs"
  shows "\<exists>t. pipe_take p s = Done x t \<and> pipe_ok p t \<and> pipe_bytes (memory t) p = xs \<and> pipe_same p s t"
proof -
  let ?m = "memory s" and ?nw = "pipe_nw (memory s) p" and ?nr = "pipe_nr (memory s) p"
  let ?m' = "store32 ?m (p + 564) (?nr + 1)"
  obtain n where n: "unat (?nw - ?nr) = Suc n" using assms(2) by (cases "unat (?nw - ?nr)") (auto simp: pipe_bytes_def)
  have u: "unat (?nw - (?nr + 1)) = n"
  proof -
    have "?nw - ?nr = of_nat (Suc n)" using arg_cong [OF n, of "of_nat :: nat \<Rightarrow> uint32"] by simp
    then have "?nw - (?nr + 1) = of_nat n" by (simp add: algebra_simps)
    moreover have "n < 2 ^ 32" using n unsigned_less [of "?nw - ?nr", where 'a = nat] by simp
    ultimately show ?thesis by (simp add: unat_of_nat take_bit_nat_eq_self)
  qed
  have run: "pipe_take p s = Done (?m (p + 52 + ?nr mod 512)) (s\<lparr>memory := ?m'\<rparr>)"
    by (simp add: pipe_take_def kmonad ld32_def st32_def upd_memory_def pipe_nr_def [symmetric] slot_store)
  have "pipe_bytes ?m p = map (\<lambda>i. ?m (p + 52 + (?nr + of_nat i) mod 512)) [0..<Suc n]" by (simp add: pipe_bytes_def n)
  also have "\<dots> = ?m (p + 52 + ?nr mod 512) # map (\<lambda>i. ?m (p + 52 + (?nr + of_nat (Suc i)) mod 512)) [0..<n]"
    by (simp add: upt_conv_Cons map_Suc_upt [symmetric] del: upt_Suc)
  finally have b: "x = ?m (p + 52 + ?nr mod 512)" "xs = map (\<lambda>i. ?m (p + 52 + (?nr + of_nat (Suc i)) mod 512)) [0..<n]" using assms(2) by simp_all
  have "pipe_bytes ?m' p = xs" unfolding pipe_bytes_def b(2) by (simp add: counters_store u slot_store [unfolded add.assoc] add.assoc)
  moreover have "pipe_ok p (s\<lparr>memory := ?m'\<rparr>)" using assms(1) n by (simp add: pipe_ok_def counters_store u)
  moreover have "pipe_same p s (s\<lparr>memory := ?m'\<rparr>)"
    using in_pipe_slots [of p] by (auto simp: pipe_same_def store32_nth add.assoc)
  ultimately show ?thesis using run b(1) by simp
qed

interpretation pipe: bounded_fifo "pipe_ok p" "\<lambda>s. pipe_bytes (memory s) p" PIPESIZE "pipe_same p" "pipe_put p" "pipe_take p" "pipe_full p" "pipe_empty p"
proof (unfold_locales, goal_cases)
  case (1 s c) then show ?case by (rule pipe_put_ok)
next
  case (2 s x xs) then show ?case by (rule pipe_take_ok)
next
  case (3 s)
  have "(nw = nr + 512) = (unat (nw - nr) = 512)" for nw nr :: uint32
  proof -
    have "(nw = nr + 512) = (nw - nr = 512)" by (auto simp: algebra_simps)
    then show ?thesis by (simp add: word_unat_eq_iff)
  qed
  then show ?case by (simp add: pipe_full_def kmonad ld32_def pipe_bytes_def pipe_nr_def pipe_nw_def)
next
  case (4 s)
  have "(nr = nw) = (unat (nw - nr) = 0)" for nw nr :: uint32 by (auto simp: word_unat_eq_iff [symmetric] unat_eq_0)
  then show ?case by (simp add: pipe_empty_def kmonad ld32_def pipe_bytes_def pipe_nr_def pipe_nw_def)
next
  case (5 s) then show ?case by (simp add: pipe_ok_def pipe_bytes_def)
next
  case (6 s) then show ?case by (simp add: pipe_same_def)
next
  case (7 s t u)
  then show ?case unfolding pipe_same_def by (metis (no_types, lifting) kheap.surjective kheap.update_convs(1))
qed

section \<open>Writing to and reading from a pipe\<close>

text \<open>The caller's buffer of \<open>n\<close> bytes at \<open>addr\<close> is mapped to the addresses \<open>b 0\<close>, \<open>b 1\<close>, and so on. It does not
  overlap the pipe, and the page tables that map it lie neither in the pipe nor in the buffer.\<close>

definition buffer_ok :: "uint32 \<Rightarrow> 'a kheap_scheme \<Rightarrow> bool \<Rightarrow> uint32 \<Rightarrow> nat \<Rightarrow> (nat \<Rightarrow> uint32) \<Rightarrow> bool" where
  "buffer_ok p s wr addr n b \<longleftrightarrow> inj_on b {..<n} \<and> (\<forall>j < n. \<not> in_pipe p (b j))
     \<and> (\<forall>m. (\<forall>a. \<not> in_pipe p a \<and> a \<notin> b ` {..<n} \<longrightarrow> m a = memory s a)
          \<longrightarrow> (\<forall>j < n. kaddr (s\<lparr>memory := m\<rparr>) wr (addr + of_nat j) = Some (b j)))"

lemma kaddr_entered [simp]: "kaddr (entered l s) = kaddr s" "kaddr ((entered l s)\<lparr>memory := m\<rparr>) = kaddr (s\<lparr>memory := m\<rparr>)"
  by (simp_all add: kaddr_def fun_eq_iff)

lemma buffer_entered [simp]: "buffer_ok p (entered l s) wr addr n b = buffer_ok p s wr addr n b"
  by (simp add: buffer_ok_def)

lemma pipewrite_loop_run:
  assumes "pipe_ok p s" "length (pipe_bytes (memory s) p) + n \<le> PIPESIZE" "buffer_ok p s False addr n b"
  shows "\<exists>t. pipewrite_loop p addr n s = Done True t \<and> pipe_ok p t
     \<and> pipe_bytes (memory t) p = pipe_bytes (memory s) p @ map (\<lambda>i. memory s (b i)) [0..<n] \<and> pipe_same p s t"
proof -
  let ?stop = "kbind (ld32 (p + pipe_readopen)) (\<lambda>ro.
       with_proc (\<lambda>q.
       kbind (get_proc q killed) (\<lambda>k.
       if ro = 0 \<or> k \<noteq> 0 then kret False
       else kseq (wakeup (C_piperead p)) (kseq (sleep (C_pipewrite p) (L_pipe p)) (kret False)))))"
  have "kload8 (addr + of_nat j) t = Done (memory s (b j)) t" if "j < n" "pipe_same p s t" for j t
  proof -
    have t: "t = s\<lparr>memory := memory t\<rparr>" "\<forall>a. \<not> in_pipe p a \<longrightarrow> memory t a = memory s a" using that(2) by (simp_all add: pipe_same_def)
    have "kaddr (s\<lparr>memory := memory t\<rparr>) False (addr + of_nat j) = Some (b j)" "\<not> in_pipe p (b j)"
      using assms(3) t(2) that(1) unfolding buffer_ok_def by blast+
    then show ?thesis using t by (metis (no_types, lifting) kload8_def option.simps(5))
  qed
  then have "\<exists>t. pipewrite_loop p (addr + of_nat 0) n s = Done True t \<and> pipe_ok p t
     \<and> pipe_bytes (memory t) p = pipe_bytes (memory s) p @ map (\<lambda>i. memory s (b i)) [0..<0 + n] \<and> pipe_same p s t"
  proof (intro pipe.write_loop [where W = "\<lambda>i. pipewrite_loop p (addr + of_nat i)" and src = "\<lambda>i. kload8 (addr + of_nat i)" and stop = ?stop])
    fix i k
    have "addr + of_nat (Suc i) = addr + of_nat i + 1" by simp
    then show "pipewrite_loop p (addr + of_nat i) (Suc k) = kbind (pipe_full p) (\<lambda>f. if f then ?stop
        else kbind (kload8 (addr + of_nat i)) (\<lambda>c. kseq (pipe_put p c) (pipewrite_loop p (addr + of_nat (Suc i)) k)))"
      by (simp only: pipewrite_loop.simps)
  qed (use assms in auto)
  then show ?thesis by simp
qed

lemma with_pipe_lock:
  assumes "lock_ok (L_pipe p) s" "lock_ok L_ptable s" "t = (entered (L_pipe p) s)\<lparr>memory := memory t\<rparr>"
  shows "kseq (wakeup ch) (kseq (release (L_pipe p)) (kret x)) t = Done x (s\<lparr>memory := memory t, ptable := map (wakeup_proc ch) (ptable s)\<rparr>)"
proof -
  obtain m where t: "t = (entered (L_pipe p) s)\<lparr>memory := m\<rparr>" using assms(3) by blast
  have "lock_ok L_ptable (entered (L_pipe p) s)" by (rule entered_lock_ok [OF assms(2,1)]) simp
  then have "lock_ok L_ptable t" by (simp add: t lock_ok_def cpu_ok_def lock_free_def this_cpu_def)
  then have "wakeup ch t = Done () (t\<lparr>ptable := map (wakeup_proc ch) (ptable t)\<rparr>)" by (rule wakeup_run)
  moreover have "release (L_pipe p) (t\<lparr>ptable := map (wakeup_proc ch) (ptable t)\<rparr>)
     = Done () (s\<lparr>memory := memory t, ptable := map (wakeup_proc ch) (ptable s)\<rparr>)"
    using release_entered [OF assms(1), of "t\<lparr>ptable := map (wakeup_proc ch) (ptable t)\<rparr>"] by (simp add: t) (simp add: entered_def Let_def)
  ultimately show ?thesis by (simp add: kmonad)
qed


lemma pipe_cong:
  assumes "\<And>a. in_pipe p a \<Longrightarrow> m a = m' a"
  shows "pipe_nr m p = pipe_nr m' p" "pipe_nw m p = pipe_nw m' p" "pipe_bytes m p = pipe_bytes m' p"
proof -
  note i = in_pipe_slots [of p, THEN assms]
  show n: "pipe_nr m p = pipe_nr m' p" "pipe_nw m p = pipe_nw m' p" using i by (simp_all add: pipe_nr_def pipe_nw_def load32_def add.assoc)
  show "pipe_bytes m p = pipe_bytes m' p" using i(1) by (simp add: pipe_bytes_def n)
qed

lemma piperead_loop_run:
  assumes "pipe_ok p s" "buffer_ok p s True addr n b"
  defines "k \<equiv> min n (length (pipe_bytes (memory s) p))"
  shows "\<exists>t. piperead_loop p addr n s = Done k t \<and> t = s\<lparr>memory := memory t\<rparr> \<and> pipe_ok p t
     \<and> pipe_bytes (memory t) p = drop n (pipe_bytes (memory s) p)
     \<and> (\<forall>j < k. memory t (b j) = pipe_bytes (memory s) p ! j)
     \<and> (\<forall>a. \<not> in_pipe p a \<and> a \<notin> b ` {..<k} \<longrightarrow> memory t a = memory s a)"
proof -
  define val where "val t j = (if j < n then memory t (b j) else 0)" for t :: "'a kproc_scheme" and j
  define P where "P t \<longleftrightarrow> t = s\<lparr>memory := memory t\<rparr> \<and> (\<forall>a. \<not> in_pipe p a \<and> a \<notin> b ` {..<n} \<longrightarrow> memory t a = memory s a)" for t
  have b: "inj_on b {..<n}" "\<And>j. j < n \<Longrightarrow> \<not> in_pipe p (b j)" using assms(2) by (auto simp: buffer_ok_def)
  have same: "P u \<and> val u = val t" if "P t" "pipe_same p t u" for t u
  proof -
    have "u = s\<lparr>memory := memory u\<rparr>" using that unfolding P_def pipe_same_def by (metis (no_types, lifting) kheap.surjective kheap.update_convs(1))
    then show ?thesis using that b(2) by (auto simp: P_def pipe_same_def val_def fun_eq_iff)
  qed
  have dst: "\<exists>u. kstore8 (addr + of_nat j) c t = Done () u \<and> pipe_ok p u \<and> P u \<and> pipe_bytes (memory u) p = pipe_bytes (memory t) p \<and> val u = (val t)(j := c)"
    if h: "j < n" "P t" "pipe_ok p t" for j t c
  proof -
    let ?u = "t\<lparr>memory := (memory t)(b j := c)\<rparr>"
    have "kaddr (s\<lparr>memory := memory t\<rparr>) True (addr + of_nat j) = Some (b j)" using assms(2) that(1,2) unfolding buffer_ok_def P_def by blast
    then have "kaddr t True (addr + of_nat j) = Some (b j)" using that(2) by (metis P_def)
    then have "kstore8 (addr + of_nat j) c t = Done () ?u" by (simp add: kstore8_def)
    moreover have "pipe_nr ((memory t)(b j := c)) p = pipe_nr (memory t) p" "pipe_nw ((memory t)(b j := c)) p = pipe_nw (memory t) p"
        "pipe_bytes ((memory t)(b j := c)) p = pipe_bytes (memory t) p"
      by (rule pipe_cong, use b(2) [OF h(1)] in auto)+
    moreover have "P ?u"
    proof -
      obtain m where "t = s\<lparr>memory := m\<rparr>" using h(2) unfolding P_def by blast
      then show ?thesis using that(1,2) by (auto simp: P_def)
    qed
    moreover have "val ?u = (val t)(j := c)" using b(1) that(1) by (auto simp: val_def fun_eq_iff inj_on_def)
    ultimately show ?thesis using that(3) by (auto simp: pipe_ok_def)
  qed
  have a: "addr + of_nat (Suc i) = addr + of_nat i + 1" for i by simp
  have "\<exists>t. piperead_loop p (addr + of_nat 0) n s = Done (min n (length (pipe_bytes (memory s) p))) t \<and> pipe_ok p t \<and> P t
     \<and> pipe_bytes (memory t) p = drop n (pipe_bytes (memory s) p)
     \<and> (\<forall>j. val t j = (if 0 \<le> j \<and> j < 0 + min n (length (pipe_bytes (memory s) p)) then pipe_bytes (memory s) p ! (j - 0) else val s j))"
  proof (rule pipe.read_loop [where R = "\<lambda>i. piperead_loop p (addr + of_nat i)" and dst = "\<lambda>i. kstore8 (addr + of_nat i)" and P = P and val = val], goal_cases)
    case (2 i k) show ?case by (simp only: piperead_loop.simps a)
  next
    case (3 t u) then show ?case by (rule same)
  next
    case (4 j t c) then show ?case using dst [of j t c] by simp
  next
    case 6 show ?case by (simp add: P_def)
  qed (simp_all add: assms(1))
  then obtain t where t: "piperead_loop p addr n s = Done k t" "pipe_ok p t" "P t" "pipe_bytes (memory t) p = drop n (pipe_bytes (memory s) p)"
     "\<And>j. val t j = (if j < k then pipe_bytes (memory s) p ! j else val s j)" by (auto simp: k_def)
  have "memory t (b j) = pipe_bytes (memory s) p ! j" if "j < k" for j using t(5) [of j] that by (simp add: val_def k_def)
  moreover have "memory t a = memory s a" if a: "\<not> in_pipe p a" "a \<notin> b ` {..<k}" for a
  proof (cases "a \<in> b ` {..<n}")
    case True
    then obtain j where "j < n" "a = b j" by blast
    then show ?thesis using t(5) [of j] a(2) by (auto simp: val_def split: if_splits)
  qed (use t(3) a in \<open>auto simp: P_def\<close>)
  ultimately show ?thesis using t by (auto simp: P_def)
qed

text \<open>C18. \<open>piperead\<close> takes the oldest bytes of the pipe, at most \<open>n\<close>, stores them in order in the caller's buffer,
  leaves the younger bytes in the pipe, touches no other memory, returns their number and wakes the
  writers. It returns 0 when the pipe is empty and its write end closed.\<close>

theorem piperead_takes:
  assumes "lock_ok (L_pipe p) s" "lock_ok L_ptable s" "pipe_ok p s" "buffer_ok p s True addr (nat n) b"
    "pipe_bytes (memory s) p \<noteq> [] \<or> load32 (memory s) (p + pipe_writeopen) = 0"
  shows "\<exists>t. piperead p addr n s = Done (int (min (nat n) (length (pipe_bytes (memory s) p)))) t \<and> pipe_ok p t
     \<and> pipe_bytes (memory t) p = drop (nat n) (pipe_bytes (memory s) p)
     \<and> (\<forall>j < min (nat n) (length (pipe_bytes (memory s) p)). memory t (b j) = pipe_bytes (memory s) p ! j)
     \<and> (\<forall>a. \<not> in_pipe p a \<and> a \<notin> b ` {..<min (nat n) (length (pipe_bytes (memory s) p))} \<longrightarrow> memory t a = memory s a)
     \<and> ptable t = map (wakeup_proc (C_pipewrite p)) (ptable s)"
proof -
  let ?s = "entered (L_pipe p) s"
  have m: "memory ?s = memory s" by (simp add: entered_def Let_def)
  obtain t where t: "piperead_loop p addr (nat n) ?s = Done (min (nat n) (length (pipe_bytes (memory s) p))) t" "t = ?s\<lparr>memory := memory t\<rparr>" "pipe_ok p t"
     "pipe_bytes (memory t) p = drop (nat n) (pipe_bytes (memory s) p)"
     "\<forall>j < min (nat n) (length (pipe_bytes (memory s) p)). memory t (b j) = pipe_bytes (memory s) p ! j"
     "\<forall>a. \<not> in_pipe p a \<and> a \<notin> b ` {..<min (nat n) (length (pipe_bytes (memory s) p))} \<longrightarrow> memory t a = memory s a"
    using piperead_loop_run [of p ?s addr "nat n" b] assms(3,4) by (auto simp: pipe_ok_def m)
  have "pipe_empty p ?s = Done (pipe_bytes (memory s) p = []) ?s"
    using pipe.empty_law [of p ?s] assms(3) by (simp add: pipe_ok_def m)
  then have "piperead p addr n s = Done (int (min (nat n) (length (pipe_bytes (memory s) p))))
      (s\<lparr>memory := memory t, ptable := map (wakeup_proc (C_pipewrite p)) (ptable s)\<rparr>)"
    using t(1) with_pipe_lock [OF assms(1,2) t(2)] assms(5)
    by (auto simp: piperead_def kmonad acquire_entered [OF assms(1)] ld32_def m)
  then show ?thesis using t(3-6) by (simp add: pipe_ok_def)
qed

section \<open>A sample pipe\<close>

text \<open>A pipe whose counters are about to wrap around: \<open>k\<close> bytes wait in it, the first one in the last slot.\<close>

definition sample_pipe :: "uint32 \<Rightarrow> kproc" where
  "sample_pipe k = sample_kproc\<lparr>memory := (store32 (store32 sample_memory 0x80500234 0xFFFFFFFF) 0x80500238 (0xFFFFFFFF + k))
     (0x80500233 := 5, 0x80500034 := 6, 0x80600000 := 7, 0x80600001 := 8)\<rparr>"

lemma sample_pipe_memory: "memory (sample_pipe k) = (store32 (store32 sample_memory 0x80500234 0xFFFFFFFF) 0x80500238 (0xFFFFFFFF + k))
     (0x80500233 := 5, 0x80500034 := 6, 0x80600000 := 7, 0x80600001 := 8)"
  by (simp add: sample_pipe_def)

lemma sample_pipe_counters: "pipe_nr (memory (sample_pipe k)) 0x80500000 = 0xFFFFFFFF" "pipe_nw (memory (sample_pipe k)) 0x80500000 = 0xFFFFFFFF + k"
  unfolding sample_pipe_memory pipe_nr_def pipe_nw_def
  by (simp_all add: load32_def store32_nth bytes_of_word)

lemma sample_pipe_bytes: "pipe_bytes (memory (sample_pipe 0)) 0x80500000 = []" "pipe_bytes (memory (sample_pipe 2)) 0x80500000 = [5, 6]"
  by (simp add: pipe_bytes_def sample_pipe_counters) (simp add: pipe_bytes_def sample_pipe_counters, simp add: sample_pipe_memory upt_rec)

lemma sample_pipe_buffer:
  assumes "n \<le> 2" shows "buffer_ok 0x80500000 (sample_pipe k) wr 0x80600000 n (\<lambda>j. 0x80600000 + of_nat j)"
proof -
  have n: "n = 0 \<or> n = 1 \<or> n = 2" using assms by auto
  have "inj_on (\<lambda>j. 0x80600000 + of_nat j :: uint32) {..<n}" "\<forall>j < n. \<not> in_pipe 0x80500000 (0x80600000 + of_nat j)"
    "\<forall>j < n. 0x80000000 \<le> (0x80600000 + of_nat j :: uint32)"
    using n by (auto simp: in_pipe_def inj_on_def dest!: less_2_cases)
  then show ?thesis by (simp add: buffer_ok_def kaddr_def)
qed

lemma sample_pipe_locks: "lock_ok l (sample_pipe k)"
proof -
  have "lock_ok l sample_kproc" by simp
  then show ?thesis by (simp add: sample_pipe_def lock_ok_def cpu_ok_def lock_free_def this_cpu_def)
qed


theorem piperead_takes_witness:
  "\<exists>t. piperead 0x80500000 0x80600000 1 (sample_pipe 2) = Done 1 t \<and> pipe_bytes (memory t) 0x80500000 = [6] \<and> memory t 0x80600000 = 5"
proof -
  have "pipe_ok 0x80500000 (sample_pipe 2)" by (simp add: pipe_ok_def sample_pipe_counters)
  then show ?thesis
    using piperead_takes [of "0x80500000" "sample_pipe 2" "0x80600000" 1 "\<lambda>j. 0x80600000 + of_nat j"] sample_pipe_buffer [of 1] sample_pipe_locks
    by (auto simp: sample_pipe_bytes)
qed

end
