(* ===== verification/Dir.thy ===== *)
theory Dir
  imports File
begin

text \<open>
  Creating and removing names: \<open>create\<close>, \<open>kunlink\<close> and \<open>isdirempty\<close> of sysfile.c, and the swap files of a
  process, \<open>vpalloc\<close>, \<open>vpfree\<close>, \<open>vpread\<close> and \<open>vpwrite\<close> of fs.c, which are made with them.
\<close>

abbreviation (input) "VPFILE_SIZE \<equiv> 65536 :: uint32"

definition isdirempty :: "nat \<Rightarrow> (bool, 'a kcons_scheme) kop" where
  "isdirempty dp =
     kbind (dir_scan dir_fuel ''isdirempty: readi'' (\<lambda>de. de_inum de \<noteq> 0) dp 32) (\<lambda>(r, _). kret (r = None))"

text \<open>The name and its inode are checked; then the entry is cleared and the links are counted down.\<close>

definition unlink_entry :: "nat \<Rightarrow> nat \<Rightarrow> uint32 \<Rightarrow> (int, 'a kcons_scheme) kop" where
  "unlink_entry dp ip off =
     kbind (writei_local dp (replicate 16 0) off) (\<lambda>w.
     kseq (kassert (w = 16) ''unlink: writei'') (
     kbind (get_inode ip i_type) (\<lambda>ty.
     kseq (kwhen (ty = T_DIR) (
       kseq (upd_inode dp (\<lambda>x. x\<lparr>i_nlink := i_nlink x - 1\<rparr>)) (iupdate dp))) (
     kseq (iunlockput dp) (
     kseq (upd_inode ip (\<lambda>x. x\<lparr>i_nlink := i_nlink x - 1\<rparr>)) (
     kseq (iupdate ip) (
     kseq (iunlockput ip) (
     kseq end_op (kret 0)))))))))"

definition kunlink :: "uint8 list \<Rightarrow> (int, 'a kcons_scheme) kop" where
  "kunlink path =
     kseq begin_op (
     kbind (nameiparent path) (\<lambda>r.
     case r of
       None \<Rightarrow> kseq end_op (kret (- 1))
     | Some (dp, name) \<Rightarrow>
         let bad = kseq (iunlockput dp) (kseq end_op (kret (- 1))) in
         kseq (ilock (Some dp)) (
         if namecmp name [0x2E] = 0 \<or> namecmp name [0x2E, 0x2E] = 0 then bad else
         kbind (dirlookup dp name) (\<lambda>r.
         case r of
           None \<Rightarrow> bad
         | Some (ip, off) \<Rightarrow>
             kseq (ilock (Some ip)) (
             kbind (get_inode ip id) (\<lambda>x.
             kseq (kassert (\<not> sint (i_nlink x) < 1) ''unlink: nlink < 1'') (
             kbind (if i_type x = T_DIR then isdirempty ip else kret True) (\<lambda>ok.
             if \<not> ok then kseq (iunlockput ip) bad else unlink_entry dp ip off))))))))"

definition create_new :: "nat \<Rightarrow> uint8 list \<Rightarrow> uint16 \<Rightarrow> uint16 \<Rightarrow> uint16 \<Rightarrow> (nat option, 'a kcons_scheme) kop" where
  "create_new dp name type major minor =
     kbind (get_inode dp i_dev) (\<lambda>dev.
     kbind (ialloc dev type) (\<lambda>ip.
     kseq (ilock (Some ip)) (
     kseq (upd_inode ip (\<lambda>x. x\<lparr>i_major := major, i_minor := minor, i_nlink := 1\<rparr>)) (
     kseq (iupdate ip) (
     kbind (get_inode ip i_inum) (\<lambda>inum.
     kseq (kwhen (type = T_DIR) (
       kseq (upd_inode dp (\<lambda>x. x\<lparr>i_nlink := i_nlink x + 1\<rparr>)) (
       kseq (iupdate dp) (
       kbind (dirlink ip [0x2E] inum) (\<lambda>a.
       kbind (if a < 0 then kret a else kbind (get_inode dp i_inum) (\<lambda>pn. dirlink ip [0x2E, 0x2E] pn)) (\<lambda>b.
       kassert (\<not> b < 0) ''create dots'')))))) (
     kbind (dirlink dp name inum) (\<lambda>r.
     kseq (kassert (\<not> r < 0) ''create: dirlink'') (
     kseq (iunlockput dp) (kret (Some ip)))))))))))"

definition create :: "uint8 list \<Rightarrow> uint16 \<Rightarrow> uint16 \<Rightarrow> uint16 \<Rightarrow> (nat option, 'a kcons_scheme) kop" where
  "create path type major minor =
     kbind (nameiparent path) (\<lambda>r.
     case r of
       None \<Rightarrow> kret None
     | Some (dp, name) \<Rightarrow>
         kseq (ilock (Some dp)) (
         kbind (dirlookup dp name) (\<lambda>r.
         case r of
           Some (ip, _) \<Rightarrow>
             kseq (iunlockput dp) (
             kseq (ilock (Some ip)) (
             kbind (get_inode ip i_type) (\<lambda>ty.
             if type = T_FILE \<and> ty = T_FILE then kret (Some ip)
             else kseq (iunlockput ip) (kret None))))
         | None \<Rightarrow> create_new dp name type major minor)))"

section \<open>Swap files\<close>

text \<open>The local array \<open>path\<close> of \<open>vpalloc\<close> and \<open>vpfree\<close>, as bytes from address 0 of a memory of its own.\<close>

definition vp_path :: "uint32 \<Rightarrow> uint32 \<Rightarrow> uint8 list option" where
  "vp_path index n =
     (let m = store_bytes (\<lambda>_. 0) 0 [0x2E, 0x2F, 0x2E, 0x76, 0x70] in
      case itoa m index 5 of None \<Rightarrow> None | Some m \<Rightarrow>
      case itoa (m(6 := 0x5F)) n 7 of None \<Rightarrow> None | Some m \<Rightarrow>
      map_option (load_bytes m 0) (strlen m 0))"

definition vpalloc_one :: "nat \<Rightarrow> nat \<Rightarrow> (unit, 'a kfile_scheme) kop" where
  "vpalloc_one p index =
     kbind (get_proc p pid) (\<lambda>n.
     deref (vp_path (of_nat index) n) (\<lambda>path.
     kseq begin_op (
     kbind (create path T_FILE 0 0) (\<lambda>ip.
     kseq (iunlock ip) (
     kbind filealloc (\<lambda>f.
     kseq (upd_proc p (\<lambda>q. q\<lparr>vpfile := (vpfile q)[index := f]\<rparr>)) (
     case f of None \<Rightarrow> kpanic (''[ERROR] Failed to alloc virtual page file.'' @ [CHR 0x0A]) | Some i \<Rightarrow>
     kseq (upd_file i (\<lambda>x. x\<lparr>f_ip := ip, f_type := FD_INODE, f_off := 0, f_readable := 1, f_writable := 2\<rparr>)) (
     end_op))))))))"

definition vpalloc :: "nat \<Rightarrow> (int, 'a kfile_scheme) kop" where
  "vpalloc p = kseq (for_each (vpalloc_one p) [0..<MAX_VPFILES]) (kret 0)"

fun vpfree_loop :: "nat \<Rightarrow> nat list \<Rightarrow> int \<Rightarrow> (int, 'a kfile_scheme) kop" where
  "vpfree_loop p [] ret = kret ret"
| "vpfree_loop p (index # is) ret =
     kbind (get_proc p pid) (\<lambda>n.
     deref (vp_path (of_nat index) n) (\<lambda>path.
     kbind (get_proc p (\<lambda>q. vpfile q ! index)) (\<lambda>f.
     case f of
       None \<Rightarrow> vpfree_loop p is (- 1)
     | Some f \<Rightarrow>
         kseq (fileclose f) (
         kbind (kunlink path) (\<lambda>r.
         vpfree_loop p is (if r = - 1 then - 1 else ret))))))"

definition vpfree :: "nat \<Rightarrow> (int, 'a kfile_scheme) kop" where
  "vpfree p = vpfree_loop p [0..<MAX_VPFILES] 0"

text \<open>The swap file of an offset, positioned there. The bound of the check is one too high: index 4 is
  behind the array.\<close>

definition vp_seek :: "nat \<Rightarrow> uint32 \<Rightarrow> (nat, 'a kfile_scheme) kop" where
  "vp_seek p offset =
     (let fileno = sint (offset div VPFILE_SIZE) in
     if fileno < 0 \<or> fileno > int MAX_VPFILES then kpanic ''offset too big!'' else
     if fileno = int MAX_VPFILES then kfault else
     kbind (get_proc p (\<lambda>q. vpfile q ! nat fileno)) (\<lambda>f.
     deref f (\<lambda>i. kseq (upd_file i (\<lambda>x. x\<lparr>f_off := offset mod VPFILE_SIZE\<rparr>)) (kret i))))"

definition vpread :: "nat \<Rightarrow> uint32 \<Rightarrow> uint32 \<Rightarrow> uint32 \<Rightarrow> (int, 'a kfile_scheme) kop" where
  "vpread p buf offset len = kbind (vp_seek p offset) (\<lambda>f. fileread f buf (sint len))"

definition vpwrite :: "nat \<Rightarrow> uint32 \<Rightarrow> uint32 \<Rightarrow> uint32 \<Rightarrow> (int, 'a kfile_scheme) kop" where
  "vpwrite p buf offset len = kbind (vp_seek p offset) (\<lambda>f. filewrite f buf (sint len))"

definition vpread_local :: "nat \<Rightarrow> uint32 \<Rightarrow> uint32 \<Rightarrow> (int \<times> uint8 list, 'a kfile_scheme) kop" where
  "vpread_local p offset len = kbind (vp_seek p offset) (\<lambda>f. fileread_local f (sint len))"

definition vpwrite_local :: "nat \<Rightarrow> uint8 list \<Rightarrow> uint32 \<Rightarrow> (int, 'a kfile_scheme) kop" where
  "vpwrite_local p bs offset = kbind (vp_seek p offset) (\<lambda>f. filewrite_local f bs)"

end
