(* ===== verification/Swap.thy ===== *)
theory Swap
  imports Dir
begin

text \<open>
  The parts of vm.c that move pages between memory and the swap files: growing an address space with
  FIFO replacement, loading a program, and the page-fault handler. The queue of resident pages is the
  doubly linked list from \<open>mem_queue_head\<close> to \<open>mem_queue_tail\<close>; the newest page is at the head and the
  oldest one, at the tail, is replaced first.
\<close>

section \<open>The queue of resident pages\<close>

text \<open>The oldest entry leaves the queue; at least one other has to stay.\<close>

definition take_oldest :: "nat \<Rightarrow> string \<Rightarrow> string \<Rightarrow> (uint32, 'a kproc_scheme) kop" where
  "take_oldest p few bad =
     kbind (get_proc p mem_queue_head) (\<lambda>link.
     kbind (if link = 0 then kret 0 else pld link 4) (\<lambda>nx.
     kseq (kassert (\<not> (link = 0 \<or> nx = 0)) few) (
     kbind (get_proc p mem_queue_tail) (\<lambda>lst.
     kbind (if lst = 0 then kret 0 else pld lst 8) (\<lambda>pv.
     kseq (kassert (\<not> (lst = 0 \<or> pv = 0)) bad) (
     kseq (upd_proc p (\<lambda>q. q\<lparr>mem_queue_tail := pv\<rparr>)) (
     kseq (pst pv 4 0) (
     kseq (pst lst 8 0) (kret lst)))))))))"

text \<open>The entry \<open>l\<close> becomes the newest one, for address \<open>a\<close>, as \<open>allocuvm\<close> writes it out.\<close>

definition requeue :: "nat \<Rightarrow> uint32 \<Rightarrow> uint32 \<Rightarrow> (unit, 'a kproc_scheme) kop" where
  "requeue p l a =
     kseq (pst l 0 a) (
     kbind (get_proc p mem_queue_head) (\<lambda>h.
     kseq (pst l 4 h) (
     if h = 0 then upd_proc p (\<lambda>q. q\<lparr>mem_queue_head := l, mem_queue_tail := l\<rparr>)
     else kseq (pst h 8 l) (upd_proc p (\<lambda>q. q\<lparr>mem_queue_head := l\<rparr>)))))"

text \<open>The entry for an address in the pages of swap slots, with its offset in the swap files.\<close>

fun seek_ventry :: "nat \<Rightarrow> uint32 \<Rightarrow> uint32 \<Rightarrow> uint32 \<Rightarrow> ((uint32 \<times> uint32) option, 'a kheap_scheme) kop" where
  "seek_ventry 0 curpage va pos = kspin"
| "seek_ventry (Suc n) curpage va pos =
     (if curpage = 0 then kret None else
      kbind (kget (\<lambda>s. ventry_of (memory s) curpage va)) (\<lambda>r.
      case r of
        Some i \<Rightarrow> kret (Some (vp_entry curpage i, pos + of_nat i * PGSIZE))
      | None \<Rightarrow> kbind (ld32 (curpage + 4)) (\<lambda>pg. seek_ventry n pg va (pos + VIRTUAL_PAGE_OFFSET))))"

fun vpage_count :: "nat \<Rightarrow> uint32 \<Rightarrow> uint32 \<Rightarrow> (uint32, 'a kheap_scheme) kop" where
  "vpage_count 0 curpage pg = kspin"
| "vpage_count (Suc n) curpage pg =
     (if curpage = 0 then kret pg else kbind (ld32 (curpage + 4)) (\<lambda>nx. vpage_count n nx (pg + 1)))"

text \<open>A free swap slot: in the pages there are, or in a new one behind them.\<close>

definition free_ventry :: "nat \<Rightarrow> (uint32 \<times> uint32, 'a kproc_scheme) kop" where
  "free_ventry p =
     kbind (get_proc p virtual_page_head) (\<lambda>h.
     kbind (seek_ventry page_fuel h SLOT_USABLE 0) (\<lambda>r.
     case r of
       Some e \<Rightarrow> kret e
     | None \<Rightarrow>
         kbind (vpage_count page_fuel h 0) (\<lambda>pg.
         kseq (vmem_growpage p) (
         kbind (get_proc p virtual_page_tail) (\<lambda>tl.
         if tl = 0 then kfault else
         kbind (kget (\<lambda>s. ventry_of (memory s) tl SLOT_USABLE)) (\<lambda>r.
         case r of
           Some i \<Rightarrow> kret (vp_entry tl i, pg * VIRTUAL_PAGE_OFFSET + of_nat i * PGSIZE)
         | None \<Rightarrow> kpanic ''[ERROR] SLOT OUT.''))))))"

definition fifo_write :: "(uint32, 'a kfile_scheme) kop" where
  "fifo_write =
     with_proc (\<lambda>p.
     kbind (take_oldest p ''Only 0 or 1 page in memory.'' ''[Error] last null!'') (\<lambda>lst.
     kbind (free_ventry p) (\<lambda>(e, pos).
     kbind (pld lst 0) (\<lambda>va.
     kseq (st32 e va) (
     kbind (vpwrite p (PTE_ADDR va) pos PGSIZE) (\<lambda>w.
     if w = 0 then kret 0 else
     kbind (get_proc p pgdir) (\<lambda>d.
     kbind (walkpgdir d va False) (\<lambda>pte.
     kbind (pld pte 0) (\<lambda>v.
     kseq (kassert (v \<noteq> 0) ''[ERROR] [fifo_write] PTE empty.'') (
     kseq (kfree (P2V (PTE_ADDR v))) (
     kseq (st32 pte (PTE_W OR PTE_U OR PTE_PG)) (
     kseq (lcr3 (V2P d)) (kret lst)))))))))))))"

definition write_page :: "uint32 \<Rightarrow> (uint32, 'a kfile_scheme) kop" where
  "write_page va = fifo_write"

section \<open>Growing and loading an address space\<close>

text \<open>\<open>fresh\<close> is the variable \<open>newpage_allocated\<close>; once a page has been replaced it stays 0.\<close>

fun allocuvm_loop :: "nat \<Rightarrow> nat \<Rightarrow> uint32 \<Rightarrow> uint32 \<Rightarrow> uint32 \<Rightarrow> uint32 \<Rightarrow> bool \<Rightarrow> (uint32, 'a kfile_scheme) kop" where
  "allocuvm_loop 0 p pgd oldsz newsz a fresh = kspin"
| "allocuvm_loop (Suc n) p pgd oldsz newsz a fresh =
     (if \<not> a < newsz then kret newsz else
      kbind (get_proc p num_mem_page_entries) (\<lambda>k.
      let full = \<not> sint k < sint MEM_CAPACITY in
      kseq (kwhen full (
        kbind (write_page a) (\<lambda>l.
        kseq (kassert (l \<noteq> 0) ''[ERROR] Cannot write to vpfile.'') (requeue p l a)))) (
      let fresh = (fresh \<and> \<not> full) in
      kseq (kwhen fresh (add_page a)) (
      kbind kalloc (\<lambda>mem.
      if mem = 0 then kseq (deallocuvm pgd newsz oldsz) (kret 0) else
      kseq (upd_memory (\<lambda>m. memset m mem 0 PGSIZE)) (
      kbind (mappages pgd a PGSIZE (V2P mem) (PTE_W OR PTE_U)) (\<lambda>r.
      if r < 0 then kseq (deallocuvm pgd newsz oldsz) (kseq (kfree mem) (kret 0)) else
      allocuvm_loop n p pgd oldsz newsz (a + PGSIZE) fresh)))))))"

definition allocuvm :: "uint32 \<Rightarrow> uint32 \<Rightarrow> uint32 \<Rightarrow> (uint32, 'a kfile_scheme) kop" where
  "allocuvm pgd oldsz newsz =
     with_proc (\<lambda>p.
     kbind (get_proc p id) (\<lambda>q.
     let stack_space = USERSTACKTOP - stacksize q - PGSIZE in
     if stack_growing q = 1 \<and> stack_space - PGSIZE < sz q then kret 0 else
     if stack_growing q = 1 \<and> oldsz = stack_space \<and> oldsz < stacksize q + PGSIZE then kret 0 else
     if stack_growing q = 0 \<and> newsz > stack_space then kret 0 else
     if newsz > KERNBASE then kret 0 else
     if newsz < oldsz then kret oldsz else
     allocuvm_loop page_fuel p pgd oldsz newsz (PGROUNDUP oldsz) True))"

fun loaduvm_loop :: "nat \<Rightarrow> uint32 \<Rightarrow> uint32 \<Rightarrow> nat \<Rightarrow> uint32 \<Rightarrow> uint32 \<Rightarrow> uint32 \<Rightarrow> (int, 'a kcons_scheme) kop" where
  "loaduvm_loop 0 pgd addr ip offset len i = kspin"
| "loaduvm_loop (Suc k) pgd addr ip offset len i =
     (if \<not> i < len then kret 0 else
      kbind (walkpgdir pgd (addr + i) False) (\<lambda>pte.
      if pte = 0 then kpanic ''loaduvm: address should exist'' else
      kbind (ld32 pte) (\<lambda>v.
      let n = (if len - i < PGSIZE then len - i else PGSIZE) in
      kbind (readi ip (P2V (PTE_ADDR v)) (offset + i) n) (\<lambda>r.
      if of_int r \<noteq> n then kret (- 1) else
      loaduvm_loop k pgd addr ip offset len (i + PGSIZE)))))"

definition loaduvm :: "uint32 \<Rightarrow> uint32 \<Rightarrow> nat \<Rightarrow> uint32 \<Rightarrow> uint32 \<Rightarrow> (int, 'a kcons_scheme) kop" where
  "loaduvm pgd addr ip offset len =
     (if addr mod PGSIZE \<noteq> 0 then kpanic ''loaduvm: addr must be page aligned'' else
      loaduvm_loop page_fuel pgd addr ip offset len 0)"

section \<open>Page faults\<close>

text \<open>One of the four rounds that exchange the page in memory with the page in the swap file.\<close>

definition exchange_part :: "nat \<Rightarrow> uint32 \<Rightarrow> uint32 \<Rightarrow> uint32 \<Rightarrow> nat \<Rightarrow> (unit, 'a kfile_scheme) kop" where
  "exchange_part p addr pte_in pos j =
     (let loc = pos + of_nat (1024 * j); off = of_nat (1024 * j) in
     kbind (vpread_local p loc 1024) (\<lambda>(_, bs).
     kbind (ld32 pte_in) (\<lambda>v.
     kseq (vpwrite p (P2V (PTE_ADDR v) + off) loc 1024) (
     kstore (PTE_ADDR addr + off) (bs @ replicate (1024 - length bs) 0)))))"

definition fifo_replace :: "uint32 \<Rightarrow> (unit, 'a kfile_scheme) kop" where
  "fifo_replace addr =
     with_proc (\<lambda>p.
     kbind (take_oldest p ''[ERROR] Only 0 or 1 pages in memory.'' ''[ERROR] last null!'') (\<lambda>lst.
     kbind (get_proc p pgdir) (\<lambda>d.
     kbind (pld lst 0) (\<lambda>va.
     kbind (walkpgdir d va False) (\<lambda>pte_in.
     kbind (pld pte_in 0) (\<lambda>v.
     kseq (kassert (v \<noteq> 0) ''[ERROR] A record is in memstab but not in pgdir.'') (
     kbind (get_proc p virtual_page_head) (\<lambda>h.
     kbind (seek_ventry page_fuel h (PTE_ADDR addr) 0) (\<lambda>r.
     case r of None \<Rightarrow> kpanic ''[ERROR] Should find a record in vpfile!'' | Some (ent, pos) \<Rightarrow>
     kseq (st32 ent va) (
     kbind (walkpgdir d addr False) (\<lambda>pte_out.
     kbind (pld pte_out 0) (\<lambda>w.
     kseq (kassert (w \<noteq> 0) ''[ERROR] A record should be in pgdir!'') (
     kseq (st32 pte_out (PTE_ADDR v OR PTE_U OR PTE_W OR PTE_P)) (
     kseq (for_each (exchange_part p addr pte_in pos) [0..<4]) (
     kseq (st32 pte_in (PTE_U OR PTE_W OR PTE_PG)) (
     kbind (get_proc p mem_queue_head) (\<lambda>qh.
     kseq (pst lst 4 qh) (
     kseq (pst qh 8 lst) (
     kseq (upd_proc p (\<lambda>q. q\<lparr>mem_queue_head := lst\<rparr>)) (
     pst lst 0 (PTE_ADDR addr)))))))))))))))))))))"

definition replace_page :: "uint32 \<Rightarrow> (unit, 'a kfile_scheme) kop" where
  "replace_page addr =
     with_proc (\<lambda>p.
     kbind (get_proc p pname) (\<lambda>nm.
     if nm = ''init'' \<or> nm = ''sh'' then
       upd_proc p (\<lambda>q. q\<lparr>num_mem_page_entries := num_mem_page_entries q + 1\<rparr>)
     else
       kseq (fifo_replace addr) (
       kbind (get_proc p pgdir) (\<lambda>d. lcr3 (V2P d)))))"

text \<open>Is the page of \<open>va\<close> in a swap file?\<close>

definition paged_out :: "uint32 \<Rightarrow> uint32 \<Rightarrow> (bool, 'a kheap_scheme) kop" where
  "paged_out pgd va =
     kbind (ld32 (pgd + 4 * PDX va)) (\<lambda>pde.
     if pde AND PTE_P = 0 then kret False else
     kbind (ld32 (PTE_ADDR (P2V pde) + 4 * PTX va)) (\<lambda>v. kret (v AND PTE_PG \<noteq> 0)))"

text \<open>The stack grows by one page.\<close>

definition grow_stack :: "nat \<Rightarrow> (unit, 'a kfile_scheme) kop" where
  "grow_stack p =
     kseq (upd_proc p (\<lambda>q. q\<lparr>stack_growing := 1\<rparr>)) (
     kbind (get_proc p id) (\<lambda>q.
     kbind (allocuvm (pgdir q) (USERSTACKTOP - stacksize q - PGSIZE) (USERSTACKTOP - stacksize q)) (\<lambda>r.
     kseq (kwhen (r = 0) (upd_proc p (\<lambda>q. q\<lparr>killed := 1\<rparr>))) (
     kseq (upd_proc p (\<lambda>q. q\<lparr>stack_growing := 0\<rparr>)) (
     upd_proc p (\<lambda>q. q\<lparr>stacksize := stacksize q + PGSIZE\<rparr>))))))"

definition cast_page_fault :: "uint32 \<Rightarrow> (unit, 'a kfile_scheme) kop" where
  "cast_page_fault errcode =
     kbind (kget cr2) (\<lambda>va.
     kbind myproc (\<lambda>cp.
     if errcode AND 1 = 0 then
       deref cp (\<lambda>p.
       if va < PGSIZE then upd_proc p (\<lambda>q. q\<lparr>killed := 1\<rparr>) else
       kbind (get_proc p id) (\<lambda>q.
       kbind (paged_out (pgdir q) va) (\<lambda>out.
       if out then replace_page (PTE_ADDR va) else
       if va \<ge> sz q + PGSIZE \<and> va < USERSTACKTOP - stacksize q then grow_stack p else
       kbind kalloc (\<lambda>mem.
       if mem = 0 then upd_proc p (\<lambda>q. q\<lparr>killed := 1\<rparr>) else write_fault p va))))
     else
       (case cp of None \<Rightarrow> kpanic ''page fault. No process.'' | Some p \<Rightarrow> write_fault p va)))"

end
