(* ===== verification/Proc.thy ===== *)
theory Proc
  imports Swap
begin

text \<open>
  The rest of proc.c: creating, ending and reaping processes, the scheduler, growing a process, and
  the shared memory pages. The scheduler runs between two context switches: \<open>scheduler_start\<close> begins a
  pass over the table, \<open>scheduler_resume\<close> continues it behind the process that just gave up the
  processor; both end with \<open>Switch\<close> to the process they pick. The fields of a trap frame are at the
  offsets of \<open>struct trapframe\<close>.
\<close>

abbreviation (input) "SHR_MEM_NUM \<equiv> 32768 :: nat"
abbreviation (input) "NPROC \<equiv> 64 :: nat"
abbreviation (input) "NOFILE \<equiv> 16 :: nat"
abbreviation (input) "tf_eax \<equiv> 28 :: uint32"
abbreviation (input) "tf_es \<equiv> 40 :: uint32"
abbreviation (input) "tf_ds \<equiv> 44 :: uint32"
abbreviation (input) "tf_trapno \<equiv> 48 :: uint32"
abbreviation (input) "tf_err \<equiv> 52 :: uint32"
abbreviation (input) "tf_eip \<equiv> 56 :: uint32"
abbreviation (input) "tf_cs \<equiv> 60 :: uint32"
abbreviation (input) "tf_eflags \<equiv> 64 :: uint32"
abbreviation (input) "tf_esp \<equiv> 68 :: uint32"
abbreviation (input) "tf_ss \<equiv> 72 :: uint32"

record share_memory =
  sm_addr :: uint32
  sm_sig :: uint32

record kshm = kfile +
  shrmems :: "share_memory list"
  forkret_first :: uint32
  ticks :: uint32
  idt :: "gatedesc list"
  idtr :: uint32

definition st16 :: "uint32 \<Rightarrow> uint16 \<Rightarrow> (unit, 'a kheap_scheme) kop" where
  "st16 a v = upd_memory (\<lambda>m. m(a := ucast v, a + 1 := ucast (drop_bit 8 v)))"

definition ld16 :: "uint32 \<Rightarrow> (uint16, 'a kheap_scheme) kop" where
  "ld16 a = kget (\<lambda>s. ucast (memory s a) OR push_bit 8 (ucast (memory s (a + 1))))"

section \<open>Shared memory\<close>

definition shrmeminit :: "(unit, 'a kshm_scheme) kop" where
  "shrmeminit = kmod (\<lambda>s. s\<lparr>shrmems := map (\<lambda>_. \<lparr>sm_addr = 0, sm_sig = 0\<rparr>) (shrmems s)\<rparr>)"

definition set_sig :: "nat \<Rightarrow> nat \<Rightarrow> uint32 \<Rightarrow> (unit, 'a kproc_scheme) kop" where
  "set_sig p j v = upd_proc p (\<lambda>q. q\<lparr>shrmem_sigs := (shrmem_sigs q)[j := v]\<rparr>)"

definition set_shrmem :: "nat \<Rightarrow> uint32 \<Rightarrow> uint32 \<Rightarrow> (unit, 'a kshm_scheme) kop" where
  "set_shrmem i a v = kmod (\<lambda>s. s\<lparr>shrmems := (shrmems s)[i := \<lparr>sm_addr = a, sm_sig = v\<rparr>]\<rparr>)"

definition make_shrmem :: "uint32 \<Rightarrow> (int, 'a kshm_scheme) kop" where
  "make_shrmem sign =
     kseq (acquire L_shrmem) (
     with_proc (\<lambda>p.
     kbind (get_proc p (\<lambda>q. find_index (\<lambda>v. v = 0) (shrmem_sigs q))) (\<lambda>rj.
     case rj of None \<Rightarrow> kseq (release L_shrmem) (kret (- 1)) | Some j \<Rightarrow>
     kbind (kget (\<lambda>s. find_index (\<lambda>m. sm_sig m = 0) (shrmems s))) (\<lambda>ri.
     case ri of
       None \<Rightarrow> kseq (release L_shrmem) (kret (- 1))
     | Some i \<Rightarrow>
         kbind kalloc (\<lambda>a.
         kseq (set_shrmem i a sign) (
         kseq (set_sig p j sign) (
         kseq (release L_shrmem) (kret 0))))))))"

definition remove_shrmem :: "uint32 \<Rightarrow> (int, 'a kshm_scheme) kop" where
  "remove_shrmem sign =
     kseq (acquire L_shrmem) (
     with_proc (\<lambda>p.
     kbind (get_proc p (\<lambda>q. find_index (\<lambda>v. v = sign) (shrmem_sigs q))) (\<lambda>rj.
     case rj of None \<Rightarrow> kseq (release L_shrmem) (kret (- 1)) | Some j \<Rightarrow>
     kbind (kget (\<lambda>s. find_index (\<lambda>m. sm_sig m = sign) (shrmems s))) (\<lambda>ri.
     case ri of
       None \<Rightarrow> kseq (release L_shrmem) (kret (- 1))
     | Some i \<Rightarrow>
         kbind (kget (\<lambda>s. sm_addr (shrmems s ! i))) (\<lambda>a.
         kseq (kfree a) (
         kseq (set_shrmem i (- 1) 0) (
         kseq (set_sig p j 0) (
         kseq (release L_shrmem) (kret 0)))))))))"

definition read_shrmem :: "uint32 \<Rightarrow> uint32 \<Rightarrow> (int, 'a kshm_scheme) kop" where
  "read_shrmem sign buffer =
     kbind (kget (\<lambda>s. find (\<lambda>m. sm_sig m = sign) (shrmems s))) (\<lambda>r.
     case r of
       None \<Rightarrow> kret (- 1)
     | Some m \<Rightarrow> kbind (kload (sm_addr m) 4096) (\<lambda>bs. kseq (kstore buffer bs) (kret 0)))"

definition write_shrmem :: "uint32 \<Rightarrow> uint32 \<Rightarrow> (int, 'a kshm_scheme) kop" where
  "write_shrmem sign buffer =
     kbind (kloadstr (2 ^ 32) buffer) (\<lambda>(bs, fin).
     if \<not> fin then kspin else
     kbind (kget (\<lambda>s. find (\<lambda>m. sm_sig m = sign) (shrmems s))) (\<lambda>r.
     case r of
       None \<Rightarrow> kret (- 1)
     | Some m \<Rightarrow> kseq (kstore (sm_addr m) (bs @ [0])) (kret 0)))"

section \<open>Life of a process\<close>

text \<open>\<open>initcode\<close> is the image of initcode.S that is linked into the kernel.\<close>

definition init_frame :: "uint32 \<Rightarrow> (unit, 'a kheap_scheme) kop" where
  "init_frame t =
     kseq (upd_memory (\<lambda>m. memset m t 0 76)) (
     kseq (st16 (t + tf_cs) 0x1B) (
     kseq (st16 (t + tf_ds) 0x23) (
     kseq (kbind (ld16 (t + tf_ds)) (st16 (t + tf_es))) (
     kseq (kbind (ld16 (t + tf_ds)) (st16 (t + tf_ss))) (
     kseq (st32 (t + tf_eflags) FL_IF) (
     kseq (st32 (t + tf_esp) PGSIZE) (
     st32 (t + tf_eip) 0)))))))"

definition userinit :: "uint8 list \<Rightarrow> (unit, 'a kshm_scheme) kop" where
  "userinit initcode =
     kbind allocproc (\<lambda>r.
     kseq (kmod (\<lambda>s. s\<lparr>initproc := r\<rparr>)) (
     deref r (\<lambda>p.
     kbind setupkvm (\<lambda>d.
     kseq (upd_proc p (\<lambda>q. q\<lparr>pgdir := d\<rparr>)) (
     if d = 0 then kpanic ''userinit: out of memory?'' else
     kseq (inituvm d initcode) (
     kseq (upd_proc p (\<lambda>q. q\<lparr>sz := PGSIZE\<rparr>)) (
     kbind (get_proc p tf) (\<lambda>t.
     kseq (init_frame t) (
     kseq (upd_proc p (\<lambda>q. q\<lparr>pname := ''initcode''\<rparr>)) (
     kbind (namei [0x2F]) (\<lambda>c.
     kseq (upd_proc p (\<lambda>q. q\<lparr>cwd := c\<rparr>)) (
     kseq (acquire L_ptable) (
     kseq (upd_proc p (\<lambda>q. q\<lparr>pstate := RUNNABLE\<rparr>)) (
     release L_ptable))))))))))))))"

definition growproc :: "uint32 \<Rightarrow> (int, 'a kshm_scheme) kop" where
  "growproc n =
     with_proc (\<lambda>p.
     kbind (get_proc p id) (\<lambda>q.
     if sz q + n > USERSTACKTOP - stacksize q - PGSIZE then kret (- 1) else
     kbind (if sint n > 0 then allocuvm (pgdir q) (sz q) (sz q + n)
            else if sint n < 0 then deallocuvm (pgdir q) (sz q) (sz q + n) else kret (sz q)) (\<lambda>r.
     if n \<noteq> 0 \<and> r = 0 then kret (- 1) else
     kseq (upd_proc p (\<lambda>q. q\<lparr>sz := r\<rparr>)) (
     kseq (switchuvm (Some p)) (kret 0)))))"

text \<open>The contents of the swap files of the parent go to the child, 2048 bytes at a time.\<close>

fun copy_vpfiles :: "nat \<Rightarrow> nat \<Rightarrow> nat \<Rightarrow> uint32 \<Rightarrow> (unit, 'a kfile_scheme) kop" where
  "copy_vpfiles 0 cp np offset = kspin"
| "copy_vpfiles (Suc n) cp np offset =
     kbind (vpread_local cp offset 2048) (\<lambda>(r, bs).
     if r = 0 then kret () else
     if r < 0 then kseq (vp_seek np offset) (kassert False ''[ERROR] Copying vpfile in fork().'') else
     kbind (vpwrite_local np bs offset) (\<lambda>w.
     kseq (kassert (w \<noteq> - 1) ''[ERROR] Copying vpfile in fork().'') (
     copy_vpfiles n cp np (offset + of_int r))))"

definition dup_file :: "nat \<Rightarrow> nat \<Rightarrow> nat \<Rightarrow> (unit, 'a kfile_scheme) kop" where
  "dup_file cp np fd =
     kbind (get_proc cp (\<lambda>q. ofile q ! fd)) (\<lambda>f.
     case f of None \<Rightarrow> kret () | Some i \<Rightarrow>
     kbind (filedup i) (\<lambda>j. upd_proc np (\<lambda>q. q\<lparr>ofile := (ofile q)[fd := Some j]\<rparr>)))"

text \<open>What the child inherits once it has an address space.\<close>

definition fork_inherit :: "nat \<Rightarrow> nat \<Rightarrow> (unit, 'a kfile_scheme) kop" where
  "fork_inherit cp np =
     kbind (get_proc cp id) (\<lambda>c.
     kseq (upd_proc np (\<lambda>q. q\<lparr>sz := sz c, parent := Some cp\<rparr>)) (
     kbind (get_proc np tf) (\<lambda>t.
     kseq (upd_memory (\<lambda>m. mem_copy m t (tf c) 76)) (
     kseq (upd_proc np (\<lambda>q. q\<lparr>num_mem_page_entries := num_mem_page_entries c, stacksize := stacksize c\<rparr>)) (
     kseq (st32 (t + tf_eax) 0) (
     kseq (for_each (dup_file cp np) [0..<NOFILE]) (
     kbind (deref (cwd c) idup) (\<lambda>d.
     kseq (upd_proc np (\<lambda>q. q\<lparr>cwd := Some d\<rparr>)) (
     upd_proc np (\<lambda>q. q\<lparr>pname := take 15 (pname c)\<rparr>))))))))))"

definition fork :: "(int, 'a kshm_scheme) kop" where
  "fork =
     with_proc (\<lambda>cp.
     kbind allocproc (\<lambda>r.
     case r of None \<Rightarrow> kret (- 1) | Some np \<Rightarrow>
     kbind (get_proc cp id) (\<lambda>c.
     kbind (copyuvm (pgdir c) (sz c)) (\<lambda>d.
     kseq (upd_proc np (\<lambda>q. q\<lparr>pgdir := d\<rparr>)) (
     if d = 0 then
       kbind (get_proc np kstack) (\<lambda>ks.
       kseq (kfree ks) (
       kseq (upd_proc np (\<lambda>q. q\<lparr>kstack := 0, pstate := UNUSED\<rparr>)) (kret (- 1))))
     else
       kseq (fork_inherit cp np) (
       kbind (get_proc np pid) (\<lambda>n.
       kseq (vpalloc np) (
       kseq (kwhen (pname c \<noteq> ''init'' \<and> pname c \<noteq> ''sh'') (copy_vpfiles page_fuel cp np 0)) (
       kbind (copy_mem np cp) (\<lambda>m.
       if m = - 1 then kret (- 1) else
       kseq (acquire L_ptable) (
       kseq (upd_proc np (\<lambda>q. q\<lparr>pstate := RUNNABLE\<rparr>)) (
       kseq (release L_ptable) (kret (sint n))))))))))))))"

definition close_fd :: "nat \<Rightarrow> nat \<Rightarrow> (unit, 'a kfile_scheme) kop" where
  "close_fd p fd =
     kbind (get_proc p (\<lambda>q. ofile q ! fd)) (\<lambda>f.
     case f of None \<Rightarrow> kret () | Some i \<Rightarrow>
     kseq (fileclose i) (upd_proc p (\<lambda>q. q\<lparr>ofile := (ofile q)[fd := None]\<rparr>)))"

definition drop_shrmem :: "nat \<Rightarrow> nat \<Rightarrow> (unit, 'a kshm_scheme) kop" where
  "drop_shrmem p j =
     kbind (get_proc p (\<lambda>q. shrmem_sigs q ! j)) (\<lambda>v.
     kseq (kwhen (v \<noteq> 0) (kbind (remove_shrmem v) (\<lambda>_. kret ()))) (set_sig p j (- 1)))"

definition reparent :: "nat \<Rightarrow> nat \<Rightarrow> (unit, 'a kproc_scheme) kop" where
  "reparent cp i =
     kbind (get_proc i parent) (\<lambda>pr.
     kwhen (pr = Some cp) (
       kbind (kget initproc) (\<lambda>ini.
       kseq (upd_proc i (\<lambda>q. q\<lparr>parent := ini\<rparr>)) (
       kbind (get_proc i pstate) (\<lambda>st.
       kwhen (st = ZOMBIE) (case ini of None \<Rightarrow> kret () | Some k \<Rightarrow> wakeup1 (C_proc k)))))))"

text \<open>The end of \<open>exit\<close>: with the table lock held the parent is woken, the children go to \<open>init\<close>, and the
  process leaves the processor as a zombie.\<close>

definition exit_zombie :: "nat \<Rightarrow> (unit, 'a kproc_scheme) kop" where
  "exit_zombie cp =
     kseq (acquire L_ptable) (
     kbind (get_proc cp parent) (\<lambda>pr.
     kseq (case pr of None \<Rightarrow> kret () | Some k \<Rightarrow> wakeup1 (C_proc k)) (
     kbind (kget (\<lambda>s. length (ptable s))) (\<lambda>n.
     kseq (for_each (reparent cp) [0..<n]) (
     kseq (upd_proc cp (\<lambda>q. q\<lparr>pstate := ZOMBIE\<rparr>)) (
     kseq sched (kassert False ''zombie exit'')))))))"

definition exit :: "(unit, 'a kshm_scheme) kop" where
  "exit =
     kbind myproc (\<lambda>r.
     kbind (kget initproc) (\<lambda>ini.
     if r = ini then kpanic ''init exiting'' else
     deref r (\<lambda>cp.
     kseq (for_each (close_fd cp) [0..<NOFILE]) (
     kbind (vpfree cp) (\<lambda>v.
     kseq (kassert (v = 0) ''[ERROR] Remove vpfile error.'') (
     kseq (for_each (drop_shrmem cp) [0..<PROC_SHR_MEM_NUM]) (
     kseq begin_op (
     kbind (get_proc cp cwd) (\<lambda>c.
     kseq (deref c iput) (
     kseq end_op (
     kseq (upd_proc cp (\<lambda>q. q\<lparr>cwd := None\<rparr>)) (
     exit_zombie cp))))))))))))"

definition reap :: "nat \<Rightarrow> (int, 'a kproc_scheme) kop" where
  "reap i =
     kbind (get_proc i id) (\<lambda>q.
     kseq (kfree (kstack q)) (
     kseq (upd_proc i (\<lambda>q. q\<lparr>kstack := 0\<rparr>)) (
     kseq (freevm (pgdir q)) (
     kseq (upd_proc i (\<lambda>q. q\<lparr>pid := 0, parent := None, pname := [], killed := 0, pstate := UNUSED\<rparr>)) (
     kseq (release L_ptable) (kret (sint (pid q))))))))"

definition wait :: "(int, 'a kproc_scheme) kop" where
  "wait =
     kbind myproc (\<lambda>r.
     kseq (acquire L_ptable) (
     deref r (\<lambda>cp.
     kbind (kget (\<lambda>s. find_index (\<lambda>q. parent q = Some cp \<and> pstate q = ZOMBIE) (ptable s))) (\<lambda>z.
     case z of
       Some i \<Rightarrow> reap i
     | None \<Rightarrow>
         kbind (kget (\<lambda>s. \<exists>q \<in> set (ptable s). parent q = Some cp)) (\<lambda>havekids.
         kbind (get_proc cp killed) (\<lambda>k.
         if \<not> havekids \<or> k \<noteq> 0 then kseq (release L_ptable) (kret (- 1))
         else kseq (sleep (C_proc cp) L_ptable) (kret (- 1))))))))"

section \<open>The scheduler\<close>

definition sched_scan :: "nat \<Rightarrow> (unit, 'a kproc_scheme) kop" where
  "sched_scan i =
     kbind (kget (\<lambda>s. find (\<lambda>j. pstate (ptable s ! j) = RUNNABLE) [i..<length (ptable s)])) (\<lambda>r.
     case r of
       None \<Rightarrow> release L_ptable
     | Some p \<Rightarrow>
         kseq (upd_mycpu (\<lambda>c. c\<lparr>cpu_proc := Some p\<rparr>)) (
         kseq (switchuvm (Some p)) (
         kseq (upd_proc p (\<lambda>q. q\<lparr>pstate := RUNNING\<rparr>)) kswitch)))"

definition scheduler_start :: "(unit, 'a kproc_scheme) kop" where
  "scheduler_start = kseq sti (kseq (acquire L_ptable) (sched_scan 0))"

definition scheduler_resume :: "nat \<Rightarrow> (unit, 'a kvm_scheme) kop" where
  "scheduler_resume p =
     kseq switchkvm (
     kseq (upd_mycpu (\<lambda>c. c\<lparr>cpu_proc := None\<rparr>)) (
     sched_scan (Suc p)))"

definition scheduler :: "(unit, 'a kproc_scheme) kop" where
  "scheduler = kseq (upd_mycpu (\<lambda>c. c\<lparr>cpu_proc := None\<rparr>)) scheduler_start"

definition forkret :: "(unit, 'a kshm_scheme) kop" where
  "forkret =
     kseq (release L_ptable) (
     kbind (kget forkret_first) (\<lambda>first.
     kwhen (first \<noteq> 0) (
       kseq (kmod (\<lambda>s. s\<lparr>forkret_first := 0\<rparr>)) (
       kseq (iinit ROOTDEV) (initlog ROOTDEV)))))"

end
