(* ===== verification/Exec.thy ===== *)
theory Exec
  imports Proc
begin

text \<open>
  exec.c with the file format of elf.h: a program file is checked, loaded into a new address space with
  its arguments on the new stack, and replaces the image of the process. The path and the arguments
  are byte lists without the terminating zero.
\<close>

abbreviation (input) "ELF_MAGIC \<equiv> 0x464C457F :: uint32"
abbreviation (input) "ELF_PROG_LOAD \<equiv> 1 :: uint32"
abbreviation (input) "MAXARG \<equiv> 32 :: nat"

record elfhdr =
  elf_magic :: uint32
  elf_entry :: uint32
  elf_phoff :: uint32
  elf_phnum :: uint16

record proghdr =
  ph_type :: uint32
  ph_off :: uint32
  ph_vaddr :: uint32
  ph_filesz :: uint32
  ph_memsz :: uint32

definition elfhdr_of :: "uint8 list \<Rightarrow> elfhdr" where
  "elfhdr_of bs = \<lparr>elf_magic = get32 bs 0, elf_entry = get32 bs 24, elf_phoff = get32 bs 28, elf_phnum = get16 bs 44\<rparr>"

definition proghdr_of :: "uint8 list \<Rightarrow> proghdr" where
  "proghdr_of bs = \<lparr>ph_type = get32 bs 0, ph_off = get32 bs 4, ph_vaddr = get32 bs 8, ph_filesz = get32 bs 16, ph_memsz = get32 bs 20\<rparr>"

text \<open>The program headers in order; \<open>None\<close> stands for the jump to \<open>bad\<close>.\<close>

fun exec_load :: "nat \<Rightarrow> uint32 \<Rightarrow> nat \<Rightarrow> uint32 \<Rightarrow> uint32 \<Rightarrow> (uint32 option, 'a kfile_scheme) kop" where
  "exec_load 0 pgd ip off len = kret (Some len)"
| "exec_load (Suc k) pgd ip off len =
     kbind (readi_local ip off 32) (\<lambda>(r, bs).
     if r \<noteq> 32 then kret None else
     let ph = proghdr_of bs in
     if ph_type ph \<noteq> ELF_PROG_LOAD then exec_load k pgd ip (off + 32) len else
     if ph_memsz ph < ph_filesz ph then kret None else
     if ph_vaddr ph + ph_memsz ph < ph_vaddr ph then kret None else
     kbind (allocuvm pgd len (ph_vaddr ph + ph_memsz ph)) (\<lambda>len.
     if len = 0 then kret None else
     if ph_vaddr ph mod PGSIZE \<noteq> 0 then kret None else
     kbind (loaduvm pgd (ph_vaddr ph) ip (ph_off ph) (ph_filesz ph)) (\<lambda>l.
     if l < 0 then kret None else exec_load k pgd ip (off + 32) len)))"

text \<open>The argument strings go to the stack from the top down; the result is the stack pointer and the
  addresses of the strings.\<close>

fun push_args :: "uint32 \<Rightarrow> uint8 list list \<Rightarrow> nat \<Rightarrow> uint32 \<Rightarrow> ((uint32 \<times> uint32 list) option, 'a kheap_scheme) kop" where
  "push_args pgd [] argc sp = kret (Some (sp, []))"
| "push_args pgd (a # as) argc sp =
     (if argc \<ge> MAXARG then kret None else
      let sp = (sp - of_nat (length a + 1)) AND NOT 3 in
      kbind (copyout pgd sp (a @ [0])) (\<lambda>r.
      if r < 0 then kret None else
      kbind (push_args pgd as (Suc argc) sp) (\<lambda>q.
      kret (map_option (\<lambda>(sp', us). (sp', sp # us)) q))))"

definition exec_stack :: "uint32 \<Rightarrow> uint8 list list \<Rightarrow> (uint32 option, 'a kheap_scheme) kop" where
  "exec_stack pgd argv =
     kbind (push_args pgd argv 0 USERSTACKTOP) (\<lambda>r.
     case r of None \<Rightarrow> kret None | Some (sp, us) \<Rightarrow>
     let argc = of_nat (length us);
         ustack = [0xFFFFFFFF, argc, sp - (argc + 1) * 4] @ us @ [0];
         sp = sp - (3 + argc + 1) * 4 in
     kbind (copyout pgd sp (concat (map bytes_of ustack))) (\<lambda>w.
     kret (if w < 0 then None else Some sp)))"

text \<open>The name of the process: the path behind its last slash.\<close>

definition last_name :: "uint8 list \<Rightarrow> string" where
  "last_name path = take 15 (map (\<lambda>b. char_of (unat b)) (rev (takeWhile (\<lambda>c. c \<noteq> 0x2F) (rev path))))"

definition exec_bad :: "uint32 \<Rightarrow> nat option \<Rightarrow> (int, 'a kfile_scheme) kop" where
  "exec_bad pgd ip =
     kseq (kwhen (pgd \<noteq> 0) (freevm pgd)) (
     kseq (case ip of None \<Rightarrow> kret () | Some i \<Rightarrow> kseq (iunlockput i) end_op) (kret (- 1)))"

definition exec_commit :: "nat \<Rightarrow> uint8 list \<Rightarrow> uint32 \<Rightarrow> uint32 \<Rightarrow> uint32 \<Rightarrow> uint32 \<Rightarrow> (int, 'a kfile_scheme) kop" where
  "exec_commit p path pgd len entry sp =
     kseq (upd_proc p (\<lambda>q. q\<lparr>pname := last_name path\<rparr>)) (
     kbind (get_proc p pgdir) (\<lambda>oldpgdir.
     kseq (upd_proc p (\<lambda>q. q\<lparr>pgdir := pgd, stacksize := PGSIZE, sz := len\<rparr>)) (
     kbind (get_proc p tf) (\<lambda>t.
     kseq (st32 (t + tf_eip) entry) (
     kseq (st32 (t + tf_esp) sp) (
     kseq (vpfree p) (
     kseq (vpalloc p) (
     kseq (switchuvm (Some p)) (
     kseq (freevm oldpgdir) (kret 0))))))))))"

definition exec :: "uint8 list \<Rightarrow> uint8 list list \<Rightarrow> (int, 'a kfile_scheme) kop" where
  "exec path argv =
     with_proc (\<lambda>p.
     kseq begin_op (
     kbind (namei path) (\<lambda>r.
     case r of None \<Rightarrow> kseq end_op (kret (- 1)) | Some ip \<Rightarrow>
     kseq (ilock (Some ip)) (
     kbind (readi_local ip 0 52) (\<lambda>(r, bs).
     let elf = elfhdr_of bs in
     if r \<noteq> 52 then exec_bad 0 (Some ip) else
     if elf_magic elf \<noteq> ELF_MAGIC then exec_bad 0 (Some ip) else
     kbind setupkvm (\<lambda>pgd.
     if pgd = 0 then exec_bad 0 (Some ip) else
     kseq (mem_clear p) (
     kseq (vmem_clear p) (
     kbind (exec_load (unat (elf_phnum elf)) pgd ip (elf_phoff elf) PGSIZE) (\<lambda>r.
     case r of None \<Rightarrow> exec_bad pgd (Some ip) | Some len \<Rightarrow>
     kseq (iunlockput ip) (
     kseq end_op (
     let len = PGROUNDUP len in
     kseq (upd_proc p (\<lambda>q. q\<lparr>stack_growing := 1\<rparr>)) (
     kbind (allocuvm pgd (USERSTACKTOP - PGSIZE) USERSTACKTOP) (\<lambda>r.
     if r = 0 then exec_bad pgd None else
     kseq (upd_proc p (\<lambda>q. q\<lparr>stack_growing := 0\<rparr>)) (
     kbind (exec_stack pgd argv) (\<lambda>r.
     case r of None \<Rightarrow> exec_bad pgd None | Some sp \<Rightarrow>
     exec_commit p path pgd len (elf_entry elf) sp)))))))))))))))"

end
