(* ===== verification/Syscall.thy ===== *)
theory Syscall
  imports Exec
begin

text \<open>
  The system calls: fetching and checking arguments (syscall.c), the calls on processes (sysproc.c) and
  on files (sysfile.c), and the dispatch by number. A user string is fetched as its bytes; a pointer
  or integer argument that is refused is \<open>None\<close>.
\<close>

section \<open>Arguments\<close>

definition user_esp :: "nat \<Rightarrow> (uint32, 'a kproc_scheme) kop" where
  "user_esp p = kbind (get_proc p tf) (\<lambda>t. ld32 (t + tf_esp))"

definition fetchint :: "uint32 \<Rightarrow> (uint32 option, 'a kproc_scheme) kop" where
  "fetchint addr =
     with_proc (\<lambda>p.
     kbind (get_proc p sz) (\<lambda>n.
     kbind (user_esp p) (\<lambda>esp.
     if addr \<ge> n \<and> addr < esp then kret None else
     if addr + 4 > n \<and> addr < esp then kret None else
     if addr + 4 > USERSTACKTOP then kret None else
     kbind (kload32 addr) (\<lambda>v. kret (Some v)))))"

text \<open>The region a string may lie in, from its address to \<open>ep\<close>.\<close>

definition str_end :: "uint32 \<Rightarrow> uint32 \<Rightarrow> uint32 \<Rightarrow> uint32 option" where
  "str_end n esp addr =
     (if (addr \<ge> n \<and> addr < esp) \<or> addr > USERSTACKTOP then None
      else if addr < n then Some n
      else if addr \<ge> esp \<and> addr < USERSTACKTOP then Some USERSTACKTOP
      else None)"

definition fetchstr :: "uint32 \<Rightarrow> (uint8 list option, 'a kproc_scheme) kop" where
  "fetchstr addr =
     with_proc (\<lambda>p.
     kbind (get_proc p sz) (\<lambda>n.
     kbind (user_esp p) (\<lambda>esp.
     case str_end n esp addr of None \<Rightarrow> kret None | Some ep \<Rightarrow>
     kbind (kloadstr (unat (ep - addr)) addr) (\<lambda>(bs, fin). kret (if fin then Some bs else None)))))"

definition argint :: "nat \<Rightarrow> (uint32 option, 'a kproc_scheme) kop" where
  "argint n = with_proc (\<lambda>p. kbind (user_esp p) (\<lambda>esp. fetchint (esp + 4 + 4 * of_nat n)))"

text \<open>The checks of \<open>argptr\<close> on a pointer \<open>i\<close> to \<open>len\<close> bytes.\<close>

definition ptr_ok :: "uint32 \<Rightarrow> uint32 \<Rightarrow> uint32 \<Rightarrow> uint32 \<Rightarrow> bool" where
  "ptr_ok n ss i len \<longleftrightarrow> \<not> i < PGSIZE \<and> \<not> i > USERSTACKTOP
     \<and> \<not> (i \<ge> n \<and> i < USERSTACKTOP - ss)
     \<and> \<not> (i + len > n \<and> i + len < USERSTACKTOP - ss)
     \<and> \<not> i + len > USERSTACKTOP
     \<and> \<not> (i < n \<and> i + len \<ge> USERSTACKTOP - ss)"

definition argptr :: "nat \<Rightarrow> uint32 \<Rightarrow> (uint32 option, 'a kproc_scheme) kop" where
  "argptr n len =
     with_proc (\<lambda>p.
     kbind (argint n) (\<lambda>r.
     case r of None \<Rightarrow> kret None | Some i \<Rightarrow>
     kbind (get_proc p id) (\<lambda>q.
     kret (if ptr_ok (sz q) (stacksize q) i len then Some i else None))))"

definition argstr :: "nat \<Rightarrow> (uint8 list option, 'a kproc_scheme) kop" where
  "argstr n = kbind (argint n) (\<lambda>r. case r of None \<Rightarrow> kret None | Some a \<Rightarrow> fetchstr a)"

text \<open>A call that needs an argument returns -1 without it.\<close>

definition need :: "('b option, 's) kop \<Rightarrow> ('b \<Rightarrow> (int, 's) kop) \<Rightarrow> (int, 's) kop" where
  "need m f = kbind m (\<lambda>r. case r of None \<Rightarrow> kret (- 1) | Some x \<Rightarrow> f x)"

section \<open>Processes\<close>

definition sys_fork :: "(int, 'a kshm_scheme) kop" where
  "sys_fork = fork"

definition sys_exit :: "(int, 'a kshm_scheme) kop" where
  "sys_exit = kseq exit (kret 0)"

definition sys_wait :: "(int, 'a kshm_scheme) kop" where
  "sys_wait = wait"

definition sys_kill :: "(int, 'a kshm_scheme) kop" where
  "sys_kill = need (argint 0) kill"

definition sys_getpid :: "(int, 'a kshm_scheme) kop" where
  "sys_getpid = with_proc (\<lambda>p. kbind (get_proc p pid) (\<lambda>n. kret (sint n)))"

definition sys_sbrk :: "(int, 'a kshm_scheme) kop" where
  "sys_sbrk =
     with_proc (\<lambda>p.
     need (argint 0) (\<lambda>n.
     kbind (get_proc p sz) (\<lambda>addr.
     kbind (growproc n) (\<lambda>r.
     if r < 0 then kret (- 1) else
     kbind (get_proc p id) (\<lambda>q.
     if sz q + n > USERSTACKTOP - stacksize q - PGSIZE then kret (- 1) else
     kseq (upd_proc p (\<lambda>q. q\<lparr>sz := sz q + n\<rparr>)) (kret (sint addr)))))))"

definition sys_sleep :: "(int, 'a kshm_scheme) kop" where
  "sys_sleep =
     need (argint 0) (\<lambda>n.
     kseq (acquire L_tickslock) (
     kbind (kget ticks) (\<lambda>ticks0.
     kbind (kget ticks) (\<lambda>now.
     if now - ticks0 < n then
       with_proc (\<lambda>p.
       kbind (get_proc p killed) (\<lambda>k.
       if k \<noteq> 0 then kseq (release L_tickslock) (kret (- 1))
       else kseq (sleep C_ticks L_tickslock) (kret (- 1))))
     else kseq (release L_tickslock) (kret 0)))))"

definition sys_uptime :: "(int, 'a kshm_scheme) kop" where
  "sys_uptime =
     kseq (acquire L_tickslock) (
     kbind (kget ticks) (\<lambda>x.
     kseq (release L_tickslock) (kret (sint x))))"

definition sys_fpgn :: "(int, 'a kshm_scheme) kop" where
  "sys_fpgn = kbind get_free_pages_num (\<lambda>n. kret (sint n))"

definition sys_make_shrmem :: "(int, 'a kshm_scheme) kop" where
  "sys_make_shrmem = need (argint 0) make_shrmem"

definition sys_remove_shrmem :: "(int, 'a kshm_scheme) kop" where
  "sys_remove_shrmem = need (argint 0) remove_shrmem"

definition sys_read_shrmem :: "(int, 'a kshm_scheme) kop" where
  "sys_read_shrmem = need (argint 0) (\<lambda>sig. need (argptr 1 PGSIZE) (\<lambda>a. read_shrmem sig a))"

text \<open>\<open>write_shrmem\<close> gets the address of the string that \<open>argstr\<close> has checked.\<close>

definition sys_write_shrmem :: "(int, 'a kshm_scheme) kop" where
  "sys_write_shrmem =
     need (argint 0) (\<lambda>sig.
     need (argint 1) (\<lambda>a.
     need (fetchstr a) (\<lambda>_. write_shrmem sig a)))"

section \<open>Files\<close>

definition argfd :: "nat \<Rightarrow> ((nat \<times> nat) option, 'a kfile_scheme) kop" where
  "argfd n =
     kbind (argint n) (\<lambda>r.
     case r of None \<Rightarrow> kret None | Some v \<Rightarrow>
     let fd = sint v in
     if fd < 0 \<or> fd \<ge> int NOFILE then kret None else
     with_proc (\<lambda>p.
     kbind (get_proc p (\<lambda>q. ofile q ! nat fd)) (\<lambda>f. kret (map_option (Pair (nat fd)) f))))"

definition fdalloc :: "nat \<Rightarrow> (nat option, 'a kfile_scheme) kop" where
  "fdalloc f =
     with_proc (\<lambda>p.
     kbind (get_proc p (\<lambda>q. find_index (\<lambda>o1. o1 = None) (ofile q))) (\<lambda>r.
     case r of None \<Rightarrow> kret None | Some fd \<Rightarrow>
     kseq (upd_proc p (\<lambda>q. q\<lparr>ofile := (ofile q)[fd := Some f]\<rparr>)) (kret (Some fd))))"

definition sys_dup :: "(int, 'a kshm_scheme) kop" where
  "sys_dup =
     need (argfd 0) (\<lambda>(_, f).
     need (fdalloc f) (\<lambda>fd. kseq (filedup f) (kret (int fd))))"

definition sys_read :: "(int, 'a kshm_scheme) kop" where
  "sys_read =
     need (argfd 0) (\<lambda>(_, f).
     need (argint 2) (\<lambda>n.
     need (argptr 1 n) (\<lambda>a. fileread f a (sint n))))"

definition sys_write :: "(int, 'a kshm_scheme) kop" where
  "sys_write =
     need (argfd 0) (\<lambda>(_, f).
     need (argint 2) (\<lambda>n.
     need (argptr 1 n) (\<lambda>a. filewrite f a (sint n))))"

definition sys_close :: "(int, 'a kshm_scheme) kop" where
  "sys_close =
     need (argfd 0) (\<lambda>(fd, f).
     with_proc (\<lambda>p.
     kseq (upd_proc p (\<lambda>q. q\<lparr>ofile := (ofile q)[fd := None]\<rparr>)) (
     kseq (fileclose f) (kret 0))))"

definition sys_fstat :: "(int, 'a kshm_scheme) kop" where
  "sys_fstat = need (argfd 0) (\<lambda>(_, f). need (argptr 1 20) (\<lambda>st. filestat f st))"

definition link_bad :: "nat \<Rightarrow> (int, 'a kcons_scheme) kop" where
  "link_bad ip =
     kseq (ilock (Some ip)) (
     kseq (upd_inode ip (\<lambda>x. x\<lparr>i_nlink := i_nlink x - 1\<rparr>)) (
     kseq (iupdate ip) (
     kseq (iunlockput ip) (
     kseq end_op (kret (- 1))))))"

definition link_into :: "nat \<Rightarrow> nat \<Rightarrow> uint8 list \<Rightarrow> (int, 'a kcons_scheme) kop" where
  "link_into ip dp name =
     kseq (ilock (Some dp)) (
     kbind (get_inode dp i_dev) (\<lambda>d1.
     kbind (get_inode ip id) (\<lambda>x.
     kbind (if d1 \<noteq> i_dev x then kret (- 1) else dirlink dp name (i_inum x)) (\<lambda>r.
     if r < 0 then kseq (iunlockput dp) (link_bad ip) else
     kseq (iunlockput dp) (
     kseq (iput ip) (
     kseq end_op (kret 0)))))))"

definition sys_link :: "(int, 'a kshm_scheme) kop" where
  "sys_link =
     need (argstr 0) (\<lambda>old.
     need (argstr 1) (\<lambda>new.
     kseq begin_op (
     kbind (namei old) (\<lambda>r.
     case r of None \<Rightarrow> kseq end_op (kret (- 1)) | Some ip \<Rightarrow>
     kseq (ilock (Some ip)) (
     kbind (get_inode ip i_type) (\<lambda>ty.
     if ty = T_DIR then kseq (iunlockput ip) (kseq end_op (kret (- 1))) else
     kseq (upd_inode ip (\<lambda>x. x\<lparr>i_nlink := i_nlink x + 1\<rparr>)) (
     kseq (iupdate ip) (
     kseq (iunlock (Some ip)) (
     kbind (nameiparent new) (\<lambda>r.
     case r of None \<Rightarrow> link_bad ip | Some (dp, name) \<Rightarrow> link_into ip dp name))))))))))"

definition sys_unlink :: "(int, 'a kshm_scheme) kop" where
  "sys_unlink = need (argstr 0) kunlink"

text \<open>The inode that \<open>open\<close> works on, locked, or \<open>None\<close> after the error exits.\<close>

definition open_inode :: "uint8 list \<Rightarrow> uint32 \<Rightarrow> (nat option, 'a kcons_scheme) kop" where
  "open_inode path omode =
     (if omode AND 0x200 \<noteq> 0 then create path T_FILE 0 0
      else kbind (namei path) (\<lambda>r.
        case r of None \<Rightarrow> kret None | Some ip \<Rightarrow>
        kseq (ilock (Some ip)) (
        kbind (get_inode ip i_type) (\<lambda>ty.
        if ty = T_DIR \<and> omode \<noteq> 0 then kseq (iunlockput ip) (kret None) else kret (Some ip)))))"

definition sys_open :: "(int, 'a kshm_scheme) kop" where
  "sys_open =
     need (argstr 0) (\<lambda>path.
     need (argint 1) (\<lambda>omode.
     kseq begin_op (
     kbind (open_inode path omode) (\<lambda>r.
     case r of None \<Rightarrow> kseq end_op (kret (- 1)) | Some ip \<Rightarrow>
     kbind filealloc (\<lambda>fo.
     kbind (case fo of None \<Rightarrow> kret None | Some f \<Rightarrow> fdalloc f) (\<lambda>fdo.
     case fdo of
       None \<Rightarrow>
         kseq (case fo of None \<Rightarrow> kret () | Some f \<Rightarrow> fileclose f) (
         kseq (iunlockput ip) (
         kseq end_op (kret (- 1))))
     | Some fd \<Rightarrow>
         deref fo (\<lambda>f.
         kseq (iunlock (Some ip)) (
         kseq end_op (
         kseq (upd_file f (\<lambda>x. x\<lparr>f_type := FD_INODE, f_ip := Some ip, f_off := 0,
             f_readable := (if omode AND 1 = 0 then 1 else 0),
             f_writable := (if omode AND 1 \<noteq> 0 \<or> omode AND 2 \<noteq> 0 then 1 else 0)\<rparr>)) (
         kret (int fd)))))))))))"

definition sys_mkdir :: "(int, 'a kshm_scheme) kop" where
  "sys_mkdir =
     kseq begin_op (
     kbind (argstr 0) (\<lambda>a.
     kbind (case a of None \<Rightarrow> kret None | Some path \<Rightarrow> create path T_DIR 0 0) (\<lambda>r.
     case r of
       None \<Rightarrow> kseq end_op (kret (- 1))
     | Some ip \<Rightarrow> kseq (iunlockput ip) (kseq end_op (kret 0)))))"

definition sys_mknod :: "(int, 'a kshm_scheme) kop" where
  "sys_mknod =
     kseq begin_op (
     kbind (argstr 0) (\<lambda>a.
     kbind (case a of None \<Rightarrow> kret None | Some path \<Rightarrow>
       kbind (argint 1) (\<lambda>mj. case mj of None \<Rightarrow> kret None | Some major \<Rightarrow>
       kbind (argint 2) (\<lambda>mn. case mn of None \<Rightarrow> kret None | Some minor \<Rightarrow>
       create path T_DEV (ucast major) (ucast minor)))) (\<lambda>r.
     case r of
       None \<Rightarrow> kseq end_op (kret (- 1))
     | Some ip \<Rightarrow> kseq (iunlockput ip) (kseq end_op (kret 0)))))"

definition sys_chdir :: "(int, 'a kshm_scheme) kop" where
  "sys_chdir =
     with_proc (\<lambda>p.
     kseq begin_op (
     kbind (argstr 0) (\<lambda>a.
     kbind (case a of None \<Rightarrow> kret None | Some path \<Rightarrow> namei path) (\<lambda>r.
     case r of
       None \<Rightarrow> kseq end_op (kret (- 1))
     | Some ip \<Rightarrow>
         kseq (ilock (Some ip)) (
         kbind (get_inode ip i_type) (\<lambda>ty.
         if ty \<noteq> T_DIR then kseq (iunlockput ip) (kseq end_op (kret (- 1))) else
         kseq (iunlock (Some ip)) (
         kbind (get_proc p cwd) (\<lambda>c.
         kseq (deref c iput) (
         kseq end_op (
         kseq (upd_proc p (\<lambda>q. q\<lparr>cwd := Some ip\<rparr>)) (kret 0)))))))))))"

text \<open>The argument vector: at most \<open>MAXARG\<close> words up to a null pointer.\<close>

fun fetch_argv :: "nat \<Rightarrow> uint32 \<Rightarrow> (uint8 list list option, 'a kproc_scheme) kop" where
  "fetch_argv 0 uargv = kret None"
| "fetch_argv (Suc n) uargv =
     kbind (fetchint uargv) (\<lambda>r.
     case r of None \<Rightarrow> kret None | Some uarg \<Rightarrow>
     if uarg = 0 then kret (Some []) else
     kbind (fetchstr uarg) (\<lambda>r.
     case r of None \<Rightarrow> kret None | Some a \<Rightarrow>
     kbind (fetch_argv n (uargv + 4)) (\<lambda>as. kret (map_option (Cons a) as))))"

definition sys_exec :: "(int, 'a kshm_scheme) kop" where
  "sys_exec =
     need (argstr 0) (\<lambda>path.
     need (argint 1) (\<lambda>uargv.
     need (fetch_argv MAXARG uargv) (\<lambda>argv. exec path argv)))"

definition sys_pipe :: "(int, 'a kshm_scheme) kop" where
  "sys_pipe =
     need (argptr 0 8) (\<lambda>fd.
     need pipealloc (\<lambda>(r0, w0).
     kbind (fdalloc r0) (\<lambda>a.
     kbind (case a of None \<Rightarrow> kret None | Some _ \<Rightarrow> fdalloc w0) (\<lambda>b.
     case b of
       None \<Rightarrow>
         kseq (case a of None \<Rightarrow> kret () | Some fd0 \<Rightarrow>
             with_proc (\<lambda>p. upd_proc p (\<lambda>q. q\<lparr>ofile := (ofile q)[fd0 := None]\<rparr>))) (
         kseq (fileclose r0) (
         kseq (fileclose w0) (kret (- 1))))
     | Some fd1 \<Rightarrow>
         deref a (\<lambda>fd0.
         kseq (kstore32 fd (of_nat fd0)) (
         kseq (kstore32 (fd + 4) (of_nat fd1)) (kret 0)))))))"

section \<open>Dispatch\<close>

definition syscalls :: "(int, 'a kshm_scheme) kop option list" where
  "syscalls = [None, Some sys_fork, Some sys_exit, Some sys_wait, Some sys_pipe, Some sys_read, Some sys_kill,
     Some sys_exec, Some sys_fstat, Some sys_chdir, Some sys_dup, Some sys_getpid, Some sys_sbrk, Some sys_sleep,
     Some sys_uptime, Some sys_open, Some sys_write, Some sys_mknod, Some sys_unlink, Some sys_link, Some sys_mkdir,
     Some sys_close, Some sys_fpgn, Some sys_make_shrmem, Some sys_remove_shrmem, Some sys_read_shrmem,
     Some sys_write_shrmem]"

definition syscall :: "(unit, 'a kshm_scheme) kop" where
  "syscall =
     with_proc (\<lambda>p.
     kbind (get_proc p tf) (\<lambda>t.
     kbind (ld32 (t + tf_eax)) (\<lambda>v.
     let num = sint v;
         f = (if num > 0 \<and> num < int (length (syscalls :: (int, 'a kshm_scheme) kop option list)) then syscalls ! nat num else None) in
     case f of
       Some g \<Rightarrow> kbind g (\<lambda>r. kbind (get_proc p tf) (\<lambda>t. st32 (t + tf_eax) (of_int r)))
     | None \<Rightarrow> st32 (t + tf_eax) (- 1))))"

end
