(* ===== verification/BufList.thy ===== *)
theory BufList
  imports Bio
begin

text \<open>
  The list of recently used buffers of bio.c: the ring through \<open>b_next\<close> and \<open>b_prev\<close> represents a list
  of buffers, the scans of \<open>bget\<close> search it and \<open>brelse\<close> moves a buffer to its front.
\<close>

section \<open>The list of buffers\<close>

text \<open>\<open>links c ys\<close>: consecutive elements of \<open>ys\<close> point to each other. \<open>lru c xs\<close>: the ring through the list
  head visits \<open>xs\<close>, most recently used first.\<close>

fun links :: "buf list \<Rightarrow> nat list \<Rightarrow> bool" where
  "links c (a # b # ys) \<longleftrightarrow> b_next (c ! a) = b \<and> b_prev (c ! b) = a \<and> links c (b # ys)"
| "links c _ \<longleftrightarrow> True"

definition lru :: "buf list \<Rightarrow> nat list \<Rightarrow> bool" where
  "lru c xs \<longleftrightarrow> length c = Suc NBUF \<and> distinct xs \<and> set xs = {..<NBUF} \<and> links c (NBUF # xs @ [NBUF])"

lemma links_append: "links c (xs @ a # ys) \<longleftrightarrow> links c (xs @ [a]) \<and> links c (a # ys)"
proof (induction xs)
  case Nil
  then show ?case by (cases ys) auto
next
  case (Cons x xs)
  then show ?case by (cases xs) auto
qed

lemma links_cong:
  assumes "\<And>a. a \<in> set (butlast ys) \<Longrightarrow> b_next (c' ! a) = b_next (c ! a)"
    "\<And>a. a \<in> set (tl ys) \<Longrightarrow> b_prev (c' ! a) = b_prev (c ! a)"
  shows "links c' ys = links c ys"
  using assms
proof (induction ys rule: links.induct [of _ c])
  case (1 c a b ys)
  have "links c' (b # ys) = links c (b # ys)"
    by (rule 1(1)) (use 1(2,3) in \<open>auto dest: in_set_butlastD list.set_sel(2)\<close>)
  then show ?case using 1(2,3) by (auto split: if_splits)
qed auto

text \<open>The scans of \<open>bget\<close> are searches in this list.\<close>

lemma scan_next:
  assumes "links (bcache s) (a # xs @ [NBUF])" "NBUF \<notin> set xs" "length xs < n"
  shows "scan_bufs n b_next P (b_next (bcache s ! a)) s = Done (find (\<lambda>b. P (bcache s ! b)) xs) s"
  using assms
proof (induction xs arbitrary: a n)
  case Nil
  then show ?case by (cases n) auto
next
  case (Cons x xs)
  obtain k where "n = Suc k" using Cons.prems(3) by (cases n) auto
  then show ?case using Cons.IH [of x k] Cons.prems by (simp add: kmonad get_buf_def)
qed

lemma scan_prev:
  assumes "links (bcache s) (NBUF # rev xs @ [a])" "NBUF \<notin> set xs" "length xs < n"
  shows "scan_bufs n b_prev P (b_prev (bcache s ! a)) s = Done (find (\<lambda>b. P (bcache s ! b)) xs) s"
  using assms
proof (induction xs arbitrary: a n)
  case Nil
  then show ?case by (cases n) auto
next
  case (Cons x xs)
  obtain k where n: "n = Suc k" using Cons.prems(3) by (cases n) auto
  have "links (bcache s) (NBUF # rev xs @ [x])" "b_prev (bcache s ! a) = x"
    using Cons.prems(1) links_append [of "bcache s" "NBUF # rev xs" x "[a]"] by simp_all
  then show ?case using Cons.IH [of x k] Cons.prems n by (simp add: kmonad get_buf_def)
qed

lemma lru_scans:
  assumes "lru (bcache s) xs"
  shows "scan_bufs (Suc NBUF) b_next P (b_next (bcache s ! NBUF)) s = Done (find (\<lambda>b. P (bcache s ! b)) xs) s"
    "scan_bufs (Suc NBUF) b_prev P (b_prev (bcache s ! NBUF)) s = Done (find (\<lambda>b. P (bcache s ! b)) (rev xs)) s"
proof -
  have len: "length xs = NBUF" using assms distinct_card [of xs] by (simp add: lru_def)
  then show "scan_bufs (Suc NBUF) b_next P (b_next (bcache s ! NBUF)) s = Done (find (\<lambda>b. P (bcache s ! b)) xs) s"
    by (intro scan_next) (use assms in \<open>auto simp: lru_def\<close>)
  show "scan_bufs (Suc NBUF) b_prev P (b_prev (bcache s ! NBUF)) s = Done (find (\<lambda>b. P (bcache s ! b)) (rev xs)) s"
    by (intro scan_prev) (use assms len in \<open>auto simp: lru_def\<close>)
qed

section \<open>Moving a buffer to the front\<close>

definition payload :: "buf \<Rightarrow> uint32 \<times> uint32 \<times> uint32 \<times> uint32 \<times> uint8 list" where
  "payload x = (b_flags x, b_dev x, b_blockno x, b_refcnt x, b_data x)"

lemma payload_fields:
  "payload x = payload y \<longleftrightarrow> b_flags x = b_flags y \<and> b_dev x = b_dev y \<and> b_blockno x = b_blockno y
     \<and> b_refcnt x = b_refcnt y \<and> b_data x = b_data y"
  by (simp add: payload_def)

definition unlinked :: "nat \<Rightarrow> buf list \<Rightarrow> buf list" where
  "unlinked b c = (let nx = b_next (c ! b); pv = b_prev (c ! b); c1 = c[nx := (c ! nx)\<lparr>b_prev := pv\<rparr>] in
     c1[pv := (c1 ! pv)\<lparr>b_next := nx\<rparr>])"

definition pushed :: "nat \<Rightarrow> buf list \<Rightarrow> buf list" where
  "pushed b c = (let nx = b_next (c ! NBUF); c1 = c[b := (c ! b)\<lparr>b_next := nx\<rparr>]; c2 = c1[b := (c1 ! b)\<lparr>b_prev := NBUF\<rparr>];
     c3 = c2[nx := (c2 ! nx)\<lparr>b_prev := b\<rparr>] in c3[NBUF := (c3 ! NBUF)\<lparr>b_next := b\<rparr>])"

lemma lru_unlink_run: "lru_unlink b s = Done () (s\<lparr>bcache := unlinked b (bcache s)\<rparr>)"
  by (simp add: lru_unlink_def unlinked_def kmonad get_buf_def upd_buf_def Let_def)

lemma lru_push_run: "lru_push b s = Done () (s\<lparr>bcache := pushed b (bcache s)\<rparr>)"
  by (simp add: lru_push_def pushed_def kmonad get_buf_def upd_buf_def Let_def)

lemma unlinked_links:
  assumes "links c (ls @ [pv, b] @ nx # rs)" "pv \<notin> set ls" "nx \<notin> set rs" "nx \<notin> set (tl (ls @ [pv]))" "pv \<notin> set (butlast (nx # rs))"
    "nx < length c" "pv < length c"
  shows "links (unlinked b c) (ls @ [pv] @ nx # rs)"
proof -
  have l: "links c (ls @ [pv])" "links c (nx # rs)" "b_next (c ! b) = nx" "b_prev (c ! b) = pv"
    using assms(1) links_append [of c ls pv "b # nx # rs"] by (cases ls; simp)+
  have n: "b_next (unlinked b c ! a) = (if a = pv then nx else b_next (c ! a))"
    and p: "b_prev (unlinked b c ! a) = (if a = nx then pv else b_prev (c ! a))" for a
    using assms(6,7) l(3,4) by (auto simp: unlinked_def Let_def nth_list_update)
  have "links (unlinked b c) (ls @ [pv]) = links c (ls @ [pv])"
    by (rule links_cong) (use assms n p in auto)
  moreover have "links (unlinked b c) (nx # rs) = links c (nx # rs)"
    by (rule links_cong) (use assms n p in auto)
  ultimately show ?thesis using l n p links_append [of "unlinked b c" ls pv "nx # rs"] by simp
qed

lemma pushed_links:
  assumes "links c (NBUF # nx # rs)" "b \<notin> set (nx # rs)" "NBUF \<notin> set (butlast (nx # rs))" "nx \<notin> set rs" "b \<noteq> NBUF"
    "nx < length c" "b < length c" "NBUF < length c"
  shows "links (pushed b c) (NBUF # b # nx # rs)"
proof -
  have nx: "b_next (c ! NBUF) = nx" using assms(1) by simp
  have n: "b_next (pushed b c ! a) = (if a = NBUF then b else if a = b then nx else b_next (c ! a))"
    and p: "b_prev (pushed b c ! a) = (if a = nx then b else if a = b then NBUF else b_prev (c ! a))" for a
    using assms(2,5-8) nx by (auto simp: pushed_def Let_def nth_list_update)
  have "links (pushed b c) (nx # rs) = links c (nx # rs)"
    by (rule links_cong) (use assms n p in \<open>auto dest: in_set_butlastD split: if_splits\<close>)
  then show ?thesis using assms n p by auto
qed

lemma payload_upd: "payload x = payload (c ! j) \<Longrightarrow> payload (c[j := x] ! i) = payload (c ! i)"
  by (cases "j < length c"; cases "i = j") (simp_all add: list_update_beyond)

lemma payload_ptr [simp]: "payload (x\<lparr>b_prev := a\<rparr>) = payload x" "payload (x\<lparr>b_next := a\<rparr>) = payload x"
  by (simp_all add: payload_def)

lemma payload_moved [simp]:
  "payload (unlinked b c ! i) = payload (c ! i)" "payload (pushed b c ! i) = payload (c ! i)"
  by (simp_all add: unlinked_def pushed_def Let_def payload_upd)

lemma length_moved [simp]: "length (unlinked b c) = length c" "length (pushed b c) = length c"
  by (simp_all add: unlinked_def pushed_def Let_def)

lemma lru_to_front:
  assumes "lru c xs" "b < NBUF"
  shows "lru (pushed b (unlinked b c)) (b # remove1 b xs)"
proof -
  obtain us vs where xs: "xs = us @ b # vs" "b \<notin> set us"
    using assms split_list_first [of b xs] by (auto simp: lru_def)
  have d: "distinct (us @ b # vs)" "set (us @ b # vs) = {..<NBUF}" "length c = Suc NBUF" using assms xs by (auto simp: lru_def)
  then have nb: "NBUF \<notin> set (us @ b # vs)" by simp
  obtain ls pv where ls: "NBUF # us = ls @ [pv]" by (metis rev_exhaust list.distinct(1))
  obtain nx rs where rs: "vs @ [NBUF] = nx # rs" by (cases vs) auto
  have e: "NBUF # xs @ [NBUF] = ls @ [pv, b] @ nx # rs"
    using ls rs xs(1) by (metis append.assoc append_Cons append_Nil)
  have "distinct (ls @ [pv])" "distinct (nx # rs)" using d(1) nb unfolding ls [symmetric] rs [symmetric] by auto
  then have dd: "pv \<notin> set ls" "nx \<notin> set rs" by auto
  have us: "us = tl (ls @ [pv])" and vs: "vs = butlast (nx # rs)" by (simp_all only: ls [symmetric] rs [symmetric] list.sel butlast_snoc)
  have s1: "set (ls @ [pv]) = insert NBUF (set us)" unfolding ls [symmetric] by simp
  have s2: "set (nx # rs) = insert NBUF (set vs)" unfolding rs [symmetric] by simp
  have mem: "pv \<in> insert NBUF (set us)" "nx \<in> insert NBUF (set vs)"
    unfolding s1 [symmetric] s2 [symmetric] by simp_all
  have "set us \<union> set vs \<subseteq> {..<NBUF}" unfolding d(2) [symmetric] by auto
  then have "pv \<le> NBUF" "nx \<le> NBUF" using mem by (blast intro: less_imp_le)+
  then have bd: "nx < length c" "pv < length c" using d(3) by simp_all
  have "links (unlinked b c) (ls @ [pv] @ nx # rs)"
  proof (rule unlinked_links)
    show "links c (ls @ [pv, b] @ nx # rs)" using assms(1) e unfolding lru_def by metis
    show "nx \<notin> set (tl (ls @ [pv]))" "pv \<notin> set (butlast (nx # rs))"
      unfolding us [symmetric] vs [symmetric] using mem d(1) nb by auto
  qed (use dd bd in auto)
  then have u: "links (unlinked b c) (NBUF # us @ vs @ [NBUF])" using ls rs by (metis append.assoc append_Cons)
  obtain ny ws where ny: "us @ vs @ [NBUF] = ny # ws" by (cases us; cases vs) auto
  have "distinct (ny # ws)" unfolding ny [symmetric] using d(1) nb by auto
  moreover have "butlast (ny # ws) = us @ vs" by (simp add: ny [symmetric] butlast_append)
  moreover have st: "set (ny # ws) = insert NBUF (set us \<union> set vs)" by (simp add: ny [symmetric])
  ultimately have "links (pushed b (unlinked b c)) (NBUF # b # ny # ws)"
  proof (intro pushed_links)
    have "ny \<in> set (ny # ws)" by simp
    then show "ny < length (unlinked b c)" unfolding st using \<open>set us \<union> set vs \<subseteq> {..<NBUF}\<close> d(3) by auto
  qed (use u ny d(1,3) nb assms(2) in auto)
  moreover have "remove1 b xs = us @ vs" using xs by (simp add: remove1_append)
  moreover have "set (b # us @ vs) = set (us @ b # vs)" by auto
  ultimately show ?thesis using d ny unfolding lru_def by simp
qed

end
