(* ===== verification/BufCache.thy ===== *)
theory BufCache
  imports BufList
begin

text \<open>
  The invariant of the buffer cache and what \<open>bget\<close>, \<open>bread\<close>, \<open>bwrite\<close> and \<open>brelse\<close> do in states that satisfy
  it: \<open>block s n\<close> is the contents of block \<open>n\<close> as the kernel sees it, in the cache or on the disk.
\<close>

section \<open>The invariant of the cache\<close>

abbreviation "b_valid x \<equiv> b_flags x AND B_VALID \<noteq> 0"
abbreviation "b_dirty x \<equiv> b_flags x AND B_DIRTY \<noteq> 0"

text \<open>A buffer with valid data belongs to a block of disk 1; unless it is in use or waits for its
  transaction, its data are those of the disk. A buffer in use is referenced.\<close>

definition buf_ok :: "uint8 list list \<Rightarrow> bool \<Rightarrow> buf \<Rightarrow> bool" where
  "buf_ok d lk x \<longleftrightarrow> (b_dirty x \<longrightarrow> b_valid x)
     \<and> (b_valid x \<longrightarrow> b_dev x = 1 \<and> unat (b_blockno x) < length d \<and> length (b_data x) = BSIZE)
     \<and> (b_valid x \<and> \<not> b_dirty x \<and> \<not> lk \<longrightarrow> b_data x = d ! unat (b_blockno x))
     \<and> (lk \<longrightarrow> b_refcnt x \<noteq> 0)"

definition one_buf :: "buf list \<Rightarrow> bool" where
  "one_buf c \<longleftrightarrow> (\<forall>i < NBUF. \<forall>j < NBUF. b_dev (c ! i) \<noteq> 0 \<and> b_dev (c ! i) = b_dev (c ! j)
     \<and> b_blockno (c ! i) = b_blockno (c ! j) \<longrightarrow> i = j)"

definition in_use :: "'a kproc_scheme \<Rightarrow> nat \<Rightarrow> bool" where
  "in_use s b \<longleftrightarrow> slk_locked (sleeplocks s (S_buf b)) \<noteq> 0"

definition bcache_inv :: "'a kbuf_scheme \<Rightarrow> bool" where
  "bcache_inv s \<longleftrightarrow> (\<exists>xs. lru (bcache s) xs) \<and> length (memdisk s) = unat (disksize s)
     \<and> (\<forall>bs \<in> set (memdisk s). length bs = BSIZE)
     \<and> (\<forall>i < NBUF. buf_ok (memdisk s) (in_use s i) (bcache s ! i)) \<and> one_buf (bcache s)"

text \<open>The buffer that holds a block, and the contents of a block as the kernel sees it.\<close>

definition holder :: "buf list \<Rightarrow> uint32 \<Rightarrow> nat option" where
  "holder c n = find (\<lambda>i. b_dev (c ! i) = 1 \<and> b_blockno (c ! i) = n) [0..<NBUF]"

definition block :: "'a kbuf_scheme \<Rightarrow> uint32 \<Rightarrow> uint8 list" where
  "block s n = (case holder (bcache s) n of
      Some b \<Rightarrow> if b_valid (bcache s ! b) then b_data (bcache s ! b) else memdisk s ! unat n
    | None \<Rightarrow> memdisk s ! unat n)"

lemma find_unique:
  assumes "P b" "b \<in> set xs" "\<And>a. a \<in> set xs \<Longrightarrow> P a \<Longrightarrow> a = b" shows "find P xs = Some b"
  using assms(2,3)
proof (induction xs)
  case (Cons x xs)
  show ?case
  proof (cases "P x")
    case True
    then show ?thesis using Cons.prems(2) [of x] by simp
  next
    case False
    then have "b \<in> set xs" using Cons.prems(1) assms(1) by auto
    moreover have "find P xs = Some b"
      by (rule Cons.IH [OF calculation]) (rule Cons.prems(2), auto)
    ultimately show ?thesis using False by simp
  qed
qed simp

lemma find_set_cong:
  assumes "\<And>a b. a \<in> set xs \<Longrightarrow> b \<in> set xs \<Longrightarrow> P a \<Longrightarrow> P b \<Longrightarrow> a = b" "set xs = set ys"
  shows "find P xs = find P ys"
proof (cases "\<exists>b \<in> set xs. P b")
  case True
  then obtain b where "b \<in> set xs" "P b" by blast
  then show ?thesis using assms find_unique [of P b] by metis
next
  case False
  then have "find P xs = None" "find P ys = None" using assms(2) by (auto simp: find_None_iff)
  then show ?thesis by simp
qed

lemma holder_Some:
  assumes "one_buf c"
  shows "holder c n = Some b \<longleftrightarrow> b < NBUF \<and> b_dev (c ! b) = 1 \<and> b_blockno (c ! b) = n"
proof
  assume "holder c n = Some b"
  then show "b < NBUF \<and> b_dev (c ! b) = 1 \<and> b_blockno (c ! b) = n"
    by (auto simp: holder_def find_Some_iff)
next
  assume b: "b < NBUF \<and> b_dev (c ! b) = 1 \<and> b_blockno (c ! b) = n"
  show "holder c n = Some b" unfolding holder_def
    by (rule find_unique) (use assms b in \<open>auto simp: one_buf_def\<close>)
qed

lemma holder_None: "holder c n = None \<longleftrightarrow> (\<forall>b < NBUF. \<not> (b_dev (c ! b) = 1 \<and> b_blockno (c ! b) = n))"
  by (auto simp: holder_def find_None_iff)

lemma scan_holder:
  assumes "lru (bcache s) xs" "one_buf (bcache s)"
  shows "scan_bufs (Suc NBUF) b_next (\<lambda>x. b_dev x = 1 \<and> b_blockno x = n) (b_next (bcache s ! NBUF)) s
     = Done (holder (bcache s) n) s"
proof -
  have "find (\<lambda>b. b_dev (bcache s ! b) = 1 \<and> b_blockno (bcache s ! b) = n) xs = holder (bcache s) n"
    unfolding holder_def by (rule find_set_cong) (use assms in \<open>auto simp: lru_def one_buf_def\<close>)
  then show ?thesis using lru_scans(1) [OF assms(1)] by simp
qed

lemma block_eqI:
  assumes "one_buf (bcache s)"
  shows "(\<exists>b < NBUF. b_dev (bcache s ! b) = 1 \<and> b_blockno (bcache s ! b) = n \<and> b_valid (bcache s ! b) \<and> b_data (bcache s ! b) = bs)
      \<or> (\<forall>b < NBUF. b_dev (bcache s ! b) = 1 \<and> b_blockno (bcache s ! b) = n \<longrightarrow> \<not> b_valid (bcache s ! b)) \<and> memdisk s ! unat n = bs
    \<longleftrightarrow> block s n = bs"
proof (cases "holder (bcache s) n")
  case None
  then show ?thesis using None [unfolded holder_None] by (auto simp: block_def)
next
  case (Some b)
  note b = Some [unfolded holder_Some [OF assms]]
  have "j = b" if "j < NBUF" "b_dev (bcache s ! j) = 1" "b_blockno (bcache s ! j) = n" for j
    using that b assms by (auto simp: one_buf_def)
  then show ?thesis using Some b by (auto simp: block_def)
qed

section \<open>Running the operations\<close>

definition calm :: "nat \<Rightarrow> 'a machine_scheme \<Rightarrow> bool" where
  "calm p s \<longleftrightarrow> (\<forall>l. lock_ok l s) \<and> cur s = Some p"

lemma lock_ok_kbuf [simp]:
  "lock_ok l (s\<lparr>bcache := c\<rparr>) = lock_ok l s" "lock_ok l (s\<lparr>memdisk := d\<rparr>) = lock_ok l s"
  "lock_ok l (s\<lparr>disk_writes := w\<rparr>) = lock_ok l s"
  by (simp_all add: lock_ok_def cpu_ok_def lock_free_def this_cpu_def)

lemma cur_kbuf [simp]:
  "cur (s\<lparr>bcache := c\<rparr>) = cur s" "cur (s\<lparr>memdisk := d\<rparr>) = cur s" "cur (s\<lparr>disk_writes := w\<rparr>) = cur s"
  "cur (s\<lparr>ptable := q\<rparr>) = cur s" "cur (s\<lparr>sleeplocks := k\<rparr>) = cur s"
  by (simp_all add: cur_def this_cpu_def)

lemma calm_kbuf [simp]:
  "calm p (s\<lparr>bcache := c\<rparr>) = calm p s" "calm p (s\<lparr>memdisk := d\<rparr>) = calm p s" "calm p (s\<lparr>disk_writes := w\<rparr>) = calm p s"
  "calm p (s\<lparr>ptable := q\<rparr>) = calm p s" "calm p (s\<lparr>sleeplocks := k\<rparr>) = calm p s"
  by (simp_all add: calm_def)

lemma calmD: "calm p s \<Longrightarrow> lock_ok l s" "calm p s \<Longrightarrow> cur s = Some p"
  by (simp_all add: calm_def)

lemma release_bcache:
  assumes "lock_ok l s"
  shows "release l ((entered l s)\<lparr>bcache := c\<rparr>) = Done () (s\<lparr>bcache := c\<rparr>)" "release l (entered l s) = Done () s"
  using release_entered [OF assms, of "(entered l s)\<lparr>bcache := c\<rparr>"] release_entered [OF assms, of "entered l s"]
  by (simp_all add: entered_def Let_def)

lemma bcache_entered [simp]: "bcache (entered l s) = bcache s"
  by (simp add: entered_def Let_def)

definition sleeper :: "nat \<Rightarrow> 'a kproc_scheme \<Rightarrow> sleeplock" where
  "sleeper p s = \<lparr>slk_locked = 1, slk_pid = pid (ptable s ! p)\<rparr>"

lemma bget_hit:
  assumes "calm p s" "lru (bcache s) xs" "one_buf (bcache s)" "holder (bcache s) n = Some b" "\<not> in_use s b"
  shows "bget 1 n s = Done b (s\<lparr>bcache := (bcache s)[b := (bcache s ! b)\<lparr>b_refcnt := b_refcnt (bcache s ! b) + 1\<rparr>],
     sleeplocks := (sleeplocks s)(S_buf b := sleeper p s)\<rparr>)"
proof -
  let ?s = "s\<lparr>bcache := (bcache s)[b := (bcache s ! b)\<lparr>b_refcnt := b_refcnt (bcache s ! b) + 1\<rparr>]\<rparr>"
  have "acquiresleep (S_buf b) ?s = Done () (?s\<lparr>sleeplocks := (sleeplocks s)(S_buf b := sleeper p s)\<rparr>)"
    using acquiresleep_free [of "S_buf b" ?s p] assms(1,5) by (simp add: calmD in_use_def sleeper_def)
  then show ?thesis
    using scan_holder [of "entered L_bcache s" xs n] assms(2-4)
    by (simp add: bget_def kmonad acquire_entered [OF calmD(1) [OF assms(1)]] get_buf_def upd_buf_def
        release_bcache [OF calmD(1) [OF assms(1)]])
qed

definition recycled :: "uint32 \<Rightarrow> buf \<Rightarrow> buf" where
  "recycled n x = x\<lparr>b_dev := 1, b_blockno := n, b_flags := 0, b_refcnt := 1\<rparr>"

lemma bget_miss:
  assumes "calm p s" "lru (bcache s) xs" "one_buf (bcache s)" "holder (bcache s) n = None"
    "find (\<lambda>b. b_refcnt (bcache s ! b) = 0 \<and> \<not> b_dirty (bcache s ! b)) (rev xs) = Some b" "\<not> in_use s b"
  shows "bget 1 n s = Done b (s\<lparr>bcache := (bcache s)[b := recycled n (bcache s ! b)],
     sleeplocks := (sleeplocks s)(S_buf b := sleeper p s)\<rparr>)"
proof -
  let ?s = "s\<lparr>bcache := (bcache s)[b := recycled n (bcache s ! b)]\<rparr>"
  have "acquiresleep (S_buf b) ?s = Done () (?s\<lparr>sleeplocks := (sleeplocks s)(S_buf b := sleeper p s)\<rparr>)"
    using acquiresleep_free [of "S_buf b" ?s p] assms(1,6) by (simp add: calmD in_use_def sleeper_def)
  then show ?thesis
    using scan_holder [of "entered L_bcache s" xs n] lru_scans(2) [of "entered L_bcache s" xs] assms(2-5)
    by (simp add: bget_def kmonad acquire_entered [OF calmD(1) [OF assms(1)]] get_buf_def upd_buf_def recycled_def
        release_bcache [OF calmD(1) [OF assms(1)]])
qed

lemma bget_full:
  assumes "calm p s" "lru (bcache s) xs" "one_buf (bcache s)" "holder (bcache s) n = None"
    "\<forall>b < NBUF. b_refcnt (bcache s ! b) \<noteq> 0 \<or> b_dirty (bcache s ! b)"
  shows "bget 1 n s = Panic ''bget: no buffers''"
proof -
  have "find (\<lambda>b. b_refcnt (bcache s ! b) = 0 \<and> \<not> b_dirty (bcache s ! b)) (rev xs) = None"
    using assms(2,5) by (auto simp: find_None_iff lru_def)
  then show ?thesis
    using scan_holder [of "entered L_bcache s" xs n] lru_scans(2) [of "entered L_bcache s" xs] assms(2-4)
    by (simp add: bget_def kmonad acquire_entered [OF calmD(1) [OF assms(1)]] get_buf_def)
qed

section \<open>Reading, writing and releasing a block\<close>

lemma and_exp_eq: "x AND 2 ^ n = (if bit x n then 2 ^ n else 0 :: uint32)"
  by (rule bit_word_eqI) (auto simp: bit_simps)

lemma and_flag: "x AND 2 = (if bit x 1 then 2 else 0 :: uint32)" "x AND 4 = (if bit x 2 then 4 else 0 :: uint32)"
  using and_exp_eq [of x 1] and_exp_eq [of x 2] by simp_all

lemma valid_only: "x AND 6 = (2 :: uint32) \<longleftrightarrow> x AND 2 \<noteq> 0 \<and> x AND 4 = 0"
proof -
  have "x AND 6 = (x AND 2) OR (x AND (4 :: uint32))" using bit.conj_disj_distrib [of x 2 4] by simp
  then show ?thesis by (simp add: and_flag)
qed

lemma bit_flags [simp]:
  "bit (x OR 4 :: uint32) 1 = bit x 1" "bit (x OR 4 :: uint32) 2" "bit (x OR 2 :: uint32) 1" "bit (x OR 2 :: uint32) 2 = bit x 2"
  "bit (x AND - 5 :: uint32) 1 = bit x 1" "\<not> bit (x AND - 5 :: uint32) 2"
  by (simp_all add: bit_or_iff bit_and_iff)

lemmas bit_flags_Suc [simp] = bit_flags [unfolded One_nat_def]

lemma iderw_read:
  assumes "calm p s" "in_use s b" "\<not> b_valid (bcache s ! b)" "\<not> b_dirty (bcache s ! b)" "b_dev (bcache s ! b) = 1"
    "b_blockno (bcache s ! b) < disksize s" "b < length (bcache s)"
  shows "iderw b s = Done () (s\<lparr>bcache := (bcache s)[b := (bcache s ! b)\<lparr>b_data := memdisk s ! unat (b_blockno (bcache s ! b)),
     b_flags := b_flags (bcache s ! b) OR B_VALID\<rparr>]\<rparr>)"
  using assms
  by (simp add: iderw_def kmonad holdingsleep_run [OF calmD(1)] get_buf_def upd_buf_def in_use_def valid_only)

lemma iderw_write:
  assumes "calm p s" "in_use s b" "b_dirty (bcache s ! b)" "b_dev (bcache s ! b) = 1"
    "b_blockno (bcache s ! b) < disksize s" "b < length (bcache s)"
  shows "iderw b s = Done () (s\<lparr>bcache := (bcache s)[b := (bcache s ! b)\<lparr>b_flags := b_flags (bcache s ! b) AND NOT B_DIRTY OR B_VALID\<rparr>],
     memdisk := (memdisk s)[unat (b_blockno (bcache s ! b)) := b_data (bcache s ! b)],
     disk_writes := disk_writes s @ [(unat (b_blockno (bcache s ! b)), b_data (bcache s ! b))]\<rparr>)"
  using assms
  by (simp add: iderw_def kmonad holdingsleep_run [OF calmD(1)] get_buf_def upd_buf_def in_use_def valid_only disk_write_def)

lemma one_buf_update:
  assumes "one_buf c" "length c = Suc NBUF" "b < NBUF"
    "b_dev x \<noteq> 0 \<Longrightarrow> \<forall>j < NBUF. j \<noteq> b \<longrightarrow> \<not> (b_dev (c ! j) = b_dev x \<and> b_blockno (c ! j) = b_blockno x)"
  shows "one_buf (c[b := x])"
  using assms(1,3,4) unfolding one_buf_def by (auto simp: nth_list_update assms(2))

lemma one_buf_same:
  assumes "one_buf c" "b_dev x = b_dev (c ! b)" "b_blockno x = b_blockno (c ! b)"
  shows "one_buf (c[b := x])"
proof -
  have "b_dev (c[b := x] ! j) = b_dev (c ! j) \<and> b_blockno (c[b := x] ! j) = b_blockno (c ! j)" for j
    using assms(2,3) by (cases "b < length c"; cases "j = b") (simp_all add: list_update_beyond)
  then show ?thesis using assms(1) by (simp add: one_buf_def)
qed

lemma lru_update:
  assumes "lru c xs" "b_next x = b_next (c ! b)" "b_prev x = b_prev (c ! b)"
  shows "lru (c[b := x]) xs"
proof -
  have "links (c[b := x]) ys = links c ys" for ys
    by (rule links_cong) (cases "b < length c"; use assms in \<open>auto simp: nth_list_update list_update_beyond\<close>)+
  then show ?thesis using assms(1) by (simp add: lru_def)
qed

lemma bcache_invD:
  assumes "bcache_inv s"
  shows "\<exists>xs. lru (bcache s) xs" "length (bcache s) = Suc NBUF" "length (memdisk s) = unat (disksize s)"
    "n < disksize s \<Longrightarrow> length (memdisk s ! unat n) = BSIZE"
    "i < NBUF \<Longrightarrow> buf_ok (memdisk s) (in_use s i) (bcache s ! i)" "one_buf (bcache s)"
  using assms by (auto simp: bcache_inv_def lru_def word_less_nat_alt)

text \<open>A change of one buffer.\<close>

lemma bcache_inv_buf:
  assumes "bcache_inv s" "b < NBUF" "b_next x = b_next (bcache s ! b)" "b_prev x = b_prev (bcache s ! b)"
    "buf_ok (memdisk s) (k \<noteq> 0) x"
    "b_dev x \<noteq> 0 \<Longrightarrow> \<forall>j < NBUF. j \<noteq> b \<longrightarrow> \<not> (b_dev (bcache s ! j) = b_dev x \<and> b_blockno (bcache s ! j) = b_blockno x)"
  shows "bcache_inv (s\<lparr>bcache := (bcache s)[b := x], sleeplocks := (sleeplocks s)(S_buf b := \<lparr>slk_locked = k, slk_pid = q\<rparr>)\<rparr>)"
proof -
  obtain xs where "lru (bcache s) xs" using bcache_invD(1) [OF assms(1)] by blast
  then have "\<exists>xs. lru ((bcache s)[b := x]) xs" using lru_update assms(3,4) by blast
  moreover have "one_buf ((bcache s)[b := x])"
    using one_buf_update [OF bcache_invD(6,2) [OF assms(1)] assms(2,6)] by blast
  ultimately show ?thesis
    using assms(1,2,5) bcache_invD(2) [OF assms(1)] by (auto simp: bcache_inv_def in_use_def nth_list_update)
qed

lemma holder_update:
  assumes "one_buf c" "one_buf (c[b := x])" "length c = Suc NBUF" "b < NBUF" "b_dev x = 1" "b_blockno x = n"
  shows "holder (c[b := x]) m = (if m = n then Some b else if holder c m = Some b then None else holder c m)"
proof (cases "m = n")
  case True
  then show ?thesis using assms by (simp add: holder_Some)
next
  case False
  show ?thesis
  proof (cases "holder c m")
    case None
    then have "holder (c[b := x]) m = None" using False assms by (auto simp: holder_None nth_list_update)
    then show ?thesis using None False by simp
  next
    case (Some j)
    note j = Some [unfolded holder_Some [OF assms(1)]]
    show ?thesis
    proof (cases "j = b")
      case True
      have "\<not> (b_dev (c ! i) = 1 \<and> b_blockno (c ! i) = m)" if "i < NBUF" "i \<noteq> b" for i
        using holder_Some [OF assms(1), of m i] Some that True by auto
      then have "holder (c[b := x]) m = None" using False assms by (auto simp: holder_None nth_list_update)
      then show ?thesis using Some True False by simp
    next
      case False
      then have "holder (c[b := x]) m = Some j" using j assms by (simp add: holder_Some nth_list_update)
      then show ?thesis using Some False \<open>m \<noteq> n\<close> by simp
    qed
  qed
qed

text \<open>Giving a buffer to block \<open>n\<close> changes what the kernel sees of block \<open>n\<close> at most.\<close>

lemma block_update:
  assumes "bcache_inv s" "one_buf ((bcache s)[b := x])" "b < NBUF" "b_dev x = 1" "b_blockno x = n" "b_valid x"
    "b_dev (bcache s ! b) = 1 \<and> b_blockno (bcache s ! b) = n \<or> \<not> in_use s b \<and> \<not> b_dirty (bcache s ! b)"
  shows "block (s\<lparr>bcache := (bcache s)[b := x], sleeplocks := k\<rparr>) m = (if m = n then b_data x else block s m)"
proof -
  note inv = bcache_invD [OF assms(1)]
  note h = holder_update [OF inv(6) assms(2) inv(2) assms(3-5)]
  show ?thesis
  proof (cases "holder (bcache s) m")
    case None
    then show ?thesis using assms(3,6) inv(2) by (simp add: block_def h)
  next
    case (Some j)
    note j = Some [unfolded holder_Some [OF inv(6)]]
    show ?thesis
    proof (cases "j = b")
      case True
      then have "b_valid (bcache s ! b) \<Longrightarrow> m \<noteq> n \<Longrightarrow> b_data (bcache s ! b) = memdisk s ! unat m"
        using j assms(7) inv(5) [OF assms(3)] by (auto simp: buf_ok_def)
      then show ?thesis using Some True assms(3,6) inv(2) by (auto simp: block_def h)
    next
      case False
      then show ?thesis using Some j assms(3,6) inv(2) by (auto simp: block_def h nth_list_update)
    qed
  qed
qed

text \<open>What \<open>bread\<close> does to the buffer \<open>x\<close> it returns.\<close>

definition bread_buf :: "'a kbuf_scheme \<Rightarrow> uint32 \<Rightarrow> buf \<Rightarrow> buf \<Rightarrow> bool" where
  "bread_buf s n x y \<longleftrightarrow> b_dev y = 1 \<and> b_blockno y = n \<and> b_valid y \<and> b_data y = block s n
     \<and> b_next y = b_next x \<and> b_prev y = b_prev x \<and> b_refcnt y = b_refcnt x + 1 \<and> (b_dirty y \<longleftrightarrow> b_dirty x)
     \<and> (b_dirty x \<longrightarrow> b_dev x = 1 \<and> b_blockno x = n)"

lemma bread_hit:
  assumes "bcache_inv s" "calm p s" "n < disksize s" "holder (bcache s) n = Some b" "\<not> in_use s b"
  shows "\<exists>y. bread 1 n s = Done b (s\<lparr>bcache := (bcache s)[b := y], sleeplocks := (sleeplocks s)(S_buf b := sleeper p s)\<rparr>)
     \<and> b < NBUF \<and> bread_buf s n (bcache s ! b) y"
proof -
  obtain xs where xs: "lru (bcache s) xs" using bcache_invD(1) [OF assms(1)] by blast
  note inv = bcache_invD [OF assms(1)]
  note b = assms(4) [unfolded holder_Some [OF inv(6)]]
  let ?y = "(bcache s ! b)\<lparr>b_refcnt := b_refcnt (bcache s ! b) + 1\<rparr>"
  let ?t = "s\<lparr>bcache := (bcache s)[b := ?y], sleeplocks := (sleeplocks s)(S_buf b := sleeper p s)\<rparr>"
  note g = bget_hit [OF assms(2) xs inv(6) assms(4,5)]
  have bl: "b < length (bcache s)" using b inv(2) by simp
  show ?thesis
  proof (cases "b_valid (bcache s ! b)")
    case True
    then have "bread 1 n s = Done b ?t" "block s n = b_data (bcache s ! b)"
      using g bl assms(4) by (simp_all add: bread_def kmonad get_buf_def block_def)
    then show ?thesis using b True by (intro exI [of _ ?y]) (simp add: bread_buf_def)
  next
    case False
    then have d: "\<not> b_dirty (bcache s ! b)" using inv(5) [of b] b by (auto simp: buf_ok_def)
    let ?z = "?y\<lparr>b_data := memdisk s ! unat n, b_flags := b_flags (bcache s ! b) OR B_VALID\<rparr>"
    have "iderw b ?t = Done () (?t\<lparr>bcache := (bcache s)[b := ?z]\<rparr>)"
      using iderw_read [of p ?t b] assms(2,3) False d b bl by (simp add: in_use_def sleeper_def)
    then have "bread 1 n s = Done b (s\<lparr>bcache := (bcache s)[b := ?z], sleeplocks := (sleeplocks s)(S_buf b := sleeper p s)\<rparr>)"
      using g bl False by (simp add: bread_def kmonad get_buf_def)
    moreover have "block s n = memdisk s ! unat n" using False assms(4) by (simp add: block_def)
    ultimately show ?thesis using b d by (intro exI [of _ ?z]) (simp add: bread_buf_def and_flag)
  qed
qed

lemma bread_miss:
  assumes "bcache_inv s" "calm p s" "n < disksize s" "holder (bcache s) n = None"
    "\<exists>b < NBUF. b_refcnt (bcache s ! b) = 0 \<and> \<not> b_dirty (bcache s ! b)"
  shows "\<exists>b y. bread 1 n s = Done b (s\<lparr>bcache := (bcache s)[b := y], sleeplocks := (sleeplocks s)(S_buf b := sleeper p s)\<rparr>)
     \<and> b < NBUF \<and> \<not> in_use s b \<and> \<not> b_dirty (bcache s ! b) \<and> bread_buf s n (bcache s ! b) y"
proof -
  obtain xs where xs: "lru (bcache s) xs" using bcache_invD(1) [OF assms(1)] by blast
  note inv = bcache_invD [OF assms(1)]
  have "find (\<lambda>b. b_refcnt (bcache s ! b) = 0 \<and> \<not> b_dirty (bcache s ! b)) (rev xs) \<noteq> None"
    using assms(5) xs by (auto simp: find_None_iff lru_def)
  then obtain b where b: "find (\<lambda>b. b_refcnt (bcache s ! b) = 0 \<and> \<not> b_dirty (bcache s ! b)) (rev xs) = Some b" by blast
  have c: "b < NBUF" "b_refcnt (bcache s ! b) = 0" "\<not> b_dirty (bcache s ! b)"
    using b [unfolded find_Some_iff] xs [unfolded lru_def] by (metis length_rev nth_mem set_rev lessThan_iff)+
  then have u: "\<not> in_use s b" using inv(5) [of b] by (auto simp: buf_ok_def)
  have bl: "b < length (bcache s)" using c inv(2) by simp
  let ?y = "recycled n (bcache s ! b)"
  let ?z = "?y\<lparr>b_data := memdisk s ! unat n, b_flags := B_VALID\<rparr>"
  let ?t = "s\<lparr>bcache := (bcache s)[b := ?y], sleeplocks := (sleeplocks s)(S_buf b := sleeper p s)\<rparr>"
  note g = bget_miss [OF assms(2) xs inv(6) assms(4) b u]
  have "iderw b ?t = Done () (?t\<lparr>bcache := (bcache s)[b := ?z]\<rparr>)"
    using iderw_read [of p ?t b] assms(2,3) bl by (simp add: in_use_def sleeper_def recycled_def)
  then have "bread 1 n s = Done b (s\<lparr>bcache := (bcache s)[b := ?z], sleeplocks := (sleeplocks s)(S_buf b := sleeper p s)\<rparr>)"
    using g bl by (simp add: bread_def kmonad get_buf_def) (simp add: recycled_def)
  moreover have "block s n = memdisk s ! unat n" using assms(4) by (simp add: block_def)
  ultimately show ?thesis
    using c u by (intro exI [of _ b] exI [of _ ?z]) (simp add: bread_buf_def recycled_def)
qed

definition can_bread :: "'a kbuf_scheme \<Rightarrow> uint32 \<Rightarrow> bool" where
  "can_bread s n \<longleftrightarrow> n < disksize s \<and> (case holder (bcache s) n of Some b \<Rightarrow> \<not> in_use s b
     | None \<Rightarrow> \<exists>b < NBUF. b_refcnt (bcache s ! b) = 0 \<and> \<not> b_dirty (bcache s ! b))"

lemma bread_spec:
  assumes "bcache_inv s" "calm p s" "can_bread s n" "\<And>i. i < NBUF \<Longrightarrow> b_refcnt (bcache s ! i) + 1 \<noteq> 0"
  shows "\<exists>b y t. bread 1 n s = Done b t \<and> t = s\<lparr>bcache := (bcache s)[b := y], sleeplocks := (sleeplocks s)(S_buf b := sleeper p s)\<rparr>
     \<and> b < NBUF \<and> \<not> in_use s b \<and> bread_buf s n (bcache s ! b) y \<and> bcache_inv t \<and> block t = block s"
proof -
  note inv = bcache_invD [OF assms(1)]
  have "\<exists>b y. bread 1 n s = Done b (s\<lparr>bcache := (bcache s)[b := y], sleeplocks := (sleeplocks s)(S_buf b := sleeper p s)\<rparr>)
     \<and> b < NBUF \<and> \<not> in_use s b \<and> bread_buf s n (bcache s ! b) y
     \<and> (holder (bcache s) n = Some b \<or> holder (bcache s) n = None \<and> \<not> b_dirty (bcache s ! b))"
    using bread_hit [OF assms(1,2)] bread_miss [OF assms(1,2)] assms(3) by (fastforce simp: can_bread_def split: option.splits)
  then obtain b y where b: "bread 1 n s = Done b (s\<lparr>bcache := (bcache s)[b := y], sleeplocks := (sleeplocks s)(S_buf b := sleeper p s)\<rparr>)"
    "b < NBUF" "\<not> in_use s b" "bread_buf s n (bcache s ! b) y" "holder (bcache s) n = Some b \<or> holder (bcache s) n = None \<and> \<not> b_dirty (bcache s ! b)"
    by blast
  note y = b(4) [unfolded bread_buf_def]
  have uniq: "\<forall>j < NBUF. j \<noteq> b \<longrightarrow> \<not> (b_dev (bcache s ! j) = b_dev y \<and> b_blockno (bcache s ! j) = b_blockno y)"
    using b(5) y holder_Some [OF inv(6), of n] holder_None [of "bcache s" n] by (metis option.inject)
  have len: "length (block s n) = BSIZE"
    using inv(4,5) holder_Some [OF inv(6), of n] assms(3) by (auto simp: block_def can_bread_def buf_ok_def split: option.splits)
  have "buf_ok (memdisk s) True y"
    using y len assms(3) assms(4) [OF b(2)] inv(3) by (auto simp: buf_ok_def can_bread_def word_less_nat_alt)
  then have "bcache_inv (s\<lparr>bcache := (bcache s)[b := y], sleeplocks := (sleeplocks s)(S_buf b := sleeper p s)\<rparr>)"
    unfolding sleeper_def by (intro bcache_inv_buf [OF assms(1) b(2)]) (use y uniq in auto)
  moreover have "block (s\<lparr>bcache := (bcache s)[b := y], sleeplocks := (sleeplocks s)(S_buf b := sleeper p s)\<rparr>) = block s"
    by (rule ext, subst block_update [OF assms(1) _ b(2)])
      (use y b(3,5) uniq one_buf_update [OF inv(6,2) b(2), of y] holder_Some [OF inv(6), of n] in auto)
  ultimately show ?thesis using b(1-4) by blast
qed

lemma holder_payload:
  assumes "\<And>i. i < NBUF \<Longrightarrow> payload (c' ! i) = payload (c ! i)"
  shows "holder c' n = holder c n"
  unfolding holder_def by (rule find_cong) (use assms in \<open>auto simp: payload_fields\<close>)

lemma block_payload:
  assumes "\<And>i. i < NBUF \<Longrightarrow> payload (bcache t ! i) = payload (bcache s ! i)" "memdisk t = memdisk s"
  shows "block t n = block s n"
proof -
  have "holder (bcache s) n = Some b \<Longrightarrow> payload (bcache t ! b) = payload (bcache s ! b)" for b
    using assms(1) by (auto simp: holder_def find_Some_iff)
  then show ?thesis
    using holder_payload [OF assms(1)] assms(2) by (auto simp: block_def payload_fields split: option.splits)
qed

lemma bcache_inv_payload:
  assumes "bcache_inv s" "\<And>i. i < NBUF \<Longrightarrow> payload (bcache t ! i) = payload (bcache s ! i)" "\<exists>xs. lru (bcache t) xs"
    "memdisk t = memdisk s" "disksize t = disksize s" "\<And>i. i < NBUF \<Longrightarrow> in_use t i = in_use s i"
  shows "bcache_inv t"
proof -
  have "buf_ok d l (bcache t ! i) = buf_ok d l (bcache s ! i)" if "i < NBUF" for d l i
    using assms(2) [OF that] by (auto simp: buf_ok_def payload_fields)
  moreover have "one_buf (bcache t) = one_buf (bcache s)"
    using assms(2) by (simp add: one_buf_def payload_fields cong: imp_cong)
  ultimately show ?thesis using assms(1,3-6) by (simp add: bcache_inv_def)
qed

lemma block_data:
  assumes "bcache_inv s" "b < NBUF" "b_valid (bcache s ! b)"
  shows "block s (b_blockno (bcache s ! b)) = b_data (bcache s ! b)"
proof -
  note inv = bcache_invD [OF assms(1)]
  have "holder (bcache s) (b_blockno (bcache s ! b)) = Some b"
    using assms(2,3) inv(5) [OF assms(2)] by (simp add: holder_Some [OF inv(6)] buf_ok_def)
  then show ?thesis using assms(3) by (simp add: block_def)
qed

lemma sleeplock_eta [simp]: "\<lparr>slk_locked = slk_locked r, slk_pid = slk_pid r\<rparr> = r"
  by (cases r) simp

text \<open>The data of a buffer in use can be changed.\<close>

lemma buf_data_spec:
  assumes "bcache_inv s" "b < NBUF" "in_use s b" "b_valid (bcache s ! b)" "length bs = BSIZE"
  defines "t \<equiv> s\<lparr>bcache := (bcache s)[b := (bcache s ! b)\<lparr>b_data := bs\<rparr>]\<rparr>"
  shows "bcache_inv t" "block t = (block s)(b_blockno (bcache s ! b) := bs)"
proof -
  note inv = bcache_invD [OF assms(1)]
  let ?x = "(bcache s ! b)\<lparr>b_data := bs\<rparr>"
  have ok: "buf_ok (memdisk s) True ?x" using inv(5) [OF assms(2)] assms(3-5) by (auto simp: buf_ok_def)
  have d: "b_dev (bcache s ! b) = 1" using inv(5) [OF assms(2)] assms(4) by (auto simp: buf_ok_def)
  have t: "t = s\<lparr>bcache := (bcache s)[b := ?x], sleeplocks := (sleeplocks s)(S_buf b := \<lparr>slk_locked = slk_locked (sleeplocks s (S_buf b)),
    slk_pid = slk_pid (sleeplocks s (S_buf b))\<rparr>)\<rparr>" by (simp add: t_def)
  have u: "\<forall>j < NBUF. j \<noteq> b \<longrightarrow> \<not> (b_dev (bcache s ! j) = b_dev ?x \<and> b_blockno (bcache s ! j) = b_blockno ?x)"
    using inv(6) assms(2) d unfolding one_buf_def by auto
  show "bcache_inv t" unfolding t
    by (rule bcache_inv_buf [OF assms(1,2)]) (use ok u assms(3) in \<open>auto simp: in_use_def\<close>)
  have "one_buf ((bcache s)[b := ?x])" using one_buf_same [OF inv(6), of ?x b] by simp
  then show "block t = (block s)(b_blockno (bcache s ! b) := bs)"
    unfolding t by (intro ext, subst block_update [OF assms(1) _ assms(2)]) (use d assms(4) in auto)
qed

lemma block_written:
  assumes "bcache_inv s" "b < NBUF" "b_valid (bcache s ! b)" "b_valid y" "y = (bcache s ! b)\<lparr>b_flags := b_flags y\<rparr>"
  shows "block (s\<lparr>bcache := (bcache s)[b := y], memdisk := (memdisk s)[unat (b_blockno (bcache s ! b)) := b_data (bcache s ! b)],
       disk_writes := w\<rparr>) m = block s m" (is "block ?t m = _")
proof -
  note inv = bcache_invD [OF assms(1)]
  let ?x = "bcache s ! b"
  have bl: "b < length (bcache s)" using assms(2) inv(2) by simp
  have x: "b_dev ?x = 1" "unat (b_blockno ?x) < length (memdisk s)" using inv(5) [OF assms(2)] assms(3) by (auto simp: buf_ok_def)
  have y: "b_dev y = b_dev ?x" "b_blockno y = b_blockno ?x" "b_data y = b_data ?x" by (subst assms(5), simp)+
  have h: "holder (bcache ?t) m = holder (bcache s) m"
    unfolding holder_def by (rule find_cong) (use bl y in \<open>auto simp: nth_list_update\<close>)
  have m: "memdisk ?t ! unat m = (if m = b_blockno ?x then b_data ?x else memdisk s ! unat m)"
    using x(2) by (auto simp: nth_list_update word_unat_eq_iff)
  have hb: "holder (bcache s) (b_blockno ?x) = Some b" using x(1) assms(2) by (simp add: holder_Some [OF inv(6)])
  show ?thesis
  proof (cases "holder (bcache s) m = Some b")
    case True
    then show ?thesis using h y assms(3,4) bl by (simp add: block_def)
  next
    case False
    then have "m \<noteq> b_blockno ?x" using hb by auto
    then show ?thesis using False h m by (auto simp: block_def nth_list_update split: option.splits)
  qed
qed

lemma bwrite_spec:
  assumes "bcache_inv s" "calm p s" "b < NBUF" "in_use s b" "b_valid (bcache s ! b)"
  shows "\<exists>x t. bwrite b s = Done () t \<and> t = s\<lparr>bcache := (bcache s)[b := x],
       memdisk := (memdisk s)[unat (b_blockno (bcache s ! b)) := b_data (bcache s ! b)],
       disk_writes := disk_writes s @ [(unat (b_blockno (bcache s ! b)), b_data (bcache s ! b))]\<rparr>
     \<and> x = (bcache s ! b)\<lparr>b_flags := b_flags x\<rparr> \<and> b_valid x \<and> \<not> b_dirty x \<and> bcache_inv t \<and> block t = block s"
proof -
  note inv = bcache_invD [OF assms(1)]
  let ?x = "bcache s ! b"
  let ?y = "?x\<lparr>b_flags := (b_flags ?x OR B_DIRTY) AND NOT B_DIRTY OR B_VALID\<rparr>"
  let ?n = "unat (b_blockno ?x)"
  let ?t = "s\<lparr>bcache := (bcache s)[b := ?y], memdisk := (memdisk s)[?n := b_data ?x],
       disk_writes := disk_writes s @ [(?n, b_data ?x)]\<rparr>"
  have bl: "b < length (bcache s)" using assms(3) inv(2) by simp
  have x: "b_dev ?x = 1" "?n < length (memdisk s)" "length (b_data ?x) = BSIZE" "b_refcnt ?x \<noteq> 0"
    using inv(5) [OF assms(3)] assms(4,5) by (auto simp: buf_ok_def)
  let ?u = "s\<lparr>bcache := (bcache s)[b := ?x\<lparr>b_flags := b_flags ?x OR B_DIRTY\<rparr>]\<rparr>"
  have "iderw b ?u = Done () ?t"
    using iderw_write [of p ?u b] assms(2,4) x bl inv(3) by (simp add: in_use_def and_flag word_less_nat_alt)
  then have run: "bwrite b s = Done () ?t"
    using assms(4) by (simp add: bwrite_def kmonad holdingsleep_run [OF calmD(1) [OF assms(2)]] in_use_def upd_buf_def)
  have y: "b_valid ?y" "\<not> b_dirty ?y" by (simp_all add: and_flag)
  have eq: "i = b" if "i < NBUF" "b_valid (bcache s ! i)" "unat (b_blockno (bcache s ! i)) = ?n" for i
    using inv(5) [OF that(1)] inv(6) that assms(3) x(1) by (auto simp: one_buf_def buf_ok_def word_unat_eq_iff)
  have ok: "buf_ok (memdisk ?t) (in_use s i) (bcache ?t ! i)" if "i < NBUF" for i
  proof (cases "i = b")
    case True
    then show ?thesis using x y bl by (simp add: buf_ok_def)
  next
    case False
    then have "b_valid (bcache s ! i) \<Longrightarrow> memdisk ?t ! unat (b_blockno (bcache s ! i)) = memdisk s ! unat (b_blockno (bcache s ! i))"
      using eq [OF that] by (auto intro: nth_list_update_neq)
    then show ?thesis using inv(5) [OF that] False by (simp add: buf_ok_def)
  qed
  obtain xs where "lru (bcache s) xs" using inv(1) by blast
  then have "lru (bcache ?t) xs" by (simp add: lru_update)
  moreover have "\<forall>bs \<in> set (memdisk ?t). length bs = BSIZE"
    using assms(1) x(3) by (auto simp: bcache_inv_def dest!: set_update_subset_insert [THEN subsetD])
  ultimately have i: "bcache_inv ?t"
    using ok inv(3) one_buf_same [OF inv(6), of ?y b] unfolding bcache_inv_def by (auto simp: in_use_def)
  have "block ?t m = block s m" for m by (rule block_written [OF assms(1,3,5) y(1)]) simp
  then show ?thesis using run y i by (intro exI [of _ ?y] exI [of _ ?t]) auto
qed

lemma brelse_spec:
  assumes "bcache_inv s" "calm p s" "b < NBUF" "in_use s b" "b_valid (bcache s ! b)"
    "\<not> b_dirty (bcache s ! b) \<longrightarrow> b_data (bcache s ! b) = memdisk s ! unat (b_blockno (bcache s ! b))"
  shows "\<exists>c t. brelse b s = Done () t \<and> t = s\<lparr>ptable := map (wakeup_proc (C_sleeplock (S_buf b))) (ptable s),
       sleeplocks := (sleeplocks s)(S_buf b := \<lparr>slk_locked = 0, slk_pid = 0\<rparr>), bcache := c\<rparr>
     \<and> (\<forall>i < NBUF. payload (c ! i) = payload (if i = b then (bcache s ! b)\<lparr>b_refcnt := b_refcnt (bcache s ! b) - 1\<rparr> else bcache s ! i))
     \<and> bcache_inv t \<and> block t = block s"
proof -
  note inv = bcache_invD [OF assms(1)]
  obtain xs where xs: "lru (bcache s) xs" using inv(1) by blast
  let ?x = "(bcache s ! b)\<lparr>b_refcnt := b_refcnt (bcache s ! b) - 1\<rparr>"
  let ?c = "(bcache s)[b := ?x]"
  let ?d = "if b_refcnt ?x = 0 then pushed b (unlinked b ?c) else ?c"
  let ?s = "s\<lparr>ptable := map (wakeup_proc (C_sleeplock (S_buf b))) (ptable s),
       sleeplocks := (sleeplocks s)(S_buf b := \<lparr>slk_locked = 0, slk_pid = 0\<rparr>)\<rparr>"
  have bl: "b < length (bcache s)" using assms(3) inv(2) by simp
  have calm: "calm p ?s" using assms(2) by simp
  have ref: "b_refcnt (bcache s ! b) \<noteq> 0" and x: "b_dev (bcache s ! b) = 1"
    using inv(5) [OF assms(3)] assms(4,5) by (auto simp: buf_ok_def)
  have run: "brelse b s = Done () (?s\<lparr>bcache := ?d\<rparr>)"
    using bl assms(4)
    by (simp add: brelse_def kmonad holdingsleep_run [OF calmD(1) [OF assms(2)]] in_use_def
        releasesleep_run [OF calmD(1) calmD(1), OF assms(2) assms(2)] acquire_entered [OF calmD(1) [OF calm]]
        upd_buf_def get_buf_def lru_unlink_run lru_push_run release_bcache [OF calmD(1) [OF calm]])
  have lr: "lru ?c xs" using xs by (simp add: lru_update)
  then have l: "\<exists>xs. lru ?d xs" using lru_to_front [OF lr assms(3)] by (auto intro: exI [of _ xs])
  have pl: "payload (?d ! i) = payload (?c ! i)" for i by simp
  let ?u = "s\<lparr>bcache := ?c, sleeplocks := (sleeplocks s)(S_buf b := \<lparr>slk_locked = 0, slk_pid = 0\<rparr>)\<rparr>"
  have iu: "bcache_inv ?u"
  proof (rule bcache_inv_buf [OF assms(1,3)])
    show "buf_ok (memdisk s) (0 \<noteq> (0 :: uint32)) ?x" using inv(5) [OF assms(3)] assms(6) by (auto simp: buf_ok_def)
    show "\<forall>j < NBUF. j \<noteq> b \<longrightarrow> \<not> (b_dev (bcache s ! j) = b_dev ?x \<and> b_blockno (bcache s ! j) = b_blockno ?x)"
      using inv(6) x assms(3) by (auto simp: one_buf_def)
  qed simp_all
  have "bcache_inv (?s\<lparr>bcache := ?d\<rparr>)"
    by (rule bcache_inv_payload [OF iu]) (use l pl in \<open>auto simp: in_use_def\<close>)
  moreover have "block ?u m = block s m" for m
    by (subst block_update [OF assms(1) _ assms(3)])
      (use x assms(5) one_buf_same [OF inv(6), of ?x b] block_data [OF assms(1,3,5)] in auto)
  then have "block (?s\<lparr>bcache := ?d\<rparr>) m = block s m" for m
    using block_payload [of "?s\<lparr>bcache := ?d\<rparr>" ?u m] pl by simp
  ultimately show ?thesis
    using run pl bl by (intro exI [of _ ?d] exI [of _ "?s\<lparr>bcache := ?d\<rparr>"]) (auto simp: nth_list_update simp del: payload_moved)
qed

end
