(* ===== verification/BlockCache.thy ===== *)
theory BlockCache
  imports BufCache
begin

text \<open>
  The contract of the buffer cache as the locale \<open>block_cache\<close>, with the idioms of its users proved once
  (read a block, change it in place, copy one block to another), and its interpretation on the
  operations of bio.c.
\<close>

section \<open>What the cache promises\<close>

text \<open>What a user of the cache can observe: the contents of each block, as the kernel sees it and on disk,
  the writes to the disk, the blocks that must stay in the cache, and the number of blocks.\<close>

record cache_view =
  cv_view :: "uint32 \<Rightarrow> uint8 list"
  cv_disk :: "uint32 \<Rightarrow> uint8 list"
  cv_writes :: "(nat \<times> uint8 list) list"
  cv_pinned :: "uint32 set"
  cv_limit :: uint32

definition wrote :: "uint32 \<Rightarrow> uint8 list \<Rightarrow> cache_view \<Rightarrow> cache_view" where
  "wrote n d v = v\<lparr>cv_view := (cv_view v)(n := d), cv_disk := (cv_disk v)(n := d),
     cv_writes := cv_writes v @ [(unat n, d)], cv_pinned := cv_pinned v - {n}\<rparr>"

text \<open>A block is read into a buffer that the caller then holds, changed and written there, and given
  back; there has to be room for the blocks that are held or pinned.\<close>

locale block_cache =
  fixes inv :: "'s \<Rightarrow> bool"
    and held :: "'s \<Rightarrow> nat \<Rightarrow> uint32 option"
    and obs :: "'s \<Rightarrow> cache_view"
    and rest :: "'s \<Rightarrow> 'r"
    and rd :: "uint32 \<Rightarrow> (nat, 's) kop"
    and dat :: "nat \<Rightarrow> (uint8 list, 's) kop"
    and put :: "nat \<Rightarrow> (uint8 list \<Rightarrow> uint8 list) \<Rightarrow> (unit, 's) kop"
    and wr :: "nat \<Rightarrow> (unit, 's) kop"
    and rl :: "nat \<Rightarrow> (unit, 's) kop"
  assumes read_law: "\<lbrakk>inv s; n < cv_limit (obs s); n \<notin> ran (held s);
      n \<in> cv_pinned (obs s) \<or> card (cv_pinned (obs s) \<union> ran (held s)) < NBUF\<rbrakk>
    \<Longrightarrow> \<exists>b t. rd n s = Done b t \<and> inv t \<and> held s b = None \<and> held t = (held s)(b \<mapsto> n) \<and> obs t = obs s \<and> rest t = rest s"
    and data_law: "inv s \<Longrightarrow> held s b = Some n \<Longrightarrow> dat b s = Done (cv_view (obs s) n) s"
    and put_law: "\<lbrakk>inv s; held s b = Some n; length (f (cv_view (obs s) n)) = BSIZE\<rbrakk>
    \<Longrightarrow> \<exists>t. put b f s = Done () t \<and> inv t \<and> held t = held s \<and> rest t = rest s
      \<and> obs t = (obs s)\<lparr>cv_view := (cv_view (obs s))(n := f (cv_view (obs s) n))\<rparr>"
    and write_law: "\<lbrakk>inv s; held s b = Some n\<rbrakk>
    \<Longrightarrow> \<exists>t. wr b s = Done () t \<and> inv t \<and> held t = held s \<and> rest t = rest s \<and> obs t = wrote n (cv_view (obs s) n) (obs s)"
    and release_law: "\<lbrakk>inv s; held s b = Some n; n \<in> cv_pinned (obs s) \<or> cv_view (obs s) n = cv_disk (obs s) n\<rbrakk>
    \<Longrightarrow> \<exists>t. rl b s = Done () t \<and> inv t \<and> held t = (held s)(b := None) \<and> obs t = obs s \<and> rest t = rest s"
    and clean_law: "\<lbrakk>inv s; n \<notin> cv_pinned (obs s); n \<notin> ran (held s)\<rbrakk> \<Longrightarrow> cv_view (obs s) n = cv_disk (obs s) n"
    and size_law: "inv s \<Longrightarrow> n < cv_limit (obs s) \<Longrightarrow> length (cv_view (obs s) n) = BSIZE"
    and pinned_finite: "inv s \<Longrightarrow> finite (cv_pinned (obs s))"
begin

text \<open>Reading a block.\<close>

lemma look:
  assumes "inv s" "held s = Map.empty" "n < cv_limit (obs s)" "n \<in> cv_pinned (obs s) \<or> card (cv_pinned (obs s)) < NBUF"
  shows "\<exists>b t u. rd n s = Done b t \<and> inv t \<and> dat b t = Done (cv_view (obs s) n) t \<and> rl b t = Done () u
     \<and> inv u \<and> held u = Map.empty \<and> obs u = obs s \<and> rest t = rest s \<and> rest u = rest s \<and> obs t = obs s \<and> held t = [b \<mapsto> n]"
proof -
  obtain b t where t: "rd n s = Done b t" "inv t" "held t = [b \<mapsto> n]" "obs t = obs s" "rest t = rest s"
    using read_law [OF assms(1,3)] assms(2,4) by auto
  have "n \<in> cv_pinned (obs t) \<or> cv_view (obs t) n = cv_disk (obs t) n"
    using clean_law [OF assms(1), of n] assms(2) t(4) by auto
  then obtain u where "rl b t = Done () u" "inv u" "held u = (held t)(b := None)" "obs u = obs t" "rest u = rest t"
    using release_law [OF t(2), of b n] t(3) by auto
  then show ?thesis using t data_law [OF t(2), of b n] by auto
qed

text \<open>Changing a block and writing it through.\<close>

lemma modify:
  assumes "inv s" "held s = Map.empty" "n < cv_limit (obs s)" "n \<in> cv_pinned (obs s) \<or> card (cv_pinned (obs s)) < NBUF"
    "length (f (cv_view (obs s) n)) = BSIZE"
  shows "\<exists>t. kbind (rd n) (\<lambda>b. kseq (put b f) (kseq (wr b) (rl b))) s = Done () t
     \<and> inv t \<and> held t = Map.empty \<and> rest t = rest s \<and> obs t = wrote n (f (cv_view (obs s) n)) (obs s)"
proof -
  obtain b t where t: "rd n s = Done b t" "inv t" "held t = [b \<mapsto> n]" "obs t = obs s" "rest t = rest s"
    using read_law [OF assms(1,3)] assms(2,4) by auto
  obtain u where u: "put b f t = Done () u" "inv u" "held u = held t" "rest u = rest t"
     "obs u = (obs s)\<lparr>cv_view := (cv_view (obs s))(n := f (cv_view (obs s) n))\<rparr>"
    using put_law [OF t(2), of b n f] t(3,4) assms(5) by auto
  obtain v where v: "wr b u = Done () v" "inv v" "held v = held u" "rest v = rest u" "obs v = wrote n (f (cv_view (obs s) n)) (obs s)"
    using write_law [OF u(2), of b n] u(3,5) t(3) by (auto simp: wrote_def)
  obtain w where "rl b v = Done () w" "inv w" "held w = (held v)(b := None)" "obs w = obs v" "rest w = rest v"
    using release_law [OF v(2), of b n] v(3,5) u(3) t(3) by (auto simp: wrote_def)
  then show ?thesis using t u v by (auto simp: kmonad)
qed

text \<open>Two blocks are read, \<open>b\<close> is copied to \<open>a\<close>, and \<open>a\<close> is written; the buffers are given back in either
  order.\<close>

lemma read_two:
  assumes "inv s" "held s = Map.empty" "a < cv_limit (obs s)" "b < cv_limit (obs s)" "a \<noteq> b"
    "a \<in> cv_pinned (obs s) \<or> card (cv_pinned (obs s)) < NBUF" "b \<in> cv_pinned (obs s) \<or> Suc (card (cv_pinned (obs s))) < NBUF"
  shows "\<exists>i j t u. rd a s = Done i t \<and> rd b t = Done j u \<and> i \<noteq> j \<and> inv u \<and> held u = [i \<mapsto> a, j \<mapsto> b] \<and> obs u = obs s \<and> rest u = rest s"
proof -
  obtain i t where t: "rd a s = Done i t" "inv t" "held t = [i \<mapsto> a]" "obs t = obs s" "rest t = rest s"
    using read_law [OF assms(1,3)] assms(2,6) by auto
  have "b \<in> cv_pinned (obs t) \<or> card (cv_pinned (obs t) \<union> ran (held t)) < NBUF"
    using assms(7) t(3,4) card_Un_le [of "cv_pinned (obs s)" "{a}"] by auto
  then obtain j u where "rd b t = Done j u" "inv u" "held t j = None" "held u = (held t)(j \<mapsto> b)" "obs u = obs t" "rest u = rest t"
    using read_law [OF t(2), of b] t(3,4) assms(4,5) by auto
  then show ?thesis using t by (intro exI [of _ i] exI [of _ j] exI [of _ t] exI [of _ u]) auto
qed

lemma store_copy:
  assumes "inv s" "held s = [i \<mapsto> a, j \<mapsto> b]" "i \<noteq> j" "a \<noteq> b" "length (cv_view (obs s) b) = BSIZE"
  shows "\<exists>t. kseq (put i (\<lambda>_. cv_view (obs s) b)) (wr i) s = Done () t \<and> inv t \<and> held t = held s \<and> rest t = rest s
     \<and> obs t = wrote a (cv_view (obs s) b) (obs s)"
proof -
  obtain u where u: "put i (\<lambda>_. cv_view (obs s) b) s = Done () u" "inv u" "held u = held s" "rest u = rest s"
     "obs u = (obs s)\<lparr>cv_view := (cv_view (obs s))(a := cv_view (obs s) b)\<rparr>"
    using put_law [OF assms(1), of i a "\<lambda>_. cv_view (obs s) b"] assms(2-5) by auto
  obtain v where "wr i u = Done () v" "inv v" "held v = held u" "rest v = rest u" "obs v = wrote a (cv_view (obs s) b) (obs s)"
    using write_law [OF u(2), of i a] u(3,5) assms(2,3) by (auto simp: wrote_def)
  then show ?thesis using u by (auto simp: kmonad)
qed

lemma give_back:
  assumes "inv s" "held s = [i \<mapsto> a, j \<mapsto> b]" "i \<noteq> j"
    "a \<in> cv_pinned (obs s) \<or> cv_view (obs s) a = cv_disk (obs s) a"
    "b \<in> cv_pinned (obs s) \<or> cv_view (obs s) b = cv_disk (obs s) b"
  shows "\<exists>t. kseq (rl i) (rl j) s = Done () t \<and> inv t \<and> held t = Map.empty \<and> rest t = rest s \<and> obs t = obs s"
proof -
  obtain t where t: "rl i s = Done () t" "inv t" "held t = (held s)(i := None)" "obs t = obs s" "rest t = rest s"
    using release_law [OF assms(1), of i a] assms(2-4) by auto
  obtain u where "rl j t = Done () u" "inv u" "held u = (held t)(j := None)" "obs u = obs t" "rest u = rest t"
    using release_law [OF t(2), of j b] t(3,4) assms(2,3,5) by auto
  then show ?thesis using t assms(2,3) by (auto simp: kmonad fun_eq_iff)
qed

lemma give_back_ok:
  assumes "inv s" "held s = Map.empty" "obs t = wrote a d (obs s)" "a \<noteq> b"
  shows "cv_view (obs t) a = cv_disk (obs t) a" "b \<in> cv_pinned (obs t) \<or> cv_view (obs t) b = cv_disk (obs t) b"
  using assms clean_law [OF assms(1), of b] by (auto simp: wrote_def)

text \<open>A block is copied through the cache: \<open>to\<close> read first (\<open>write_log\<close>) or second (\<open>install_trans\<close>).\<close>

lemma copy_block:
  assumes "inv s" "held s = Map.empty" "a < cv_limit (obs s)" "b < cv_limit (obs s)" "a \<noteq> b"
    "a \<in> cv_pinned (obs s) \<or> card (cv_pinned (obs s)) < NBUF" "b \<in> cv_pinned (obs s) \<or> Suc (card (cv_pinned (obs s))) < NBUF"
  shows "\<exists>t. kbind (rd a) (\<lambda>i. kbind (rd b) (\<lambda>j. kbind (dat j) (\<lambda>d. kseq (put i (\<lambda>_. d)) (kseq (wr i)
       (kseq (rl j) (rl i)))))) s = Done () t
     \<and> inv t \<and> held t = Map.empty \<and> rest t = rest s \<and> obs t = wrote a (cv_view (obs s) b) (obs s)"
proof -
  obtain i j t u where u: "rd a s = Done i t" "rd b t = Done j u" "i \<noteq> j" "inv u" "held u = [i \<mapsto> a, j \<mapsto> b]" "obs u = obs s" "rest u = rest s"
    using read_two [OF assms] by blast
  obtain v where v: "kseq (put i (\<lambda>_. cv_view (obs u) b)) (wr i) u = Done () v" "inv v" "held v = held u" "rest v = rest u"
     "obs v = wrote a (cv_view (obs u) b) (obs u)"
    using store_copy [OF u(4,5,3) assms(5)] size_law [OF assms(1,4)] u(6) by auto
  have "held v = [j \<mapsto> b, i \<mapsto> a]" using v(3) u(3,5) by (auto simp: fun_eq_iff)
  from give_back [OF v(2) this u(3) [symmetric]] give_back_ok [OF assms(1,2) _ assms(5), of v] v(5) u(6)
  obtain w where "kseq (rl j) (rl i) v = Done () w" "inv w" "held w = Map.empty" "rest w = rest v" "obs w = obs v" by auto
  then show ?thesis using u v data_law [OF u(4), of j b] by (auto simp: kmonad split: outcome.splits)
qed

lemma copy_block_second:
  assumes "inv s" "held s = Map.empty" "a < cv_limit (obs s)" "b < cv_limit (obs s)" "a \<noteq> b"
    "b \<in> cv_pinned (obs s) \<or> card (cv_pinned (obs s)) < NBUF" "a \<in> cv_pinned (obs s) \<or> Suc (card (cv_pinned (obs s))) < NBUF"
  shows "\<exists>t. kbind (rd b) (\<lambda>j. kbind (rd a) (\<lambda>i. kbind (dat j) (\<lambda>d. kseq (put i (\<lambda>_. d)) (kseq (wr i)
       (kseq (rl j) (rl i)))))) s = Done () t
     \<and> inv t \<and> held t = Map.empty \<and> rest t = rest s \<and> obs t = wrote a (cv_view (obs s) b) (obs s)"
proof -
  obtain i j t u where u: "rd b s = Done j t" "rd a t = Done i u" "j \<noteq> i" "inv u" "held u = [j \<mapsto> b, i \<mapsto> a]" "obs u = obs s" "rest u = rest s"
    using read_two [OF assms(1,2,4,3) _ assms(6,7)] assms(5) by blast
  have h: "held u = [i \<mapsto> a, j \<mapsto> b]" using u(3,5) by (auto simp: fun_eq_iff)
  obtain v where v: "kseq (put i (\<lambda>_. cv_view (obs u) b)) (wr i) u = Done () v" "inv v" "held v = held u" "rest v = rest u"
     "obs v = wrote a (cv_view (obs u) b) (obs u)"
    using store_copy [OF u(4) h u(3)[symmetric] assms(5)] size_law [OF assms(1,4)] u(6) by auto
  have "held v = [j \<mapsto> b, i \<mapsto> a]" using v(3) u(5) by simp
  from give_back [OF v(2) this u(3)] give_back_ok [OF assms(1,2) _ assms(5), of v] v(5) u(6)
  obtain w where "kseq (rl j) (rl i) v = Done () w" "inv w" "held w = Map.empty" "rest w = rest v" "obs w = obs v" by auto
  then show ?thesis using u v data_law [OF u(4), of j b] h by (auto simp: kmonad split: outcome.splits)
qed

end

section \<open>The cache of bio.c keeps its promise\<close>

text \<open>The state in which one process uses the cache: a buffer that is in use is its own, it holds valid
  data and is referenced once; no other buffer is referenced.\<close>

definition cache_ok :: "nat \<Rightarrow> 'a kbuf_scheme \<Rightarrow> bool" where
  "cache_ok p s \<longleftrightarrow> bcache_inv s \<and> calm p s
     \<and> (\<forall>i < NBUF. if in_use s i then b_valid (bcache s ! i) \<and> b_refcnt (bcache s ! i) = 1 else b_refcnt (bcache s ! i) = 0)"

definition held_blocks :: "'a kbuf_scheme \<Rightarrow> nat \<Rightarrow> uint32 option" where
  "held_blocks s b = (if b < NBUF \<and> in_use s b then Some (b_blockno (bcache s ! b)) else None)"

definition pinned_blocks :: "'a kbuf_scheme \<Rightarrow> uint32 set" where
  "pinned_blocks s = {b_blockno (bcache s ! i) | i. i < NBUF \<and> b_dirty (bcache s ! i)}"

definition on_disk :: "'a kbuf_scheme \<Rightarrow> uint32 \<Rightarrow> uint8 list" where
  "on_disk s n = (if n < disksize s then memdisk s ! unat n else [])"

definition seen :: "'a kbuf_scheme \<Rightarrow> uint32 \<Rightarrow> uint8 list" where
  "seen s n = (if n < disksize s then block s n else [])"

definition cache_obs :: "'a kbuf_scheme \<Rightarrow> cache_view" where
  "cache_obs s = \<lparr>cv_view = seen s, cv_disk = on_disk s, cv_writes = disk_writes s, cv_pinned = pinned_blocks s, cv_limit = disksize s\<rparr>"

definition inode_locks :: "'a kproc_scheme \<Rightarrow> nat \<Rightarrow> sleeplock" where
  "inode_locks s i = sleeplocks s (S_inode i)"

definition cache_rest :: "'a kbuf_scheme \<Rightarrow> mem \<times> (nat \<Rightarrow> sleeplock) \<times> 'a" where
  "cache_rest s = (memory s, inode_locks s, kbuf.more s)"

lemma cache_okD:
  assumes "cache_ok p s"
  shows "bcache_inv s" "calm p s" "i < NBUF \<Longrightarrow> in_use s i \<Longrightarrow> b_valid (bcache s ! i)"
    "i < NBUF \<Longrightarrow> in_use s i \<Longrightarrow> b_refcnt (bcache s ! i) = 1" "i < NBUF \<Longrightarrow> \<not> in_use s i \<Longrightarrow> b_refcnt (bcache s ! i) = 0"
  using assms by (auto simp: cache_ok_def)

lemma heldD:
  assumes "held_blocks s b = Some n" shows "b < NBUF" "in_use s b" "b_blockno (bcache s ! b) = n"
  using assms by (auto simp: held_blocks_def split: if_splits)

lemma valid_block:
  assumes "bcache_inv s" "i < NBUF" "b_valid (bcache s ! i)"
  shows "b_dev (bcache s ! i) = 1" "b_blockno (bcache s ! i) < disksize s" "length (b_data (bcache s ! i)) = BSIZE"
    "holder (bcache s) (b_blockno (bcache s ! i)) = Some i" "block s (b_blockno (bcache s ! i)) = b_data (bcache s ! i)"
proof -
  note b = bcache_invD(5) [OF assms(1,2), unfolded buf_ok_def]
  show "b_dev (bcache s ! i) = 1" "length (b_data (bcache s ! i)) = BSIZE" using b assms(3) by auto
  show "b_blockno (bcache s ! i) < disksize s"
    using b assms(3) bcache_invD(3) [OF assms(1)] by (simp add: word_less_nat_alt)
  show "holder (bcache s) (b_blockno (bcache s ! i)) = Some i"
    using b assms(2,3) by (simp add: holder_Some [OF bcache_invD(6) [OF assms(1)]])
  show "block s (b_blockno (bcache s ! i)) = b_data (bcache s ! i)" by (rule block_data [OF assms])
qed

lemma dirty_valid: "bcache_inv s \<Longrightarrow> i < NBUF \<Longrightarrow> b_dirty (bcache s ! i) \<Longrightarrow> b_valid (bcache s ! i)"
  using bcache_invD(5) by (auto simp: buf_ok_def)

lemma pinned_holder:
  assumes "bcache_inv s" shows "n \<in> pinned_blocks s \<longleftrightarrow> (\<exists>i < NBUF. holder (bcache s) n = Some i \<and> b_dirty (bcache s ! i))"
  unfolding pinned_blocks_def using valid_block(4) [OF assms _ dirty_valid [OF assms]]
  by (auto simp: holder_Some [OF bcache_invD(6) [OF assms]])

text \<open>If every buffer is in use or dirty, thirty blocks are held or pinned.\<close>

lemma no_free_card:
  assumes "cache_ok p s" "\<forall>i < NBUF. in_use s i \<or> b_dirty (bcache s ! i)"
  shows "NBUF \<le> card (pinned_blocks s \<union> ran (held_blocks s))"
proof -
  note inv = cache_okD [OF assms(1)]
  let ?f = "\<lambda>i. b_blockno (bcache s ! i)"
  have v: "b_valid (bcache s ! i)" if "i < NBUF" for i
    using that assms(2) inv(3) dirty_valid [OF inv(1)] by blast
  have "inj_on ?f {..<NBUF}"
  proof (rule inj_onI)
    fix i j assume "i \<in> {..<NBUF}" "j \<in> {..<NBUF}" "?f i = ?f j"
    then show "i = j" using valid_block(4) [OF inv(1) _ v] by (metis lessThan_iff option.inject)
  qed
  then have "card (?f ` {..<NBUF}) = NBUF" by (simp add: card_image)
  moreover have "?f ` {..<NBUF} \<subseteq> pinned_blocks s \<union> ran (held_blocks s)"
  proof
    fix n assume "n \<in> ?f ` {..<NBUF}"
    then obtain i where i: "i < NBUF" "n = ?f i" by auto
    then show "n \<in> pinned_blocks s \<union> ran (held_blocks s)"
      using assms(2) by (auto simp: pinned_blocks_def ran_def held_blocks_def)
  qed
  moreover have "finite (pinned_blocks s \<union> ran (held_blocks s))"
  proof -
    have "pinned_blocks s \<union> ran (held_blocks s) \<subseteq> ?f ` {..<NBUF}"
      by (auto simp: pinned_blocks_def ran_def held_blocks_def split: if_splits)
    then show ?thesis by (rule finite_subset) simp
  qed
  ultimately show ?thesis using card_mono by metis
qed

text \<open>Thirty different blocks fill the buffers.\<close>

lemma some_free:
  assumes "cache_ok p s" "\<not> card (pinned_blocks s \<union> ran (held_blocks s)) < NBUF" "i < NBUF"
  shows "in_use s i \<or> b_dirty (bcache s ! i)"
proof (rule ccontr)
  assume i: "\<not> (in_use s i \<or> b_dirty (bcache s ! i))"
  have "pinned_blocks s \<union> ran (held_blocks s) \<subseteq> (\<lambda>i. b_blockno (bcache s ! i)) ` ({..<NBUF} - {i})"
    using i by (auto simp: pinned_blocks_def ran_def held_blocks_def split: if_splits)
  then have "card (pinned_blocks s \<union> ran (held_blocks s)) \<le> card ((\<lambda>i. b_blockno (bcache s ! i)) ` ({..<NBUF} - {i}))"
    by (intro card_mono) auto
  also have "\<dots> \<le> card ({..<NBUF} - {i})" by (rule card_image_le) simp
  also have "\<dots> < NBUF" using assms(3) by simp
  finally show False using assms(2) by simp
qed

lemma can_bread_room:
  assumes "cache_ok p s" "n < disksize s" "n \<notin> ran (held_blocks s)"
    "n \<in> pinned_blocks s \<or> card (pinned_blocks s \<union> ran (held_blocks s)) < NBUF"
  shows "can_bread s n"
proof (cases "holder (bcache s) n")
  case (Some b)
  then have "b < NBUF" "b_blockno (bcache s ! b) = n"
    using holder_Some [OF bcache_invD(6) [OF cache_okD(1) [OF assms(1)]]] by simp_all
  then have "\<not> in_use s b" using assms(3) ranI [of "held_blocks s" b n] by (auto simp: held_blocks_def)
  then show ?thesis using Some assms(2) by (simp add: can_bread_def)
next
  case None
  then have "n \<notin> pinned_blocks s" using pinned_holder [OF cache_okD(1) [OF assms(1)]] by simp
  then obtain i where "i < NBUF" "\<not> in_use s i" "\<not> b_dirty (bcache s ! i)"
    using no_free_card [OF assms(1)] assms(4) by fastforce
  then have "\<exists>b < NBUF. b_refcnt (bcache s ! b) = 0 \<and> \<not> b_dirty (bcache s ! b)"
    using cache_okD(5) [OF assms(1)] by blast
  then show ?thesis using None assms(2) by (simp add: can_bread_def)
qed

lemma pinned_update:
  assumes "b < NBUF" "length (bcache s) = Suc NBUF" "bcache t = (bcache s)[b := y]"
    "b_dirty y \<longleftrightarrow> b_dirty (bcache s ! b)" "b_dirty y \<Longrightarrow> b_blockno y = b_blockno (bcache s ! b)"
  shows "pinned_blocks t = pinned_blocks s"
proof -
  have "i < NBUF \<and> b_dirty (bcache t ! i) \<longleftrightarrow> i < NBUF \<and> b_dirty (bcache s ! i)"
    "b_dirty (bcache t ! i) \<Longrightarrow> i < NBUF \<Longrightarrow> b_blockno (bcache t ! i) = b_blockno (bcache s ! i)" for i
    using assms by (auto simp: nth_list_update)
  then show ?thesis unfolding pinned_blocks_def by (metis (mono_tags, lifting))
qed

lemma bread_ok:
  assumes "cache_ok p s" "can_bread s n"
  shows "\<exists>b t. bread 1 n s = Done b t \<and> cache_ok p t \<and> held_blocks s b = None \<and> held_blocks t = (held_blocks s)(b \<mapsto> n)
     \<and> cache_obs t = cache_obs s \<and> cache_rest t = cache_rest s"
proof -
  note inv = cache_okD [OF assms(1)]
  have r: "b_refcnt (bcache s ! i) + 1 \<noteq> 0" if "i < NBUF" for i
    using inv(4,5) [OF that] by (cases "in_use s i") simp_all
  obtain b y t where t: "bread 1 n s = Done b t" "t = s\<lparr>bcache := (bcache s)[b := y], sleeplocks := (sleeplocks s)(S_buf b := sleeper p s)\<rparr>"
     "b < NBUF" "\<not> in_use s b" "bread_buf s n (bcache s ! b) y" "bcache_inv t" "block t = block s"
    using bread_spec [OF inv(1,2) assms(2) r] by blast
  note y = t(5) [unfolded bread_buf_def]
  have l: "b < length (bcache s)" using t(3) bcache_invD(2) [OF inv(1)] by simp
  have u: "in_use t i \<longleftrightarrow> i = b \<or> in_use s i" for i
    unfolding t(2) in_use_def by (simp add: sleeper_def)
  have n: "bcache t ! i = (if i = b then y else bcache s ! i)" for i
    using l by (simp add: t(2) nth_list_update)
  have "cache_ok p t" unfolding cache_ok_def using t(6) inv(2,3,4,5) t(3,4) y by (auto simp: u n) (simp_all add: t(2))
  moreover have "held_blocks t = (held_blocks s)(b \<mapsto> n)"
    using t(3) y by (auto simp: held_blocks_def u n)
  moreover have "pinned_blocks t = pinned_blocks s"
    by (rule pinned_update [where y = y, OF t(3) bcache_invD(2) [OF inv(1)]]) (use y in \<open>auto simp: t(2)\<close>)
  ultimately show ?thesis using t(1,4,7)
    by (auto simp: t(2) held_blocks_def cache_obs_def cache_rest_def inode_locks_def seen_def on_disk_def fun_eq_iff)
qed

lemma put_ok:
  assumes "cache_ok p s" "held_blocks s b = Some n" "length (f (seen s n)) = BSIZE"
  defines "t \<equiv> s\<lparr>bcache := (bcache s)[b := (bcache s ! b)\<lparr>b_data := f (b_data (bcache s ! b))\<rparr>]\<rparr>"
  shows "cache_ok p t" "held_blocks t = held_blocks s" "cache_rest t = cache_rest s"
    "cache_obs t = (cache_obs s)\<lparr>cv_view := (seen s)(n := f (seen s n))\<rparr>"
proof -
  note inv = cache_okD [OF assms(1)] and h = heldD [OF assms(2)]
  note v = inv(3) [OF h(1,2)]
  note w = valid_block [OF inv(1) h(1) v]
  have d: "seen s n = b_data (bcache s ! b)" using w h(3) by (simp add: seen_def)
  have l: "b < length (bcache s)" using h(1) bcache_invD(2) [OF inv(1)] by simp
  have n: "bcache t ! i = (if i = b then (bcache s ! b)\<lparr>b_data := f (b_data (bcache s ! b))\<rparr> else bcache s ! i)" for i
    using l by (simp add: t_def nth_list_update)
  have u: "in_use t i = in_use s i" for i by (simp add: t_def in_use_def)
  have "bcache_inv t" "block t = (block s)(n := f (b_data (bcache s ! b)))"
    using buf_data_spec [OF inv(1) h(1,2) v, of "f (b_data (bcache s ! b))"] assms(3) d h(3) unfolding t_def by simp_all
  note bt = this
  show "cache_ok p t" unfolding cache_ok_def using bt(1) inv(2-5) by (auto simp: u n) (simp_all add: t_def)
  show "held_blocks t = held_blocks s" by (auto simp: held_blocks_def u n)
  show "cache_rest t = cache_rest s" by (simp add: cache_rest_def inode_locks_def fun_eq_iff t_def)
  have "pinned_blocks t = pinned_blocks s"
    by (rule pinned_update [where y = "(bcache s ! b)\<lparr>b_data := f (b_data (bcache s ! b))\<rparr>", OF h(1) bcache_invD(2) [OF inv(1)]]) (simp_all add: t_def)
  moreover have "disksize t = disksize s" "memdisk t = memdisk s" "disk_writes t = disk_writes s" by (simp_all add: t_def)
  moreover have "seen t = (seen s)(n := f (seen s n))"
    unfolding d using w(2) h(3) by (auto simp: seen_def bt(2) fun_eq_iff \<open>disksize t = disksize s\<close>)
  ultimately show "cache_obs t = (cache_obs s)\<lparr>cv_view := (seen s)(n := f (seen s n))\<rparr>"
    by (simp add: cache_obs_def on_disk_def fun_eq_iff)
qed

lemma bwrite_ok:
  assumes "cache_ok p s" "held_blocks s b = Some n"
  shows "\<exists>t. bwrite b s = Done () t \<and> cache_ok p t \<and> held_blocks t = held_blocks s \<and> cache_rest t = cache_rest s
     \<and> cache_obs t = wrote n (seen s n) (cache_obs s)"
proof -
  note inv = cache_okD [OF assms(1)] and h = heldD [OF assms(2)]
  note v = inv(3) [OF h(1,2)]
  note w = valid_block [OF inv(1) h(1) v]
  have d: "seen s n = b_data (bcache s ! b)" using w h(3) by (simp add: seen_def)
  obtain x t where t: "bwrite b s = Done () t" "t = s\<lparr>bcache := (bcache s)[b := x],
       memdisk := (memdisk s)[unat (b_blockno (bcache s ! b)) := b_data (bcache s ! b)],
       disk_writes := disk_writes s @ [(unat (b_blockno (bcache s ! b)), b_data (bcache s ! b))]\<rparr>"
     "x = (bcache s ! b)\<lparr>b_flags := b_flags x\<rparr>" "b_valid x" "\<not> b_dirty x" "bcache_inv t" "block t = block s"
    using bwrite_spec [OF inv(1,2) h(1,2) v] by blast
  have x: "b_blockno x = n" "b_refcnt x = b_refcnt (bcache s ! b)"
    using h(3) arg_cong [OF t(3), of b_blockno] arg_cong [OF t(3), of b_refcnt] by simp_all
  have l: "b < length (bcache s)" using h(1) bcache_invD(2) [OF inv(1)] by simp
  have n: "bcache t ! i = (if i = b then x else bcache s ! i)" for i using l by (simp add: t(2) nth_list_update)
  have u: "in_use t i = in_use s i" for i by (simp add: t(2) in_use_def)
  have "cache_ok p t" unfolding cache_ok_def using t(4,6) inv(2-5) x(2) by (auto simp: u n) (simp_all add: t(2))
  moreover have "held_blocks t = held_blocks s" using x(1) h(3) by (auto simp: held_blocks_def u n)
  moreover have "pinned_blocks t = pinned_blocks s - {n}"
  proof -
    have "b_blockno (bcache s ! i) \<noteq> n" if "i < NBUF" "i \<noteq> b" "b_dirty (bcache s ! i)" for i
      using valid_block(4) [OF inv(1) that(1) dirty_valid [OF inv(1) that(1,3)]] w(4) h(3) that(2) by auto
    then show ?thesis using t(5) h(3) by (auto simp: pinned_blocks_def n split: if_splits) metis
  qed
  moreover have "disksize t = disksize s" by (simp add: t(2))
  moreover from this have "seen t = (seen s)(n := seen s n)" by (simp add: seen_def t(7) fun_eq_iff)
  moreover have "on_disk t = (on_disk s)(n := seen s n)"
    using w(2) h(3) bcache_invD(3) [OF inv(1)]
    by (auto simp: on_disk_def t(2) d fun_eq_iff nth_list_update word_less_nat_alt word_unat_eq_iff)
  ultimately show ?thesis using t(1) d h(3) by (simp add: cache_obs_def wrote_def) (simp add: cache_rest_def inode_locks_def fun_eq_iff t(2))
qed

lemma brelse_ok:
  assumes "cache_ok p s" "held_blocks s b = Some n" "n \<in> pinned_blocks s \<or> seen s n = on_disk s n"
  shows "\<exists>t. brelse b s = Done () t \<and> cache_ok p t \<and> held_blocks t = (held_blocks s)(b := None)
     \<and> cache_obs t = cache_obs s \<and> cache_rest t = cache_rest s"
proof -
  note inv = cache_okD [OF assms(1)] and h = heldD [OF assms(2)]
  note v = inv(3) [OF h(1,2)]
  note w = valid_block [OF inv(1) h(1) v]
  have "\<not> b_dirty (bcache s ! b) \<longrightarrow> b_data (bcache s ! b) = memdisk s ! unat (b_blockno (bcache s ! b))"
    using assms(3) pinned_holder [OF inv(1)] w h(3) by (auto simp: seen_def on_disk_def)
  from brelse_spec [OF inv(1,2) h(1,2) v this]
  obtain c t where t: "brelse b s = Done () t" "t = s\<lparr>ptable := map (wakeup_proc (C_sleeplock (S_buf b))) (ptable s),
       sleeplocks := (sleeplocks s)(S_buf b := \<lparr>slk_locked = 0, slk_pid = 0\<rparr>), bcache := c\<rparr>"
     "\<And>i. i < NBUF \<Longrightarrow> payload (c ! i) = payload (if i = b then (bcache s ! b)\<lparr>b_refcnt := b_refcnt (bcache s ! b) - 1\<rparr> else bcache s ! i)"
     "bcache_inv t" "block t = block s" by blast
  have f: "b_flags (c ! i) = b_flags (bcache s ! i)" "b_blockno (c ! i) = b_blockno (bcache s ! i)"
     "b_refcnt (c ! i) = (if i = b then 0 else b_refcnt (bcache s ! i))" if "i < NBUF" for i
    using t(3) [OF that] inv(4) [OF h(1,2)] by (auto simp: payload_fields split: if_splits)
  have u: "in_use t i \<longleftrightarrow> i \<noteq> b \<and> in_use s i" for i by (simp add: t(2) in_use_def)
  have c: "bcache t = c" by (simp add: t(2))
  have "cache_ok p t" unfolding cache_ok_def using t(4) inv(2-5) by (auto simp: u c f) (simp_all add: t(2))
  moreover have "held_blocks t = (held_blocks s)(b := None)" by (auto simp: held_blocks_def u c f)
  moreover have "pinned_blocks t = pinned_blocks s" unfolding pinned_blocks_def c using f by (metis (mono_tags, lifting))
  moreover have "disksize t = disksize s" "memdisk t = memdisk s" "disk_writes t = disk_writes s" by (simp_all add: t(2))
  ultimately show ?thesis using t(1,5) by (simp add: cache_obs_def seen_def on_disk_def fun_eq_iff) (simp add: cache_rest_def inode_locks_def fun_eq_iff t(2))
qed

lemma clean_ok:
  assumes "cache_ok p s" "n \<notin> pinned_blocks s" "n \<notin> ran (held_blocks s)"
  shows "seen s n = on_disk s n"
proof (cases "holder (bcache s) n")
  case (Some b)
  note inv = cache_okD [OF assms(1)]
  have b: "b < NBUF" "b_blockno (bcache s ! b) = n"
    using Some holder_Some [OF bcache_invD(6) [OF inv(1)]] by simp_all
  then have "\<not> in_use s b" "\<not> b_dirty (bcache s ! b)"
    using assms(2,3) pinned_holder [OF inv(1)] Some ranI [of "held_blocks s" b n] by (auto simp: held_blocks_def)
  then show ?thesis using bcache_invD(5) [OF inv(1) b(1)] Some b by (auto simp: seen_def on_disk_def block_def buf_ok_def)
qed (simp add: seen_def on_disk_def block_def)

lemma seen_size:
  assumes "cache_ok p s" "n < disksize s" shows "length (seen s n) = BSIZE"
proof (cases "holder (bcache s) n")
  case (Some b)
  note inv = cache_okD [OF assms(1)]
  have "b < NBUF" using Some holder_Some [OF bcache_invD(6) [OF inv(1)]] by simp
  then show ?thesis using bcache_invD(4) [OF inv(1) assms(2)] bcache_invD(5) [OF inv(1), of b] Some assms(2)
    by (auto simp: seen_def block_def buf_ok_def)
qed (use assms bcache_invD(4) [OF cache_okD(1) [OF assms(1)]] in \<open>simp add: seen_def block_def\<close>)

lemma pinned_finite: "finite (pinned_blocks s)"
  by (rule finite_subset [of _ "(\<lambda>i. b_blockno (bcache s ! i)) ` {..<NBUF}"]) (auto simp: pinned_blocks_def)

lemma get_data_ok: "cache_ok p s \<Longrightarrow> held_blocks s b = Some n \<Longrightarrow> get_buf b b_data s = Done (seen s n) s"
  using valid_block [of s b] heldD [of s b n] cache_okD(1,3) [of p s] by (auto simp: get_buf_def kmonad seen_def)

lemma cache_obs_simps [simp]:
  "cv_view (cache_obs s) = seen s" "cv_disk (cache_obs s) = on_disk s" "cv_writes (cache_obs s) = disk_writes s"
  "cv_pinned (cache_obs s) = pinned_blocks s" "cv_limit (cache_obs s) = disksize s"
  by (simp_all add: cache_obs_def)

interpretation bio: block_cache "cache_ok p" held_blocks cache_obs cache_rest "bread 1" "\<lambda>b. get_buf b b_data"
  "\<lambda>b f. upd_buf b (\<lambda>x. x\<lparr>b_data := f (b_data x)\<rparr>)" bwrite brelse
proof (unfold_locales, goal_cases)
  case (1 s n) then show ?case using bread_ok [OF _ can_bread_room] by simp
next
  case (2 s b n) then show ?case by (simp add: get_data_ok)
next
  case (3 s b n f) then show ?case using put_ok [of p s b n f] by (simp add: upd_buf_def kmonad)
next
  case (4 s b n) then show ?case using bwrite_ok by simp
next
  case (5 s b n) then show ?case using brelse_ok by simp
next
  case (6 s n) then show ?case using clean_ok by simp
next
  case (7 s n) then show ?case using seen_size by simp
next
  case (8 s) then show ?case by (simp add: pinned_finite)
qed

text \<open>C9. \<open>bread\<close> returns a locked buffer that no one else holds, with the contents of the block it is asked for:
  the ones in the cache if the block is there, those of the disk otherwise. It keeps the invariant of
  the cache and changes neither the disk nor what the kernel sees of any block. If every buffer is
  in use or dirty and the block is in none of them, it panics.\<close>

theorem bread_block:
  assumes "cache_ok p s" "n < disksize s" "n \<notin> ran (held_blocks s)"
  shows "if n \<in> pinned_blocks s \<or> card (pinned_blocks s \<union> ran (held_blocks s)) < NBUF
     then \<exists>b t. bread 1 n s = Done b t \<and> cache_ok p t \<and> held_blocks s b = None \<and> held_blocks t = (held_blocks s)(b \<mapsto> n)
       \<and> b_data (bcache t ! b) = block s n \<and> memdisk t = memdisk s \<and> (\<forall>m < disksize s. block t m = block s m)
     else bread 1 n s = Panic ''bget: no buffers''"
proof (cases "n \<in> pinned_blocks s \<or> card (pinned_blocks s \<union> ran (held_blocks s)) < NBUF")
  case True
  note inv = cache_okD [OF assms(1)]
  have r: "b_refcnt (bcache s ! i) + 1 \<noteq> 0" if "i < NBUF" for i
    using inv(4,5) [OF that] by (cases "in_use s i") simp_all
  note c = can_bread_room [OF assms True]
  obtain b t where t: "bread 1 n s = Done b t" "cache_ok p t" "held_blocks s b = None" "held_blocks t = (held_blocks s)(b \<mapsto> n)"
    using bread_ok [OF assms(1) c] by blast
  obtain y where "t = s\<lparr>bcache := (bcache s)[b := y], sleeplocks := (sleeplocks s)(S_buf b := sleeper p s)\<rparr>"
     "b < NBUF" "bread_buf s n (bcache s ! b) y" "block t = block s"
    using bread_spec [OF inv(1,2) c r] t(1) by auto
  then show ?thesis using True t bcache_invD(2) [OF inv(1)] by (auto simp: bread_buf_def)
next
  case False
  note inv = cache_okD [OF assms(1)]
  have all: "in_use s i \<or> b_dirty (bcache s ! i)" if "i < NBUF" for i
    using some_free [OF assms(1)] False that by blast
  then have "holder (bcache s) n = None"
    using assms(3) False pinned_holder [OF inv(1)] holder_Some [OF bcache_invD(6) [OF inv(1)]]
    by (metis held_blocks_def not_None_eq ranI)
  moreover have "\<forall>b < NBUF. b_refcnt (bcache s ! b) \<noteq> 0 \<or> b_dirty (bcache s ! b)"
    using all inv(4) by (metis zero_neq_one)
  ultimately show ?thesis using bget_full [OF inv(2)] bcache_invD(1,6) [OF inv(1)] False by (auto simp: bread_def kmonad)
qed

end
