(* ===== verification/LogRun.thy ===== *)
theory LogRun
  imports BlockCache Log
begin

text \<open>
  The operations of the log run on the contract of the buffer cache: the header round trip, and what
  \<open>write_log\<close>, \<open>install_trans\<close> and \<open>write_head\<close> write, in which order.
\<close>

section \<open>Words in a block\<close>

lemma length_splice [simp]: "off + length new \<le> length bs \<Longrightarrow> length (splice bs off new) = length bs"
  by (simp add: splice_def)

lemma length_put32 [simp]: "off + 4 \<le> length bs \<Longrightarrow> length (put32 bs off v) = length bs"
  by (simp add: put32_def)

lemma length_put32s [simp]: "off + 4 * length vs \<le> length bs \<Longrightarrow> length (put32s bs off vs) = length bs"
  by (induction bs off vs rule: put32s.induct) auto

lemma splice_nth:
  "off + length new \<le> length bs \<Longrightarrow> i < length bs \<Longrightarrow>
   splice bs off new ! i = (if off \<le> i \<and> i < off + length new then new ! (i - off) else bs ! i)"
  by (auto simp: splice_def nth_append)

lemma get32_put32:
  assumes "off + 4 \<le> length bs" shows "get32 (put32 bs off v) off = v"
  using assms bytes_of_word [of v] by (simp add: get32_def put32_def splice_nth)

lemma get32_put32_other:
  assumes "off + 4 \<le> length bs" "off' + 4 \<le> length bs" "off' + 4 \<le> off \<or> off + 4 \<le> off'"
  shows "get32 (put32 bs off v) off' = get32 bs off'"
  using assms by (auto simp: get32_def put32_def splice_nth)

lemma get32_put32s_other:
  "off + 4 * length vs \<le> length bs \<Longrightarrow> off' + 4 \<le> off \<Longrightarrow> get32 (put32s bs off vs) off' = get32 bs off'"
  by (induction bs off vs rule: put32s.induct) (auto simp: get32_put32_other)

lemma get32s_put32s: "off + 4 * length vs \<le> length bs \<Longrightarrow> get32s (put32s bs off vs) off (length vs) = vs"
proof (induction bs off vs rule: put32s.induct)
  case (2 bs off v vs)
  have "get32s (put32s (put32 bs off v) (off + 4) vs) off (Suc (length vs)) =
     get32 (put32s (put32 bs off v) (off + 4) vs) off # get32s (put32s (put32 bs off v) (off + 4) vs) (off + 4) (length vs)"
    by (simp add: get32s_def upt_conv_Cons map_Suc_upt [symmetric] del: upt_Suc) (simp add: ac_simps)
  then show ?case using 2 by (simp add: get32_put32s_other get32_put32)
qed (simp add: get32s_def)

text \<open>The header that \<open>write_head\<close> writes is the one that \<open>read_head\<close> reads.\<close>

definition header :: "int \<Rightarrow> uint32 list \<Rightarrow> uint8 list \<Rightarrow> uint8 list" where
  "header n bl d = put32s (put32 d 0 (of_int n)) 4 (take (nat n) bl)"

lemma header_fields:
  assumes "length d = BSIZE" "0 \<le> n" "n \<le> int LOGSIZE" "nat n \<le> length bl"
  shows "length (header n bl d) = BSIZE" "sint (get32 (header n bl d) 0) = n" "get32s (header n bl d) 4 (nat n) = take (nat n) bl"
proof -
  have l: "length (take (nat n) bl) = nat n" "4 + 4 * length (take (nat n) bl) \<le> 512" using assms by auto
  show "length (header n bl d) = BSIZE" using assms l by (simp add: header_def)
  have "get32 (header n bl d) 0 = of_int n" using assms l by (simp add: header_def get32_put32s_other get32_put32)
  moreover have "sint (of_int n :: uint32) = n"
    using assms by (simp add: signed_of_int signed_take_bit_int_eq_self)
  ultimately show "sint (get32 (header n bl d) 0) = n" by simp
  show "get32s (header n bl d) 4 (nat n) = take (nat n) bl"
    using get32s_put32s [of 4 "take (nat n) bl" "put32 d 0 (of_int n)"] assms l by (simp add: header_def)
qed

section \<open>Running the log\<close>

definition log_block :: "log \<Rightarrow> nat \<Rightarrow> uint32" where
  "log_block l i = lg_start l + of_nat i + 1"

definition log_area :: "log \<Rightarrow> uint32 set" where
  "log_area l = {b. unat (lg_start l) \<le> unat b \<and> unat b < unat (lg_start l) + nat (lg_size l)}"

text \<open>The log lies on the disk, and the transaction consists of different blocks outside it.\<close>

definition log_fits :: "uint32 \<Rightarrow> log \<Rightarrow> bool" where
  "log_fits lim l \<longleftrightarrow> lg_dev l = 1 \<and> unat (lg_start l) + nat (lg_size l) \<le> unat lim \<and> 0 \<le> lh_n l \<and> lh_n l < lg_size l \<and> lh_n l \<le> int LOGSIZE
     \<and> length (lh_block l) = LOGSIZE \<and> distinct (take (nat (lh_n l)) (lh_block l))
     \<and> (\<forall>b \<in> set (take (nat (lh_n l)) (lh_block l)). b < lim \<and> b \<notin> log_area l)"

lemma unat_log_block:
  assumes "log_fits lim l" "Suc i < nat (lg_size l)" shows "unat (log_block l i) = unat (lg_start l) + i + 1"
proof -
  have "unat (lg_start l) + Suc i < 2 ^ 32" using assms unsigned_less [of lim, where 'a = nat] by (auto simp: log_fits_def)
  then have "unat (lg_start l + of_nat (Suc i)) = unat (lg_start l) + Suc i"
    by (subst unat_add_lem [THEN iffD1]) (use assms(2) in \<open>simp_all add: unat_of_nat take_bit_nat_eq_self del: of_nat_Suc\<close>)
  then show ?thesis by (simp add: log_block_def ac_simps)
qed

lemma log_blocks:
  assumes "log_fits lim l" "Suc i < nat (lg_size l)"
  shows "log_block l i < lim" "log_block l i \<in> log_area l" "log_block l i \<noteq> lg_start l"
    "Suc j < nat (lg_size l) \<Longrightarrow> log_block l i = log_block l j \<longleftrightarrow> i = j"
  using unat_log_block [OF assms] unat_log_block [OF assms(1), of j] assms
  by (auto simp: log_fits_def log_area_def word_less_nat_alt word_unat_eq_iff)

lemma start_block: "log_fits lim l \<Longrightarrow> lg_start l < lim" "log_fits lim l \<Longrightarrow> lg_start l \<in> log_area l"
  by (auto simp: log_fits_def log_area_def word_less_nat_alt)

lemma home_blocks:
  assumes "log_fits lim l" "i < nat (lh_n l)"
  shows "Suc i < nat (lg_size l)" "lh_block l ! i < lim" "lh_block l ! i \<notin> log_area l" "Suc i' < nat (lg_size l) \<Longrightarrow> lh_block l ! i \<noteq> log_block l i'"
    "lh_block l ! i \<noteq> lg_start l" "j < nat (lh_n l) \<Longrightarrow> lh_block l ! i = lh_block l ! j \<longleftrightarrow> i = j"
proof -
  have i: "Suc i < nat (lg_size l)" "lh_block l ! i \<in> set (take (nat (lh_n l)) (lh_block l))"
    using assms by (auto simp: log_fits_def in_set_conv_nth intro!: exI [of _ i])
  then show "Suc i < nat (lg_size l)" "lh_block l ! i < lim" "lh_block l ! i \<notin> log_area l" "lh_block l ! i \<noteq> lg_start l"
    using assms(1) start_block(2) [OF assms(1)] by (auto simp: log_fits_def)
  show "Suc i' < nat (lg_size l) \<Longrightarrow> lh_block l ! i \<noteq> log_block l i'"
    using log_blocks(2) [OF assms(1), of i'] i(2) assms(1) by (auto simp: log_fits_def)
  show "j < nat (lh_n l) \<Longrightarrow> lh_block l ! i = lh_block l ! j \<longleftrightarrow> i = j"
    using assms nth_eq_iff_index_eq [of "take (nat (lh_n l)) (lh_block l)" i j] by (auto simp: log_fits_def)
qed

lemma lg_rest: "cache_rest t = cache_rest s \<Longrightarrow> lg t = lg s"
  by (cases s; cases t) (simp add: cache_rest_def)

lemma for_each_writes:
  assumes "\<And>i is u. Q (i # is) u \<Longrightarrow> \<exists>t. f i u = Done () t \<and> Q is t \<and> cache_obs t = wrote (dst i) (src i) (cache_obs u)" "Q is s"
  shows "\<exists>t. for_each f is s = Done () t \<and> Q [] t \<and> cache_obs t = fold (\<lambda>i. wrote (dst i) (src i)) is (cache_obs s)"
  using assms(2)
proof (induction "is" arbitrary: s)
  case (Cons i "is")
  obtain t where t: "f i s = Done () t" "Q is t" "cache_obs t = wrote (dst i) (src i) (cache_obs s)"
    using assms(1) [OF Cons.prems] by blast
  show ?case using Cons.IH [OF t(2)] t(1,3) by (auto simp: kmonad)
qed (simp add: kmonad)

text \<open>No buffer is held between the operations of the log.\<close>

definition idle :: "nat \<Rightarrow> 'a kbuf_scheme \<Rightarrow> bool" where
  "idle p s \<longleftrightarrow> cache_ok p s \<and> held_blocks s = Map.empty"

lemma write_log_one_run:
  assumes "idle p s" "log_fits (disksize s) (lg s)" "i < nat (lh_n (lg s))" "lh_block (lg s) ! i \<in> pinned_blocks s" "card (pinned_blocks s) < NBUF"
  shows "\<exists>t. write_log_one i s = Done () t \<and> idle p t \<and> cache_rest t = cache_rest s
     \<and> cache_obs t = wrote (log_block (lg s) i) (seen s (lh_block (lg s) ! i)) (cache_obs s)"
proof -
  note h = home_blocks [OF assms(2,3)]
  have "log_block (lg s) i \<noteq> lh_block (lg s) ! i" using h(4) [OF h(1)] by simp
  from bio.copy_block [of p s "log_block (lg s) i" "lh_block (lg s) ! i"] this assms(1,4,5) h(1,2) log_blocks(1) [OF assms(2) h(1)] assms(2)
  show ?thesis by (simp add: idle_def write_log_one_def kmonad log_fits_def log_block_def)
qed

lemma install_one_run:
  assumes "idle p s" "log_fits (disksize s) (lg s)" "i < nat (lh_n (lg s))"
    "lh_block (lg s) ! i \<in> pinned_blocks s \<and> card (pinned_blocks s) < NBUF \<or> pinned_blocks s = {}"
  shows "\<exists>t. install_one i s = Done () t \<and> idle p t \<and> cache_rest t = cache_rest s
     \<and> cache_obs t = wrote (lh_block (lg s) ! i) (seen s (log_block (lg s) i)) (cache_obs s)"
proof -
  note h = home_blocks [OF assms(2,3)]
  from bio.copy_block_second [of p s "lh_block (lg s) ! i" "log_block (lg s) i"] assms(1,4) h(1,2,4) log_blocks(1) [OF assms(2) h(1)] assms(2)
  show ?thesis by (auto simp add: idle_def install_one_def kmonad log_fits_def log_block_def)
qed

lemma write_head_run:
  assumes "idle p s" "log_fits (disksize s) (lg s)" "card (pinned_blocks s) < NBUF"
  shows "\<exists>t. write_head s = Done () t \<and> idle p t \<and> cache_rest t = cache_rest s
     \<and> cache_obs t = wrote (lg_start (lg s)) (header (lh_n (lg s)) (lh_block (lg s)) (seen s (lg_start (lg s)))) (cache_obs s)"
proof -
  have "length (header (lh_n (lg s)) (lh_block (lg s)) (seen s (lg_start (lg s)))) = BSIZE"
    by (rule header_fields) (use assms(1,2) seen_size [of p s] start_block(1) [OF assms(2)] in \<open>auto simp: idle_def log_fits_def\<close>)
  with bio.modify [of p s "lg_start (lg s)" "header (lh_n (lg s)) (lh_block (lg s))"] assms(1,3) start_block(1) [OF assms(2)] assms(2)
  show ?thesis by (simp add: idle_def write_head_def kmonad log_fits_def header_def)
qed

lemma calm_lg [simp]: "calm p (s\<lparr>lg := l\<rparr>) = calm p s"
  by (simp add: calm_def lock_ok_def cpu_ok_def lock_free_def this_cpu_def cur_def)

lemma bcache_inv_lg [simp]: "bcache_inv (s\<lparr>lg := l\<rparr>) = bcache_inv s" "in_use (s\<lparr>lg := l\<rparr>) = in_use s" "block (s\<lparr>lg := l\<rparr>) = block s"
  by (simp_all add: bcache_inv_def in_use_def fun_eq_iff block_def split: option.split)

lemma cache_lg [simp]:
  "cache_ok p (s\<lparr>lg := l\<rparr>) = cache_ok p s" "held_blocks (s\<lparr>lg := l\<rparr>) = held_blocks s" "seen (s\<lparr>lg := l\<rparr>) = seen s"
  "on_disk (s\<lparr>lg := l\<rparr>) = on_disk s" "pinned_blocks (s\<lparr>lg := l\<rparr>) = pinned_blocks s"
  by (simp_all add: cache_ok_def fun_eq_iff held_blocks_def seen_def on_disk_def pinned_blocks_def)

lemma idle_lg [simp]: "idle p (s\<lparr>lg := l\<rparr>) = idle p s" "cache_obs (s\<lparr>lg := l\<rparr>) = cache_obs s"
  by (simp_all add: idle_def cache_obs_def)

lemma obs_eqD:
  assumes "cache_obs t = v"
  shows "seen t = cv_view v" "on_disk t = cv_disk v" "disk_writes t = cv_writes v" "pinned_blocks t = cv_pinned v" "disksize t = cv_limit v"
  using assms by (auto simp: cache_obs_def)

lemma wrote_simps [simp]:
  "cv_view (wrote n d v) = (cv_view v)(n := d)" "cv_disk (wrote n d v) = (cv_disk v)(n := d)"
  "cv_writes (wrote n d v) = cv_writes v @ [(unat n, d)]" "cv_pinned (wrote n d v) = cv_pinned v - {n}" "cv_limit (wrote n d v) = cv_limit v"
  by (simp_all add: wrote_def)

lemma write_log_run:
  assumes "idle p s" "log_fits (disksize s) (lg s)" "pinned_blocks s = set (take (nat (lh_n (lg s))) (lh_block (lg s)))"
    "lh_n (lg s) < int NBUF"
  shows "\<exists>t. write_log s = Done () t \<and> idle p t \<and> cache_rest t = cache_rest s
     \<and> cache_obs t = fold (\<lambda>i. wrote (log_block (lg s) i) (seen s (lh_block (lg s) ! i))) [0..<nat (lh_n (lg s))] (cache_obs s)"
proof -
  let ?n = "nat (lh_n (lg s))"
  define Q where "Q is u \<longleftrightarrow> idle p u \<and> cache_rest u = cache_rest s \<and> disksize u = disksize s \<and> pinned_blocks u = pinned_blocks s
     \<and> set is \<subseteq> {..<?n} \<and> (\<forall>i < ?n. seen u (lh_block (lg s) ! i) = seen s (lh_block (lg s) ! i))" for "is" u
  have c: "card (pinned_blocks s) < NBUF"
    using card_length [of "take ?n (lh_block (lg s))"] assms(2-4) by (auto simp: log_fits_def)
  have step: "\<exists>t. write_log_one i u = Done () t \<and> Q is t
     \<and> cache_obs t = wrote (log_block (lg s) i) (seen s (lh_block (lg s) ! i)) (cache_obs u)" if q: "Q (i # is) u" for i "is" u
  proof -
    have u: "idle p u" "lg u = lg s" "disksize u = disksize s" "pinned_blocks u = pinned_blocks s" "i < ?n" "cache_rest u = cache_rest s"
      using that lg_rest [of u s] by (auto simp: Q_def)
    note h = home_blocks [OF assms(2)]
    have "lh_block (lg s) ! i \<in> pinned_blocks u"
      using u(4,5) assms(2,3) by (auto simp: log_fits_def in_set_conv_nth intro!: exI [of _ i])
    then obtain t where t: "write_log_one i u = Done () t" "idle p t" "cache_rest t = cache_rest u"
       "cache_obs t = wrote (log_block (lg s) i) (seen u (lh_block (lg s) ! i)) (cache_obs u)"
      using write_log_one_run [OF u(1), of i] u assms(2) c by auto
    have "log_block (lg s) i \<notin> pinned_blocks s" using log_blocks(2) [OF assms(2) h(1) [OF u(5)]] assms(2,3) by (auto simp: log_fits_def)
    then have "Q is t" using that t(2,3) obs_eqD [OF t(4)] h(4) [OF _ h(1) [OF u(5)]] by (auto simp: Q_def)
    then show ?thesis using t(1,4) that u(5) by (auto simp: Q_def)
  qed
  have "Q [0..<?n] s" using assms(1) by (auto simp: Q_def)
  from for_each_writes [of Q write_log_one, OF step this]
  show ?thesis by (auto simp: write_log_def get_log_def kmonad Q_def)
qed

lemma install_trans_run:
  assumes "idle p s" "log_fits (disksize s) (lg s)"
    "pinned_blocks s = set (take (nat (lh_n (lg s))) (lh_block (lg s))) \<and> lh_n (lg s) < int NBUF \<or> pinned_blocks s = {}"
  shows "\<exists>t. install_trans s = Done () t \<and> idle p t \<and> cache_rest t = cache_rest s
     \<and> cache_obs t = fold (\<lambda>i. wrote (lh_block (lg s) ! i) (seen s (log_block (lg s) i))) [0..<nat (lh_n (lg s))] (cache_obs s)"
proof -
  let ?n = "nat (lh_n (lg s))"
  define Q where "Q is u \<longleftrightarrow> idle p u \<and> cache_rest u = cache_rest s \<and> disksize u = disksize s \<and> set is \<subseteq> {..<?n} \<and> distinct is
     \<and> (pinned_blocks u \<subseteq> pinned_blocks s \<and> ((\<forall>i \<in> set is. lh_block (lg s) ! i \<in> pinned_blocks u) \<or> pinned_blocks s = {}))
     \<and> (\<forall>i < ?n. seen u (log_block (lg s) i) = seen s (log_block (lg s) i))" for "is" u
  have c: "card (pinned_blocks s) < NBUF"
    using card_length [of "take ?n (lh_block (lg s))"] assms(2,3) by (auto simp: log_fits_def)
  have step: "\<exists>t. install_one i u = Done () t \<and> Q is t
     \<and> cache_obs t = wrote (lh_block (lg s) ! i) (seen s (log_block (lg s) i)) (cache_obs u)" if q: "Q (i # is) u" for i "is" u
  proof -
    have u: "idle p u" "lg u = lg s" "disksize u = disksize s" "pinned_blocks u \<subseteq> pinned_blocks s" "i < ?n" "cache_rest u = cache_rest s"
      using that lg_rest [of u s] by (auto simp: Q_def)
    note h = home_blocks [OF assms(2)]
    have "card (pinned_blocks u) < NBUF" using card_mono [OF pinned_finite u(4)] c by simp
    then obtain t where t: "install_one i u = Done () t" "idle p t" "cache_rest t = cache_rest u"
       "cache_obs t = wrote (lh_block (lg s) ! i) (seen u (log_block (lg s) i)) (cache_obs u)"
      using install_one_run [OF u(1), of i] u assms(2) q by (auto simp: Q_def)
    have "j \<in> set is \<Longrightarrow> lh_block (lg s) ! j \<noteq> lh_block (lg s) ! i" for j
      using h(6) [OF _ u(5), of j] that by (auto simp: Q_def)
    then have "Q is t" using that t(2,3) obs_eqD [OF t(4)] h(4) [OF u(5) h(1), symmetric] by (auto simp: Q_def)
    then show ?thesis using t(1,4) that u(5) by (auto simp: Q_def)
  qed
  have "Q [0..<?n] s" using assms by (auto simp: Q_def log_fits_def in_set_conv_nth)
  from for_each_writes [of Q install_one, OF step this]
  show ?thesis by (auto simp: install_trans_def get_log_def kmonad Q_def)
qed

end
