(* ===== verification/LogProps.thy ===== *)
theory LogProps
  imports LogRun
begin

text \<open>
  Transactions: commit and recovery under power failure, updates inside a transaction, and the
  reservations of \<open>begin_op\<close>.
\<close>

section \<open>Sequences of disk writes\<close>

definition upds :: "('k \<times> 'v) list \<Rightarrow> ('k \<Rightarrow> 'v) \<Rightarrow> ('k \<Rightarrow> 'v)" where
  "upds ws f = fold (\<lambda>(n, d) f. f(n := d)) ws f"

lemma upds_simps [simp]: "upds [] f = f" "upds ((n, d) # ws) f = upds ws (f(n := d))" "upds (ws @ vs) f = upds vs (upds ws f)"
  by (simp_all add: upds_def)

lemma upds_other [simp]: "n \<notin> fst ` set ws \<Longrightarrow> upds ws f n = f n"
  by (induction ws arbitrary: f) auto

lemma upds_in: "distinct (map fst ws) \<Longrightarrow> (n, d) \<in> set ws \<Longrightarrow> upds ws f n = d"
  by (induction ws arbitrary: f) force+

text \<open>Writing again what a prefix has written already.\<close>

lemma upds_base: "n \<in> fst ` set ws \<Longrightarrow> upds ws f n = upds ws g n"
proof (induction ws arbitrary: f g)
  case (Cons w ws)
  then show ?case by (cases w; cases "n \<in> fst ` set ws") auto
qed simp

lemma upds_again: "upds ws (upds (take k ws) f) = upds ws f"
proof
  fix n
  show "upds ws (upds (take k ws) f) n = upds ws f n"
  proof (cases "n \<in> fst ` set ws")
    case False
    then have "n \<notin> fst ` set (take k ws)" using set_take_subset [of k ws] by blast
    then show ?thesis using False by simp
  qed (rule upds_base)
qed

lemma obs_writes:
  assumes "cache_obs t = fold (\<lambda>i. wrote (dst i) (src i)) is (cache_obs s)"
  defines "ws \<equiv> map (\<lambda>i. (dst i, src i)) is"
  shows "seen t = upds ws (seen s)" "on_disk t = upds ws (on_disk s)" "pinned_blocks t = pinned_blocks s - dst ` set is"
    "disk_writes t = disk_writes s @ map (\<lambda>(n, d). (unat n, d)) ws" "disksize t = disksize s"
proof -
  have "cv_view (fold (\<lambda>i. wrote (dst i) (src i)) is v) = upds ws (cv_view v)"
    "cv_disk (fold (\<lambda>i. wrote (dst i) (src i)) is v) = upds ws (cv_disk v)"
    "cv_pinned (fold (\<lambda>i. wrote (dst i) (src i)) is v) = cv_pinned v - dst ` set is"
    "cv_writes (fold (\<lambda>i. wrote (dst i) (src i)) is v) = cv_writes v @ map (\<lambda>(n, d). (unat n, d)) ws"
    "cv_limit (fold (\<lambda>i. wrote (dst i) (src i)) is v) = cv_limit v" for v
    unfolding ws_def by (induction "is" arbitrary: v) auto
  then show "seen t = upds ws (seen s)" "on_disk t = upds ws (on_disk s)" "pinned_blocks t = pinned_blocks s - dst ` set is"
    "disk_writes t = disk_writes s @ map (\<lambda>(n, d). (unat n, d)) ws" "disksize t = disksize s"
    using obs_eqD [OF assms(1)] by simp_all
qed

lemma obs_write:
  assumes "cache_obs t = wrote n d (cache_obs s)"
  shows "seen t = (seen s)(n := d)" "on_disk t = (on_disk s)(n := d)" "pinned_blocks t = pinned_blocks s - {n}"
    "disk_writes t = disk_writes s @ [(unat n, d)]" "disksize t = disksize s"
  using obs_eqD [OF assms] by simp_all

section \<open>Commit\<close>

definition log_copies :: "'a klog_scheme \<Rightarrow> (uint32 \<times> uint8 list) list" where
  "log_copies s = map (\<lambda>i. (log_block (lg s) i, seen s (lh_block (lg s) ! i))) [0..<nat (lh_n (lg s))]"

definition installs :: "'a klog_scheme \<Rightarrow> (uint32 \<times> uint8 list) list" where
  "installs s = map (\<lambda>i. (lh_block (lg s) ! i, seen s (lh_block (lg s) ! i))) [0..<nat (lh_n (lg s))]"

definition new_header :: "'a klog_scheme \<Rightarrow> uint8 list" where
  "new_header s = header (lh_n (lg s)) (lh_block (lg s)) (seen s (lg_start (lg s)))"

definition commit_writes :: "'a klog_scheme \<Rightarrow> (uint32 \<times> uint8 list) list" where
  "commit_writes s = log_copies s @ [(lg_start (lg s), new_header s)] @ installs s
     @ [(lg_start (lg s), header 0 (lh_block (lg s)) (new_header s))]"

lemma log_fits_same: "log_fits lim l \<Longrightarrow> lg_start l' = lg_start l \<Longrightarrow> lg_dev l' = lg_dev l \<Longrightarrow> lg_size l' = lg_size l \<Longrightarrow> lh_n l' = 0 \<Longrightarrow> length (lh_block l') = LOGSIZE \<Longrightarrow> log_fits lim l'"
  by (simp add: log_fits_def)

lemma log_copies_in:
  assumes "log_fits lim (lg s)" "i < nat (lh_n (lg s))"
  shows "upds (log_copies s) f (log_block (lg s) i) = seen s (lh_block (lg s) ! i)"
proof (rule upds_in)
  show "distinct (map fst (log_copies s))"
    using log_blocks(4) [OF assms(1)] home_blocks(1) [OF assms(1)] by (auto simp: log_copies_def distinct_map inj_on_def comp_def)
  show "(log_block (lg s) i, seen s (lh_block (lg s) ! i)) \<in> set (log_copies s)" using assms(2) by (auto simp: log_copies_def)
qed

lemma log_copies_other:
  assumes "log_fits lim (lg s)" "m \<notin> log_area (lg s) \<or> m = lg_start (lg s)" shows "upds (take k (log_copies s)) f m = f m"
proof -
  have "m \<notin> fst ` set (log_copies s)"
    using log_blocks(2,3) [OF assms(1)] home_blocks(1) [OF assms(1)] assms(2) by (auto simp: log_copies_def)
  then have "m \<notin> fst ` set (take k (log_copies s))" using set_take_subset [of k "log_copies s"] by blast
  then show ?thesis by simp
qed

lemma installs_in:
  assumes "log_fits lim (lg s)" "i < nat (lh_n (lg s))"
  shows "upds (installs s) f (lh_block (lg s) ! i) = seen s (lh_block (lg s) ! i)"
proof (rule upds_in)
  show "distinct (map fst (installs s))"
    using home_blocks(6) [OF assms(1)] by (auto simp: installs_def distinct_map inj_on_def comp_def)
  show "(lh_block (lg s) ! i, seen s (lh_block (lg s) ! i)) \<in> set (installs s)" using assms(2) by (auto simp: installs_def)
qed

lemma installs_other:
  assumes "log_fits lim (lg s)" "m \<notin> set (take (nat (lh_n (lg s))) (lh_block (lg s)))" shows "upds (take k (installs s)) f m = f m"
proof -
  have "m \<notin> fst ` set (installs s)"
    using assms by (auto simp: installs_def log_fits_def in_set_conv_nth)
  then have "m \<notin> fst ` set (take k (installs s))" using set_take_subset [of k "installs s"] by blast
  then show ?thesis by simp
qed

text \<open>A transaction that can be committed: its blocks are the dirty ones.\<close>

definition log_ready :: "nat \<Rightarrow> 'a klog_scheme \<Rightarrow> bool" where
  "log_ready p s \<longleftrightarrow> idle p s \<and> log_fits (disksize s) (lg s) \<and> lh_n (lg s) < int NBUF
     \<and> pinned_blocks s = set (take (nat (lh_n (lg s))) (lh_block (lg s)))"

lemma log_readyD:
  assumes "log_ready p s"
  shows "idle p s" "log_fits (disksize s) (lg s)" "lh_n (lg s) < int NBUF" "0 \<le> lh_n (lg s)"
    "pinned_blocks s = set (take (nat (lh_n (lg s))) (lh_block (lg s)))" "card (pinned_blocks s) < NBUF"
  using assms card_length [of "take (nat (lh_n (lg s))) (lh_block (lg s))"] by (auto simp: log_ready_def log_fits_def)

lemma pinned_unlogged:
  assumes "log_ready p s" shows "pinned_blocks s - (log_block (lg s)) ` {..<nat (lh_n (lg s))} - {lg_start (lg s)} = pinned_blocks s"
proof -
  note r = log_readyD [OF assms]
  have "pinned_blocks s \<inter> log_area (lg s) = {}" using r(2,5) by (auto simp: log_fits_def)
  moreover have "log_block (lg s) ` {..<nat (lh_n (lg s))} \<subseteq> log_area (lg s)"
    using log_blocks(2) [OF r(2)] home_blocks(1) [OF r(2)] by auto
  ultimately show ?thesis using start_block(2) [OF r(2)] by blast
qed

lemma log_written:
  assumes "log_ready p s"
  shows "\<exists>t. kseq write_log write_head s = Done () t \<and> idle p t \<and> cache_rest t = cache_rest s
     \<and> seen t = upds (log_copies s @ [(lg_start (lg s), new_header s)]) (seen s)
     \<and> on_disk t = upds (log_copies s @ [(lg_start (lg s), new_header s)]) (on_disk s)
     \<and> disk_writes t = disk_writes s @ map (\<lambda>(n, d). (unat n, d)) (log_copies s @ [(lg_start (lg s), new_header s)])
     \<and> pinned_blocks t = pinned_blocks s \<and> disksize t = disksize s"
proof -
  note r = log_readyD [OF assms]
  obtain t where t: "write_log s = Done () t" "idle p t" "cache_rest t = cache_rest s"
      "cache_obs t = fold (\<lambda>i. wrote (log_block (lg s) i) (seen s (lh_block (lg s) ! i))) [0..<nat (lh_n (lg s))] (cache_obs s)"
    using write_log_run [OF r(1,2,5,3)] by blast
  note o = obs_writes [OF t(4), folded log_copies_def]
  have l: "lg t = lg s" by (rule lg_rest [OF t(3)])
  have "pinned_blocks t \<subseteq> pinned_blocks s" using o(3) by auto
  then have c: "card (pinned_blocks t) < NBUF" using card_mono [OF pinned_finite [of s]] r(6) by (meson order_le_less_trans)
  have h: "seen t (lg_start (lg s)) = seen s (lg_start (lg s))" using log_copies_other [OF r(2), of _ "nat (lh_n (lg s))"] o(1) by (simp add: log_copies_def)
  obtain u where u: "write_head t = Done () u" "idle p u" "cache_rest u = cache_rest t"
      "cache_obs u = wrote (lg_start (lg s)) (new_header s) (cache_obs t)"
    using write_head_run [OF t(2) _ c] r(2) l o(5) h by (auto simp: new_header_def)
  note q = obs_write [OF u(4)]
  show ?thesis using t(1,3) u(1-3) q o pinned_unlogged [OF assms] by (simp add: kmonad atLeast0LessThan)
qed

lemma commit_run:
  assumes "log_ready p s" "0 < lh_n (lg s)"
  shows "\<exists>t. commit s = Done () t \<and> idle p t \<and> lg t = (lg s)\<lparr>lh_n := 0\<rparr> \<and> pinned_blocks t = {} \<and> disksize t = disksize s
     \<and> disk_writes t = disk_writes s @ map (\<lambda>(n, d). (unat n, d)) (commit_writes s) \<and> on_disk t = upds (commit_writes s) (on_disk s)"
proof -
  note r = log_readyD [OF assms(1)]
  obtain t where t: "kseq write_log write_head s = Done () t" "idle p t" "cache_rest t = cache_rest s"
     "seen t = upds (log_copies s @ [(lg_start (lg s), new_header s)]) (seen s)"
     "on_disk t = upds (log_copies s @ [(lg_start (lg s), new_header s)]) (on_disk s)"
     "disk_writes t = disk_writes s @ map (\<lambda>(n, d). (unat n, d)) (log_copies s @ [(lg_start (lg s), new_header s)])"
     "pinned_blocks t = pinned_blocks s" "disksize t = disksize s" using log_written [OF assms(1)] by blast
  have l: "lg t = lg s" by (rule lg_rest [OF t(3)])
  obtain u where u: "install_trans t = Done () u" "idle p u" "cache_rest u = cache_rest t"
      "cache_obs u = fold (\<lambda>i. wrote (lh_block (lg s) ! i) (seen t (log_block (lg s) i))) [0..<nat (lh_n (lg s))] (cache_obs t)"
    using install_trans_run [OF t(2)] r(2,3,5) l t(7,8) by auto
  have "map (\<lambda>i. (lh_block (lg s) ! i, seen t (log_block (lg s) i))) [0..<nat (lh_n (lg s))] = installs s"
    using log_copies_in [OF r(2)] log_blocks(3) [OF r(2)] home_blocks(1) [OF r(2)] by (simp add: installs_def t(4))
  note o = obs_writes [OF u(4), unfolded this]
  let ?u = "u\<lparr>lg := (lg u)\<lparr>lh_n := 0\<rparr>\<rparr>"
  have lu: "lg u = lg s" using lg_rest [OF u(3)] l by simp
  have d: "pinned_blocks u = {}" using o(3) t(7) r(5) by (auto simp: in_set_conv_nth)
  have "seen u (lg_start (lg s)) = new_header s"
    using installs_other [OF r(2), of "lg_start (lg s)" "nat (lh_n (lg s))"] r(2) start_block(2) [OF r(2)] o(1) t(4)
    by (auto simp: log_fits_def installs_def)
  then obtain v where v: "write_head ?u = Done () v" "idle p v" "cache_rest v = cache_rest ?u"
      "cache_obs v = wrote (lg_start (lg s)) (header 0 (lh_block (lg s)) (new_header s)) (cache_obs u)"
    using write_head_run [of p ?u] u(2) log_fits_same [OF r(2)] r(2) lu d o(5) t(8) by (auto simp: log_fits_def)
  have lv: "lg v = (lg s)\<lparr>lh_n := 0\<rparr>" using lg_rest [OF v(3)] lu by simp
  have "commit s = Done () v"
    using assms(2) t(1) u(1) v(1) lu by (auto simp: commit_def get_log_def upd_log_def kmonad split: outcome.splits)
  then show ?thesis using obs_write [OF v(4)] o t(5-8) d v(2) lv by (auto simp: commit_writes_def)
qed

section \<open>Recovery\<close>

lemma read_head_run:
  assumes "idle p s" "lg_dev (lg s) = 1" "lg_start (lg s) < disksize s" "card (pinned_blocks s) < NBUF"
    "sint (get32 (seen s (lg_start (lg s))) 0) = n" "n \<le> int LOGSIZE"
  shows "\<exists>t. read_head s = Done () t \<and> idle p t \<and> cache_obs t = cache_obs s
     \<and> lg t = (lg s)\<lparr>lh_n := n, lh_block := get32s (seen s (lg_start (lg s))) 4 (nat n) @ drop (nat n) (lh_block (lg s))\<rparr>"
proof -
  let ?l = "(lg s)\<lparr>lh_n := n, lh_block := get32s (seen s (lg_start (lg s))) 4 (nat n) @ drop (nat n) (lh_block (lg s))\<rparr>"
  obtain b t where t: "bread 1 (lg_start (lg s)) s = Done b t" "cache_ok p t" "held_blocks t = [b \<mapsto> lg_start (lg s)]"
      "cache_obs t = cache_obs s" "cache_rest t = cache_rest s"
    using bio.read_law [of p s "lg_start (lg s)"] assms(1,3,4) by (auto simp: idle_def)
  have l: "lg t = lg s" by (rule lg_rest [OF t(5)])
  note o = obs_eqD [OF t(4)]
  have "lg_start (lg s) \<in> pinned_blocks t \<or> seen t (lg_start (lg s)) = on_disk t (lg_start (lg s))"
    using clean_ok [of p s "lg_start (lg s)"] assms(1) o by (auto simp: idle_def)
  then obtain u where "brelse b (t\<lparr>lg := ?l\<rparr>) = Done () u" "cache_ok p u" "held_blocks u = Map.empty" "cache_obs u = cache_obs t"
     "cache_rest u = cache_rest (t\<lparr>lg := ?l\<rparr>)"
    using bio.release_law [of p "t\<lparr>lg := ?l\<rparr>" b "lg_start (lg s)"] t(2,3) by auto
  then show ?thesis
    using get_data_ok [OF t(2), of b "lg_start (lg s)"] t lg_rest [of u "t\<lparr>lg := ?l\<rparr>"] l o assms(2,5,6)
    by (auto simp: read_head_def kmonad upd_log_def Let_def idle_def)
qed

lemma recover_run:
  assumes "idle p s" "pinned_blocks s = {}" "log_fits (disksize s) l" "lg_dev (lg s) = 1"
    "l = (lg s)\<lparr>lh_n := n, lh_block := get32s (seen s (lg_start (lg s))) 4 (nat n) @ drop (nat n) (lh_block (lg s))\<rparr>"
    "sint (get32 (seen s (lg_start (lg s))) 0) = n"
  shows "\<exists>t. recover_from_log s = Done () t \<and> on_disk t =
     (upds (map (\<lambda>i. (lh_block l ! i, on_disk s (log_block l i))) [0..<nat n]) (on_disk s))
       (lg_start l := on_disk t (lg_start l)) \<and> disksize t = disksize s"
proof -
  have n: "n \<le> int LOGSIZE" "lg_start (lg s) < disksize s" "n = lh_n l" "lg_start l = lg_start (lg s)"
    using assms(3,5) start_block(1) [OF assms(3)] by (auto simp: log_fits_def)
  obtain t where t: "read_head s = Done () t" "idle p t" "cache_obs t = cache_obs s" "lg t = l"
    using read_head_run [OF assms(1,4) n(2) _ assms(6) n(1)] assms(2,5) by auto
  note o = obs_eqD [OF t(3), simplified]
  obtain u where u: "install_trans t = Done () u" "idle p u" "cache_rest u = cache_rest t"
      "cache_obs u = fold (\<lambda>i. wrote (lh_block l ! i) (seen t (log_block l i))) [0..<nat n] (cache_obs t)"
    using install_trans_run [OF t(2)] assms(2,3) o n(3) by (auto simp: t(4))
  have c: "seen t m = on_disk s m" for m
    using clean_ok [of p s m] assms(1,2) o by (auto simp: idle_def)
  note q = obs_writes [OF u(4)]
  let ?u = "u\<lparr>lg := (lg u)\<lparr>lh_n := 0\<rparr>\<rparr>"
  have lu: "lg u = l" using lg_rest [OF u(3)] t(4) by simp
  obtain v where v: "write_head ?u = Done () v"
      "cache_obs v = wrote (lg_start l) (header 0 (lh_block l) (seen u (lg_start l))) (cache_obs u)"
    using write_head_run [of p ?u] u(2) log_fits_same [OF assms(3)] assms(2,3) lu q o by (auto simp: log_fits_def)
  have "recover_from_log s = Done () v"
    using t(1) u(1) v(1) by (simp add: recover_from_log_def upd_log_def kmonad)
  then show ?thesis using obs_write [OF v(2)] q o c by (auto simp: fun_eq_iff)
qed

section \<open>Power failures\<close>

definition disk_after :: "(nat \<times> uint8 list) list \<Rightarrow> uint8 list list \<Rightarrow> uint8 list list" where
  "disk_after ws d = fold (\<lambda>(n, x) d. d[n := x]) ws d"

text \<open>The state in which \<open>initlog\<close> starts recovery on a disk that got only the writes \<open>ws\<close>.\<close>

definition rebooted :: "nat \<Rightarrow> 'a klog_scheme \<Rightarrow> (nat \<times> uint8 list) list \<Rightarrow> 'a klog_scheme \<Rightarrow> bool" where
  "rebooted p s ws u \<longleftrightarrow> idle p u \<and> pinned_blocks u = {} \<and> disksize u = disksize s \<and> memdisk u = disk_after ws (memdisk s)
     \<and> lg_start (lg u) = lg_start (lg s) \<and> lg_size (lg u) = lg_size (lg s) \<and> lg_dev (lg u) = 1 \<and> length (lh_block (lg u)) = LOGSIZE"

definition disk_fun :: "uint32 \<Rightarrow> uint8 list list \<Rightarrow> uint32 \<Rightarrow> uint8 list" where
  "disk_fun lim md m = (if m < lim then md ! unat m else [])"

lemma disk_after_upds:
  assumes "\<forall>(n, d) \<in> set ws. n < lim" "length md = unat lim"
  shows "disk_fun lim (disk_after (map (\<lambda>(n, d). (unat n, d)) ws) md) = upds ws (disk_fun lim md)"
  using assms
proof (induction ws arbitrary: md)
  case (Cons w ws)
  obtain n d where w: "w = (n, d)" by (cases w)
  have "disk_fun lim (md[unat n := d]) = (disk_fun lim md)(n := d)"
    using Cons.prems w by (auto simp: disk_fun_def fun_eq_iff nth_list_update word_less_nat_alt word_unat_eq_iff)
  then show ?case using Cons.IH [of "md[unat n := d]"] Cons.prems w by (simp add: disk_after_def fun_upd_def)
qed (simp add: disk_after_def)

lemma on_disk_fun: "on_disk s = disk_fun (disksize s) (memdisk s)"
  by (auto simp: on_disk_def disk_fun_def)

lemma on_disk_after:
  assumes "rebooted p s (map (\<lambda>(n, d). (unat n, d)) ws) u" "\<forall>(n, d) \<in> set ws. n < disksize s" "length (memdisk s) = unat (disksize s)"
  shows "on_disk u = upds ws (on_disk s)"
  using disk_after_upds [OF assms(2,3)] assms(1) by (simp add: on_disk_fun rebooted_def)

lemma commit_writes_range:
  assumes "log_fits (disksize s) (lg s)" "(n, d) \<in> set (commit_writes s)" shows "n < disksize s"
  using assms(2) log_blocks(1) [OF assms(1)] home_blocks(1,2) [OF assms(1)] start_block(1) [OF assms(1)]
  by (auto simp: commit_writes_def log_copies_def installs_def)

lemma new_disk:
  assumes "log_ready p s" "m \<notin> log_area (lg s)"
  shows "upds (installs s) (upds (log_copies s @ [(lg_start (lg s), h)]) (on_disk s)) m = seen s m"
proof -
  note r = log_readyD [OF assms(1)]
  let ?n = "nat (lh_n (lg s))"
  have a: "upds (log_copies s @ [(lg_start (lg s), h)]) (on_disk s) m = on_disk s m"
    using log_copies_other [OF r(2), of m "length (log_copies s)"] assms(2) start_block(2) [OF r(2)] by auto
  show ?thesis
  proof (cases "m \<in> set (take ?n (lh_block (lg s)))")
    case True
    then obtain i where "i < ?n" "m = lh_block (lg s) ! i" by (auto simp: in_set_conv_nth)
    then show ?thesis using installs_in [OF r(2)] by simp
  next
    case False
    then show ?thesis
      using a installs_other [OF r(2) False, of "length (installs s)"] clean_ok [of p s m] r(1,5) by (simp add: idle_def)
  qed
qed

lemma recover_none:
  assumes "rebooted p s ws u" "log_fits (disksize s) (lg s)" "sint (get32 (on_disk u (lg_start (lg s))) 0) = 0"
  shows "\<exists>v. recover_from_log u = Done () v \<and> disksize v = disksize s \<and> (\<forall>m. m \<notin> log_area (lg s) \<longrightarrow> on_disk v m = on_disk u m)"
proof -
  note r = assms(1) [unfolded rebooted_def]
  let ?l = "(lg u)\<lparr>lh_n := 0, lh_block := get32s (seen u (lg_start (lg u))) 4 0 @ lh_block (lg u)\<rparr>"
  have "log_fits (disksize u) ?l"
    using log_fits_same [OF assms(2), of ?l] r assms(2) by (simp add: log_fits_def get32s_def)
  moreover have "sint (get32 (seen u (lg_start (lg u))) 0) = 0"
    using clean_ok [of p u "lg_start (lg s)"] r assms(3) by (auto simp: idle_def)
  ultimately have "\<exists>v. recover_from_log u = Done () v \<and> on_disk v = (on_disk u) (lg_start ?l := on_disk v (lg_start ?l)) \<and> disksize v = disksize u"
    using recover_run [of p u ?l 0] r by (auto simp: idle_def)
  then obtain v where v: "recover_from_log u = Done () v" "disksize v = disksize u" "on_disk v = (on_disk u) (lg_start ?l := on_disk v (lg_start ?l))" by blast
  have "on_disk v m = on_disk u m" if "m \<notin> log_area (lg s)" for m
    using fun_cong [OF v(3), of m] that start_block(2) [OF assms(2)] r by (auto split: if_splits)
  then show ?thesis using v(1,2) r by auto
qed

text \<open>The header on disk names the transaction: recovery installs it.\<close>

lemma recover_committed:
  assumes "rebooted p s ws u" "log_ready p s" "on_disk u (lg_start (lg s)) = new_header s"
    "\<And>i. i < nat (lh_n (lg s)) \<Longrightarrow> on_disk u (log_block (lg s) i) = seen s (lh_block (lg s) ! i)"
  shows "\<exists>v. recover_from_log u = Done () v \<and> disksize v = disksize s \<and> (\<forall>m. m \<notin> log_area (lg s) \<longrightarrow> on_disk v m = upds (installs s) (on_disk u) m)"
proof -
  note r = assms(1) [unfolded rebooted_def] and s = log_readyD [OF assms(2)]
  let ?n = "lh_n (lg s)"
  have len: "length (seen s (lg_start (lg s))) = BSIZE"
    using seen_size [of p s "lg_start (lg s)"] s(1) start_block(1) [OF s(2)] by (simp add: idle_def)
  note h = header_fields [OF len s(4), of "lh_block (lg s)", folded new_header_def]
  have hd: "seen u (lg_start (lg u)) = new_header s" using clean_ok [of p u "lg_start (lg s)"] r assms(3) by (auto simp: idle_def)
  let ?l = "(lg u)\<lparr>lh_n := ?n, lh_block := get32s (seen u (lg_start (lg u))) 4 (nat ?n) @ drop (nat ?n) (lh_block (lg u))\<rparr>"
  have n: "?n \<le> int LOGSIZE" "nat ?n \<le> length (lh_block (lg s))" using s(2) by (auto simp: log_fits_def)
  have b: "take (nat ?n) (lh_block ?l) = take (nat ?n) (lh_block (lg s))" using hd h(3) n by simp
  have "log_area ?l = log_area (lg s)" using r by (simp add: log_area_def)
  then have "log_fits (disksize u) ?l" using s(2) r b n hd h(3) by (auto simp: log_fits_def)
  moreover have "sint (get32 (seen u (lg_start (lg u))) 0) = ?n" using hd h(2) n by simp
  ultimately have "\<exists>v. recover_from_log u = Done () v \<and> disksize v = disksize u \<and> on_disk v =
     (upds (map (\<lambda>i. (lh_block ?l ! i, on_disk u (log_block ?l i))) [0..<nat ?n]) (on_disk u)) (lg_start ?l := on_disk v (lg_start ?l))"
    using recover_run [of p u ?l ?n] r by (auto simp: idle_def)
  moreover have "map (\<lambda>i. (lh_block ?l ! i, on_disk u (log_block ?l i))) [0..<nat ?n] = installs s"
  proof -
    have "lh_block ?l ! i = lh_block (lg s) ! i" if "i < nat ?n" for i using nth_take [OF that] b by metis
    moreover have "log_block ?l i = log_block (lg s) i" for i using r by (simp add: log_block_def)
    ultimately show ?thesis using assms(4) by (simp add: installs_def)
  qed
  ultimately obtain v where v: "recover_from_log u = Done () v" "disksize v = disksize u"
    "on_disk v = (upds (installs s) (on_disk u)) (lg_start ?l := on_disk v (lg_start ?l))" by auto
  have "on_disk v m = upds (installs s) (on_disk u) m" if "m \<notin> log_area (lg s)" for m
    using fun_cong [OF v(3), of m] that start_block(2) [OF s(2)] r by (auto split: if_splits)
  then show ?thesis using v(1,2) r by auto
qed

lemma take_middle: "length a = n \<Longrightarrow> j \<le> length b \<Longrightarrow> take (n + 1 + j) (a @ [x] @ b @ c) = (a @ [x]) @ take j b"
  by simp

lemma crash_run:
  assumes "log_ready p s" "sint (get32 (on_disk s (lg_start (lg s))) 0) = 0" "k \<le> length (commit_writes s)"
    "rebooted p s (map (\<lambda>(n, d). (unat n, d)) (take k (commit_writes s))) u"
  shows "\<exists>v. recover_from_log u = Done () v \<and> disksize v = disksize s \<and> (\<forall>m. m \<notin> log_area (lg s) \<longrightarrow>
     on_disk v m = (if k \<le> nat (lh_n (lg s)) then on_disk s m else seen s m))"
proof -
  note r = log_readyD [OF assms(1)]
  let ?n = "nat (lh_n (lg s))" and ?h = "(lg_start (lg s), new_header s)" and ?z = "(lg_start (lg s), header 0 (lh_block (lg s)) (new_header s))"
  have len: "length (log_copies s) = ?n" "length (installs s) = ?n" by (simp_all add: log_copies_def installs_def)
  have d: "on_disk u = upds (take k (commit_writes s)) (on_disk s)"
  proof (rule on_disk_after [OF assms(4)])
    show "\<forall>(n, d) \<in> set (take k (commit_writes s)). n < disksize s"
      using commit_writes_range [OF r(2)] by (auto dest: in_set_takeD)
    show "length (memdisk s) = unat (disksize s)" using bcache_invD(3) cache_okD(1) r(1) by (auto simp: idle_def)
  qed
  consider "k \<le> ?n" | j where "k = ?n + 1 + j" "j \<le> ?n" | "k = 2 * ?n + 2"
  proof -
    have "k \<le> 2 * ?n + 2" using assms(3) len by (simp add: commit_writes_def)
    then show thesis using that(1) that(2) [of "k - ?n - 1"] that(3) by linarith
  qed
  then show ?thesis
  proof cases
    case 1
    then have "take k (commit_writes s) = take k (log_copies s)" by (simp add: commit_writes_def len)
    then have "on_disk u m = on_disk s m" if "m \<notin> log_area (lg s) \<or> m = lg_start (lg s)" for m
      using log_copies_other [OF r(2) that] d by simp
    then show ?thesis using recover_none [OF assms(4) r(2)] assms(2) 1 by auto
  next
    case (2 j)
    have t: "take k (commit_writes s) = (log_copies s @ [?h]) @ take j (installs s)"
      unfolding commit_writes_def 2(1) by (rule take_middle) (use len 2(2) in simp_all)
    have o: "on_disk u m = upds (log_copies s @ [?h]) (on_disk s) m" if "m \<in> log_area (lg s)" for m
      using installs_other [OF r(2), of m j] that r(2) unfolding d t by (auto simp: log_fits_def)
    have "on_disk u (lg_start (lg s)) = new_header s" using o [OF start_block(2) [OF r(2)]] by simp
    moreover have "on_disk u (log_block (lg s) i) = seen s (lh_block (lg s) ! i)" if "i < ?n" for i
      using o [OF log_blocks(2) [OF r(2)], of i] home_blocks(1) [OF r(2) that] log_copies_in [OF r(2) that] log_blocks(3) [OF r(2)] by simp
    moreover have "upds (installs s) (on_disk u) = upds (installs s) (upds (log_copies s @ [?h]) (on_disk s))"
      unfolding d t upds_simps(3) [of _ "take j (installs s)"] by (rule upds_again)
    ultimately show ?thesis using recover_committed [OF assms(4,1)] new_disk [OF assms(1), of _ "new_header s"] 2 by auto
  next
    case 3
    have t: "take k (commit_writes s) = (log_copies s @ [?h]) @ installs s @ [?z]" using 3 by (simp add: commit_writes_def len)
    have len: "length (seen s (lg_start (lg s))) = BSIZE"
      using seen_size [of p s "lg_start (lg s)"] r(1) start_block(1) [OF r(2)] by (simp add: idle_def)
    have "length (new_header s) = BSIZE"
      using header_fields(1) [OF len r(4), of "lh_block (lg s)"] r(2) by (auto simp: new_header_def log_fits_def)
    then have "sint (get32 (on_disk u (lg_start (lg s))) 0) = 0"
      using header_fields(2) [of "new_header s" 0 "lh_block (lg s)"] by (simp add: d t)
    moreover have "on_disk u m = seen s m" if "m \<notin> log_area (lg s)" for m
      using new_disk [OF assms(1) that, of "new_header s"] that start_block(2) [OF r(2)] by (auto simp: d t)
    ultimately show ?thesis using recover_none [OF assms(4) r(2)] 3 by auto
  qed
qed

lemma in_range_block: "m < disksize s \<Longrightarrow> on_disk s m = memdisk s ! unat m" "m < disksize s \<Longrightarrow> seen s m = block s m"
  by (simp_all add: on_disk_def seen_def)

text \<open>C1. Commits are atomic and durable. \<open>commit\<close> returns and leaves the new contents of the blocks of the
  transaction on disk. If power fails after any number \<open>k\<close> of its disk writes, \<open>recover_from_log\<close> returns
  too, and every block outside the log then has its old contents if the header had not been written
  (\<open>k\<close> at most the number of blocks), and its new contents otherwise.\<close>

theorem commit_crash_safe:
  assumes "log_ready p s" "sint (get32 (memdisk s ! unat (lg_start (lg s))) 0) = 0"
  shows "\<exists>t ws. commit s = Done () t \<and> disk_writes t = disk_writes s @ ws
     \<and> (\<forall>m < disksize s. m \<notin> log_area (lg s) \<longrightarrow> memdisk t ! unat m = block s m)
     \<and> (\<forall>k \<le> length ws. \<forall>u. rebooted p s (take k ws) u \<longrightarrow> (\<exists>v. recover_from_log u = Done () v
        \<and> (\<forall>m < disksize s. m \<notin> log_area (lg s) \<longrightarrow>
             memdisk v ! unat m = (if k \<le> nat (lh_n (lg s)) then memdisk s ! unat m else block s m))))"
proof -
  note r = log_readyD [OF assms(1)]
  have h: "sint (get32 (on_disk s (lg_start (lg s))) 0) = 0"
    using assms(2) in_range_block(1) [OF start_block(1) [OF r(2)]] by simp
  let ?w = "\<lambda>k. map (\<lambda>(n, d). (unat n, d)) (take k (commit_writes s))"
  have c: "\<exists>v. recover_from_log u = Done () v \<and> (\<forall>m < disksize s. m \<notin> log_area (lg s) \<longrightarrow>
      memdisk v ! unat m = (if k \<le> nat (lh_n (lg s)) then memdisk s ! unat m else block s m))"
    if ku: "k \<le> length (commit_writes s)" "rebooted p s (?w k) u" for k u
  proof -
    obtain v where v: "recover_from_log u = Done () v" "disksize v = disksize s"
      "\<And>m. m \<notin> log_area (lg s) \<Longrightarrow> on_disk v m = (if k \<le> nat (lh_n (lg s)) then on_disk s m else seen s m)"
      using crash_run [OF assms(1) h ku] by blast
    have "memdisk v ! unat m = (if k \<le> nat (lh_n (lg s)) then memdisk s ! unat m else block s m)"
      if "m < disksize s" "m \<notin> log_area (lg s)" for m
      using v(3) [OF that(2)] that(1) v(2) by (simp add: in_range_block split: if_splits)
    then show ?thesis using v(1) by blast
  qed
  show ?thesis
  proof (cases "lh_n (lg s) = 0")
    case True
    have "memdisk s ! unat m = block s m" if "m < disksize s" for m
      using clean_ok [of p s m] r(1,5) True that by (simp add: idle_def in_range_block)
    then show ?thesis using c [of 0] True by (intro exI [of _ s] exI [of _ "[]"]) (auto simp: commit_def get_log_def kmonad)
  next
    case False
    then obtain t where t: "commit s = Done () t" "disksize t = disksize s"
      "disk_writes t = disk_writes s @ map (\<lambda>(n, d). (unat n, d)) (commit_writes s)" "on_disk t = upds (commit_writes s) (on_disk s)"
      using commit_run [OF assms(1)] r(4) by force
    have "memdisk t ! unat m = block s m" if "m < disksize s" "m \<notin> log_area (lg s)" for m
      using new_disk [OF assms(1) that(2), of "new_header s"] that start_block(2) [OF r(2)] t(2,4)
      by (auto simp: in_range_block(2)[symmetric] in_range_block(1)[of m t, symmetric] commit_writes_def)
    then show ?thesis using t(1,3) c
      by (intro exI [of _ t] exI [of _ "map (\<lambda>(n, d). (unat n, d)) (commit_writes s)"]) (auto simp: take_map)
  qed
qed

section \<open>Logging a block\<close>

definition log_add :: "uint32 \<Rightarrow> log \<Rightarrow> log" where
  "log_add n l = (if int (log_slot n l) = lh_n l then l\<lparr>lh_block := (lh_block l)[log_slot n l := n], lh_n := lh_n l + 1\<rparr>
     else l\<lparr>lh_block := (lh_block l)[log_slot n l := n]\<rparr>)"

lemma log_write_run:
  assumes "lock_ok L_log s" "lh_n (lg s) < int LOGSIZE" "lh_n (lg s) < lg_size (lg s) - 1" "1 \<le> lg_outstanding (lg s)"
  shows "log_write b s = Done () (s\<lparr>lg := log_add (b_blockno (bcache s ! b)) (lg s),
     bcache := (bcache s)[b := (bcache s ! b)\<lparr>b_flags := b_flags (bcache s ! b) OR B_DIRTY\<rparr>]\<rparr>)"
proof -
  have e: "lg (entered L_log s) = lg s" by (simp add: entered_def Let_def)
  have "release L_log ((entered L_log s)\<lparr>lg := l, bcache := c\<rparr>) = Done () (s\<lparr>lg := l, bcache := c\<rparr>)" for l c
    using release_entered [OF assms(1), of "(entered L_log s)\<lparr>lg := l, bcache := c\<rparr>"] by (simp add: entered_def Let_def)
  then show ?thesis
    using assms(2-4) by (simp add: log_write_def kmonad acquire_entered [OF assms(1)] get_buf_def get_log_def upd_log_def upd_buf_def e log_add_def)
qed

lemma log_add_fields [simp]:
  "lg_start (log_add n l) = lg_start l" "lg_size (log_add n l) = lg_size l" "lg_dev (log_add n l) = lg_dev l"
  "lg_outstanding (log_add n l) = lg_outstanding l" "length (lh_block (log_add n l)) = length (lh_block l)" "log_area (log_add n l) = log_area l"
  by (simp_all add: log_add_def log_area_def)

lemma log_add_old:
  assumes "log_fits lim l" "n \<in> set (take (nat (lh_n l)) (lh_block l))" shows "log_add n l = l"
proof -
  obtain i where i: "find_index (\<lambda>b. b = n) (take (nat (lh_n l)) (lh_block l)) = Some i"
    using assms(2) find_index_None [of "\<lambda>b. b = n"] by (metis not_Some_eq)
  note f = find_index_Some [OF i]
  have "i < nat (lh_n l)" "lh_block l ! i = n" using f(1,2) by auto
  then show ?thesis using i by (simp add: log_add_def log_slot_def list_update_same_conv [THEN iffD2] list_update_id)
      (metis list_update_id log.surjective log.update_convs(7))
qed

lemma log_add_new:
  assumes "log_fits lim l" "lh_n l < int LOGSIZE" "n \<notin> set (take (nat (lh_n l)) (lh_block l))"
  shows "lh_n (log_add n l) = lh_n l + 1" "take (nat (lh_n l + 1)) (lh_block (log_add n l)) = take (nat (lh_n l)) (lh_block l) @ [n]"
proof -
  have n: "0 \<le> lh_n l" "nat (lh_n l) < length (lh_block l)" using assms by (auto simp: log_fits_def)
  have "find_index (\<lambda>b. b = n) (take (nat (lh_n l)) (lh_block l)) = None" using assms(3) by (auto simp: find_index_None)
  then have s: "log_slot n l = nat (lh_n l)" by (simp add: log_slot_def)
  show "lh_n (log_add n l) = lh_n l + 1" using s n(1) by (simp add: log_add_def)
  show "take (nat (lh_n l + 1)) (lh_block (log_add n l)) = take (nat (lh_n l)) (lh_block l) @ [n]"
    using s n by (simp add: log_add_def nat_add_distrib take_Suc_conv_app_nth)
qed

lemma log_add_ok:
  assumes "log_fits lim l" "lh_n l < lg_size l - 1" "lh_n l < int LOGSIZE" "n < lim" "n \<notin> log_area l"
  shows "log_fits lim (log_add n l)"
    "set (take (nat (lh_n (log_add n l))) (lh_block (log_add n l))) = insert n (set (take (nat (lh_n l)) (lh_block l)))"
    "lh_n (log_add n l) = lh_n l + (if n \<in> set (take (nat (lh_n l)) (lh_block l)) then 0 else 1)"
proof -
  let ?goals = "log_fits lim (log_add n l) \<and> set (take (nat (lh_n (log_add n l))) (lh_block (log_add n l))) = insert n (set (take (nat (lh_n l)) (lh_block l)))
    \<and> lh_n (log_add n l) = lh_n l + (if n \<in> set (take (nat (lh_n l)) (lh_block l)) then 0 else 1)"
  have ?goals
  proof (cases "n \<in> set (take (nat (lh_n l)) (lh_block l))")
    case True
    then show ?thesis using log_add_old [OF assms(1) True] assms(1) by (auto simp: insert_absorb)
  next
    case False
    show ?thesis using log_add_new [OF assms(1,3) False] assms False by (auto simp: log_fits_def)
  qed
  then show "log_fits lim (log_add n l)"
    "set (take (nat (lh_n (log_add n l))) (lh_block (log_add n l))) = insert n (set (take (nat (lh_n l)) (lh_block l)))"
    "lh_n (log_add n l) = lh_n l + (if n \<in> set (take (nat (lh_n l)) (lh_block l)) then 0 else 1)" by blast+
qed

lemma buf_flag_or: "(x OR 4 :: uint32) AND 2 = x AND 2" "(x OR 4 :: uint32) AND 4 = 4"
  by (simp_all add: and_flag)

lemma mark_dirty:
  assumes "cache_ok p s" "held_blocks s b = Some n"
  defines "t \<equiv> s\<lparr>bcache := (bcache s)[b := (bcache s ! b)\<lparr>b_flags := b_flags (bcache s ! b) OR B_DIRTY\<rparr>]\<rparr>"
  shows "cache_ok p t" "held_blocks t = held_blocks s" "pinned_blocks t = insert n (pinned_blocks s)" "seen t = seen s" "on_disk t = on_disk s"
proof -
  note inv = cache_okD [OF assms(1)] and h = heldD [OF assms(2)]
  note v = inv(3) [OF h(1,2)]
  note w = valid_block [OF inv(1) h(1) v]
  let ?x = "(bcache s ! b)\<lparr>b_flags := b_flags (bcache s ! b) OR B_DIRTY\<rparr>"
  let ?k = "sleeplocks s (S_buf b)"
  have l: "b < length (bcache s)" using h(1) bcache_invD(2) [OF inv(1)] by simp
  have n: "bcache t ! i = (if i = b then ?x else bcache s ! i)" for i using l by (simp add: t_def nth_list_update)
  have u: "in_use t i = in_use s i" for i by (simp add: t_def in_use_def)
  have t: "t = s\<lparr>bcache := (bcache s)[b := ?x], sleeplocks := (sleeplocks s)(S_buf b := \<lparr>slk_locked = slk_locked ?k, slk_pid = slk_pid ?k\<rparr>)\<rparr>"
    unfolding t_def by simp
  have bi: "bcache_inv t" unfolding t
  proof (rule bcache_inv_buf [OF inv(1) h(1)])
    show "buf_ok (memdisk s) (slk_locked ?k \<noteq> 0) ?x"
      using bcache_invD(5) [OF inv(1) h(1)] v h(2) by (auto simp: buf_ok_def buf_flag_or in_use_def)
    show "b_dev ?x \<noteq> 0 \<Longrightarrow> \<forall>j < NBUF. j \<noteq> b \<longrightarrow> \<not> (b_dev (bcache s ! j) = b_dev ?x \<and> b_blockno (bcache s ! j) = b_blockno ?x)"
      using bcache_invD(6) [OF inv(1)] h(1) by (auto simp: one_buf_def)
  qed simp_all
  show "cache_ok p t" unfolding cache_ok_def using bi inv(2-5) by (auto simp: u n buf_flag_or) (simp_all add: t_def)
  show "held_blocks t = held_blocks s" by (auto simp: held_blocks_def u n)
  show "pinned_blocks t = insert n (pinned_blocks s)"
    using h(1,3) by (auto simp: pinned_blocks_def n buf_flag_or split: if_splits)
  have "disksize t = disksize s" "memdisk t = memdisk s" by (simp_all add: t_def)
  then show "on_disk t = on_disk s" by (simp add: on_disk_def fun_eq_iff)
  have "holder (bcache t) m = holder (bcache s) m" for m unfolding holder_def n by (rule find_cong) auto
  then have "block t m = block s m" for m
    using n by (auto simp: block_def buf_flag_or \<open>memdisk t = memdisk s\<close> split: option.splits)
  then show "seen t = seen s" by (simp add: seen_def fun_eq_iff \<open>disksize t = disksize s\<close>)
qed

lemma log_write_ok:
  assumes "cache_ok p s" "held_blocks s b = Some n" "log_fits (disksize s) (lg s)" "n \<notin> log_area (lg s)"
    "lh_n (lg s) < int LOGSIZE" "lh_n (lg s) < lg_size (lg s) - 1" "1 \<le> lg_outstanding (lg s)"
  shows "\<exists>t. log_write b s = Done () t \<and> cache_ok p t \<and> held_blocks t = held_blocks s \<and> lg t = log_add n (lg s)
     \<and> pinned_blocks t = insert n (pinned_blocks s) \<and> seen t = seen s \<and> on_disk t = on_disk s
     \<and> disk_writes t = disk_writes s \<and> disksize t = disksize s \<and> log_fits (disksize t) (lg t)
     \<and> memory t = memory s \<and> inode_locks t = inode_locks s \<and> klog.more t = klog.more s"
proof -
  note h = heldD [OF assms(2)]
  have n: "n < disksize s" using valid_block(2) [OF cache_okD(1) [OF assms(1)] h(1) cache_okD(3) [OF assms(1) h(1,2)]] h(3) by simp
  let ?s = "s\<lparr>lg := log_add n (lg s)\<rparr>"
  have "cache_ok p ?s" "held_blocks ?s b = Some n" using assms(1,2) by simp_all
  note m = mark_dirty [OF this]
  show ?thesis
    using log_write_run [of s b] assms(5-7) calmD(1) [OF cache_okD(2) [OF assms(1)]] h(3) m log_add_ok(1) [OF assms(3,6,5) n assms(4)] by (simp add: inode_locks_def fun_eq_iff)
qed

text \<open>What an update of block \<open>n\<close> to \<open>d\<close> inside a transaction does, and what reading does.\<close>

definition updated :: "nat \<Rightarrow> 'a klog_scheme \<Rightarrow> uint32 \<Rightarrow> uint8 list \<Rightarrow> 'a klog_scheme \<Rightarrow> bool" where
  "updated p s n d t \<longleftrightarrow> log_ready p t \<and> seen t = (seen s)(n := d) \<and> on_disk t = on_disk s \<and> disk_writes t = disk_writes s
     \<and> disksize t = disksize s \<and> lg t = log_add n (lg s) \<and> memory t = memory s \<and> inode_locks t = inode_locks s \<and> klog.more t = klog.more s"

definition unchanged :: "nat \<Rightarrow> 'a klog_scheme \<Rightarrow> 'a klog_scheme \<Rightarrow> bool" where
  "unchanged p s t \<longleftrightarrow> log_ready p t \<and> seen t = seen s \<and> on_disk t = on_disk s \<and> disk_writes t = disk_writes s
     \<and> disksize t = disksize s \<and> lg t = lg s \<and> memory t = memory s \<and> inode_locks t = inode_locks s \<and> klog.more t = klog.more s"

text \<open>The log has room for another block.\<close>

definition log_room :: "nat \<Rightarrow> 'a klog_scheme \<Rightarrow> bool" where
  "log_room k s \<longleftrightarrow> lh_n (lg s) + int k < lg_size (lg s) \<and> lh_n (lg s) + int k < int NBUF \<and> 1 \<le> lg_outstanding (lg s)"

lemma rest_more: "cache_rest t = cache_rest s \<Longrightarrow> klog.more t = klog.more s" "cache_rest t = cache_rest s \<Longrightarrow> memory t = memory s"
  "cache_rest t = cache_rest s \<Longrightarrow> inode_locks t = inode_locks s"
  by (cases s; cases t; simp add: cache_rest_def inode_locks_def fun_eq_iff)+

lemma log_add_room: "log_fits lim (lg s) \<Longrightarrow> lg t = log_add n (lg s) \<Longrightarrow> log_room (Suc k) s \<Longrightarrow> log_room k t"
  by (auto simp: log_room_def log_add_def)

lemma block_access:
  assumes "log_ready p s" "n < disksize s"
  shows "\<exists>b t. bread 1 n s = Done b t \<and> get_buf b b_data t = Done (block s n) t \<and> lg t = lg s \<and> klog.more t = klog.more s
     \<and> (\<exists>u. brelse b t = Done () u \<and> unchanged p s u)
     \<and> (\<forall>f. n \<notin> log_area (lg s) \<and> log_room 1 s \<and> length (f (block s n)) = BSIZE \<longrightarrow>
         (\<exists>u. kseq (upd_buf b (\<lambda>x. x\<lparr>b_data := f (b_data x)\<rparr>)) (kseq (log_write b) (brelse b)) t = Done () u
           \<and> updated p s n (f (block s n)) u))"
proof -
  note r = log_readyD [OF assms(1)]
  obtain b t where t: "bread 1 n s = Done b t" "cache_ok p t" "held_blocks t = [b \<mapsto> n]" "cache_obs t = cache_obs s" "cache_rest t = cache_rest s"
    using bio.read_law [of p s n] r(1,6) assms(2) by (auto simp: idle_def)
  note o = obs_eqD [OF t(4), simplified] and tm = rest_more [OF t(5)] lg_rest [OF t(5)]
  have g: "seen s n = block s n" "seen t = seen s" using assms(2) o by (simp_all add: seen_def)
  have "n \<in> pinned_blocks t \<or> seen t n = on_disk t n" using clean_ok [of p s n] r(1) o by (auto simp: idle_def)
  then obtain u where u: "brelse b t = Done () u" "cache_ok p u" "held_blocks u = Map.empty" "cache_obs u = cache_obs t" "cache_rest u = cache_rest t"
    using bio.release_law [of p t b n] t(2,3) by auto
  have "unchanged p s u"
    using obs_eqD [OF u(4), simplified] o tm rest_more [OF u(5)] lg_rest [OF u(5)] assms(1) u(2,3)
    by (simp add: unchanged_def log_ready_def idle_def)
  moreover have "\<exists>w. kseq (upd_buf b (\<lambda>x. x\<lparr>b_data := f (b_data x)\<rparr>)) (kseq (log_write b) (brelse b)) t = Done () w
      \<and> updated p s n (f (block s n)) w"
    if f: "n \<notin> log_area (lg s)" "log_room 1 s" "length (f (block s n)) = BSIZE" for f
  proof -
    have rm: "lh_n (lg s) < lg_size (lg s) - 1" "lh_n (lg s) < int NBUF - 1" "1 \<le> lg_outstanding (lg s)" using f(2) by (auto simp: log_room_def)
    note a = log_add_ok [OF r(2) rm(1) _ assms(2) f(1)]
    obtain u where u: "upd_buf b (\<lambda>x. x\<lparr>b_data := f (b_data x)\<rparr>) t = Done () u" "cache_ok p u" "held_blocks u = held_blocks t"
        "cache_rest u = cache_rest t" "cache_obs u = (cache_obs t)\<lparr>cv_view := (seen t)(n := f (seen t n))\<rparr>"
      using bio.put_law [of p t b n f] t(2,3) f(3) g by auto
    note q = obs_eqD [OF u(5), simplified] and um = rest_more [OF u(4)] lg_rest [OF u(4)]
    obtain v where v: "log_write b u = Done () v" "cache_ok p v" "held_blocks v = held_blocks u" "lg v = log_add n (lg s)"
       "pinned_blocks v = insert n (pinned_blocks u)" "seen v = seen u" "on_disk v = on_disk u" "disk_writes v = disk_writes u"
       "disksize v = disksize u" "memory v = memory u" "inode_locks v = inode_locks u" "klog.more v = klog.more u"
      using log_write_ok [OF u(2), of b n] t(3) u(3) r(2) f(1) rm um tm q o by auto
    obtain w where w: "brelse b v = Done () w" "cache_ok p w" "held_blocks w = (held_blocks v)(b := None)" "cache_obs w = cache_obs v" "cache_rest w = cache_rest v"
      using bio.release_law [of p v b n] v(2,3,5) t(3) u(3) by auto
    note z = obs_eqD [OF w(4), simplified] and wm = rest_more [OF w(5)] lg_rest [OF w(5)]
    have "log_ready p w"
      using a rm(2) r(5) w(2,3) z v q o t(3) u(3) wm by (auto simp: log_ready_def idle_def fun_eq_iff)
    then have "updated p s n (f (block s n)) w" using z v q o g wm um tm by (simp add: updated_def)
    then show ?thesis using u(1) v(1) w(1) by (simp add: kmonad)
  qed
  ultimately show ?thesis
    using t(1) get_data_ok [OF t(2), of b n] t(3) g tm u(1) by (intro exI [of _ b] exI [of _ t]) auto
qed

lemma logged_modify:
  assumes "log_ready p s" "n < disksize s" "n \<notin> log_area (lg s)" "length (f (block s n)) = BSIZE" "log_room 1 s"
  shows "\<exists>t. kbind (bread 1 n) (\<lambda>b. kseq (upd_buf b (\<lambda>x. x\<lparr>b_data := f (b_data x)\<rparr>)) (kseq (log_write b) (brelse b))) s = Done () t
     \<and> updated p s n (f (block s n)) t"
proof -
  have c: "n \<notin> log_area (lg s) \<and> log_room 1 s \<and> length (f (block s n)) = BSIZE" using assms(3-5) by simp
  obtain b t where t: "bread 1 n s = Done b t" "\<forall>f. n \<notin> log_area (lg s) \<and> log_room 1 s \<and> length (f (block s n)) = BSIZE \<longrightarrow>
         (\<exists>u. kseq (upd_buf b (\<lambda>x. x\<lparr>b_data := f (b_data x)\<rparr>)) (kseq (log_write b) (brelse b)) t = Done () u
           \<and> updated p s n (f (block s n)) u)"
    using block_access [OF assms(1,2)] by blast
  show ?thesis using t(2) [THEN spec, of f, THEN mp, OF c] t(1) by (simp add: kbind_def)
qed

lemma updated_block:
  assumes "updated p s n d t" "m < disksize s" "n < disksize s" shows "block t m = (if m = n then d else block s m)"
  using in_range_block(2) [of m t] in_range_block(2) [of m s] assms by (cases "m = n") (auto simp: updated_def)

text \<open>C6. Updates inside a transaction. Reading a block, changing it, \<open>log_write\<close> and \<open>brelse\<close> succeed as long
  as the log has room; the kernel then sees the new contents, nothing has been written to the disk, the
  block is recorded in the log once (a second update of the same block takes no further room), and the
  transaction can again be committed or extended.\<close>

theorem logged_update:
  assumes "log_ready p s" "n < disksize s" "n \<notin> log_area (lg s)" "length (f (block s n)) = BSIZE"
    "lh_n (lg s) < lg_size (lg s) - 1" "lh_n (lg s) < int NBUF - 1" "1 \<le> lg_outstanding (lg s)"
  shows "\<exists>t. kbind (bread 1 n) (\<lambda>b. kseq (upd_buf b (\<lambda>x. x\<lparr>b_data := f (b_data x)\<rparr>)) (kseq (log_write b) (brelse b))) s = Done () t
     \<and> log_ready p t \<and> (\<forall>m < disksize s. block t m = (if m = n then f (block s n) else block s m)) \<and> on_disk t = on_disk s \<and> disk_writes t = disk_writes s
     \<and> lh_n (lg t) = lh_n (lg s) + (if n \<in> set (take (nat (lh_n (lg s))) (lh_block (lg s))) then 0 else 1)"
proof -
  note r = log_readyD [OF assms(1)]
  have "log_room 1 s" using assms(5-7) by (simp add: log_room_def)
  from logged_modify [where f = f, OF assms(1-4) this]
  obtain t where t: "kbind (bread 1 n) (\<lambda>b. kseq (upd_buf b (\<lambda>x. x\<lparr>b_data := f (b_data x)\<rparr>)) (kseq (log_write b) (brelse b))) s = Done () t"
     "updated p s n (f (block s n)) t" by blast
  note u = t(2) [unfolded updated_def]
  show ?thesis
    using t(1) u updated_block [OF t(2) _ assms(2)] log_add_ok(3) [OF r(2) assms(5) _ assms(2,3)] assms(6) by simp
qed

section \<open>A sample state\<close>

text \<open>A disk of 66 zero blocks whose log of 30 blocks starts at block 2. The first \<open>k\<close> buffers hold
  the blocks from 35 on, changed by a transaction.\<close>

definition sample_buf :: "nat \<Rightarrow> nat \<Rightarrow> buf" where
  "sample_buf k i = \<lparr>b_flags = (if i < k then 6 else 0), b_dev = (if i < k then 1 else 0), b_blockno = (if i < k then 35 + of_nat i else 0),
     b_refcnt = 0, b_prev = (i + 30) mod 31, b_next = (i + 1) mod 31, b_qnext = None,
     b_data = (if i < k then replicate 512 1 else replicate 512 0)\<rparr>"

definition sample_klog :: "nat \<Rightarrow> klog" where
  "sample_klog k = \<lparr>cpus = [sample_cpu], lapicid = 0, eflags = 512, cr2 = 0, cr3 = 0, tr = 0, gdtr = None,
     locks = (\<lambda>_. \<lparr>sl_locked = 0, sl_cpu = None\<rparr>), kend = 0x80110000, kdata = 0x80108000,
     memory = sample_memory, kmem = sample_kmem,
     ptable = [sample_proc\<lparr>pstate := RUNNING, pid := 1\<rparr>] @ replicate 63 sample_proc,
     nextpid = 2, initproc = Some 0, sleeplocks = (\<lambda>_. \<lparr>slk_locked = 0, slk_pid = 0\<rparr>),
     sym_trapret = 0x80105000, sym_forkret = 0x80104000, kpgdir = 0x80410000,
     bcache = map (sample_buf k) [0..<31], memdisk = replicate 66 (replicate 512 0), disksize = 66, disk_writes = [],
     lg = \<lparr>lg_start = 2, lg_size = 30, lg_outstanding = 1, lg_committing = 0, lg_dev = 1, lh_n = int k,
       lh_block = map (\<lambda>i. 35 + of_nat i) [0..<30]\<rparr>\<rparr>"

lemma sample_klog_fields [simp]:
  "bcache (sample_klog k) = map (sample_buf k) [0..<31]" "memdisk (sample_klog k) = replicate 66 (replicate 512 0)"
  "disksize (sample_klog k) = 66" "disk_writes (sample_klog k) = []" "\<not> in_use (sample_klog k) i"
  "lg_start (lg (sample_klog k)) = 2" "lg_size (lg (sample_klog k)) = 30" "lg_outstanding (lg (sample_klog k)) = 1"
  "lg_dev (lg (sample_klog k)) = 1" "lh_n (lg (sample_klog k)) = int k" "lh_block (lg (sample_klog k)) = map (\<lambda>i. 35 + of_nat i) [0..<30]"
  "lg_committing (lg (sample_klog k)) = 0"
  by (simp_all add: sample_klog_def in_use_def)

lemma sample_klog_calm: "calm 0 (sample_klog k)"
  by (simp add: calm_def lock_ok_def cpu_ok_def lock_free_def this_cpu_def cpu_index_def sample_klog_def sample_cpu_def Let_def cur_def)

lemma unat_sample_blockno: "i < 30 \<Longrightarrow> unat (35 + of_nat i :: uint32) = 35 + i"
  by (subst unat_add_lem [THEN iffD1]) (simp_all add: unat_of_nat take_bit_nat_eq_self)

lemma sample_blockno: "i < 30 \<Longrightarrow> j < 30 \<Longrightarrow> (35 + of_nat i :: uint32) = 35 + of_nat j \<longleftrightarrow> i = j"
  by (simp add: word_unat_eq_iff unat_sample_blockno)

lemma sample_lru: "lru (map (sample_buf k) [0..<31]) [0..<30]"
proof -
  have "links (map (sample_buf k) [0..<31]) (NBUF # [0..<30] @ [NBUF])"
    by (simp add: upt_rec sample_buf_def)
  then show ?thesis by (simp add: lru_def atLeast0LessThan)
qed

lemma sample_cache_ok:
  assumes "k \<le> 30" shows "idle 0 (sample_klog k)"
proof -
  have "one_buf (map (sample_buf k) [0..<31])"
    unfolding one_buf_def using assms sample_blockno by (auto simp: sample_buf_def)
  moreover have "buf_ok (replicate 66 (replicate 512 0)) False (sample_buf k i)" if "i < 30" for i
    using that assms by (auto simp: buf_ok_def sample_buf_def unat_sample_blockno)
  ultimately have "bcache_inv (sample_klog k)" using sample_lru by (auto simp: bcache_inv_def)
  then show ?thesis using sample_klog_calm by (simp add: idle_def cache_ok_def held_blocks_def sample_buf_def fun_eq_iff)
qed

lemma sample_log_ready:
  assumes "k < 30" shows "log_ready 0 (sample_klog k)"
proof -
  have t: "take k (map (\<lambda>i. 35 + of_nat i) [0..<30]) = map (\<lambda>i. 35 + of_nat i :: uint32) [0..<k]" using assms by (simp add: take_map)
  have "log_fits 66 (lg (sample_klog k))"
    using assms sample_blockno unfolding log_fits_def
    by (auto simp: t distinct_map inj_on_def log_area_def unat_sample_blockno word_less_nat_alt)
  moreover have "pinned_blocks (sample_klog k) = set (take k (map (\<lambda>i. 35 + of_nat i) [0..<30]))"
  proof -
    have "i < 30 \<and> b_dirty (map (sample_buf k) [0..<31] ! i) \<longleftrightarrow> i < k" "i < k \<Longrightarrow> b_blockno (map (sample_buf k) [0..<31] ! i) = 35 + of_nat i" for i
      using assms by (auto simp: sample_buf_def split: if_splits)
    then show ?thesis unfolding t pinned_blocks_def by (auto simp del: upt.simps) metis
  qed
  ultimately show ?thesis using sample_cache_ok [of k] assms by (simp add: log_ready_def)
qed

lemma sample_rebooted: "rebooted 0 (sample_klog k) [] (sample_klog 0)"
  using sample_cache_ok [of 0] log_readyD(5) [OF sample_log_ready, of 0] by (simp add: rebooted_def disk_after_def)

lemma sample_block: "block (sample_klog 1) 35 = replicate 512 1" "35 \<notin> log_area (lg (sample_klog k))"
  by (simp add: block_def holder_def sample_buf_def upt_rec) (simp add: log_area_def)

theorem commit_crash_safe_witness:
  "log_ready 0 (sample_klog 1) \<and> (\<exists>t ws v. commit (sample_klog 1) = Done () t \<and> disk_writes t = ws \<and> memdisk t ! 35 = replicate 512 1
     \<and> rebooted 0 (sample_klog 1) (take 0 ws) (sample_klog 0) \<and> recover_from_log (sample_klog 0) = Done () v \<and> memdisk v ! 35 = replicate 512 0)"
proof -
  have r: "log_ready 0 (sample_klog 1)" by (rule sample_log_ready) simp
  have h: "sint (get32 (memdisk (sample_klog 1) ! unat (lg_start (lg (sample_klog 1)))) 0) = 0" by (simp add: get32_def)
  obtain t ws where t: "commit (sample_klog 1) = Done () t" "disk_writes t = disk_writes (sample_klog 1) @ ws"
     "\<forall>m < disksize (sample_klog 1). m \<notin> log_area (lg (sample_klog 1)) \<longrightarrow> memdisk t ! unat m = block (sample_klog 1) m"
     and c: "\<forall>k \<le> length ws. \<forall>u. rebooted 0 (sample_klog 1) (take k ws) u \<longrightarrow> (\<exists>v. recover_from_log u = Done () v
        \<and> (\<forall>m < disksize (sample_klog 1). m \<notin> log_area (lg (sample_klog 1)) \<longrightarrow>
             memdisk v ! unat m = (if k \<le> nat (lh_n (lg (sample_klog 1))) then memdisk (sample_klog 1) ! unat m else block (sample_klog 1) m)))"
    using commit_crash_safe [OF r h] by blast
  have b: "rebooted 0 (sample_klog 1) (take 0 ws) (sample_klog 0)" using sample_rebooted by simp
  obtain v where v: "recover_from_log (sample_klog 0) = Done () v"
     "\<forall>m < disksize (sample_klog 1). m \<notin> log_area (lg (sample_klog 1)) \<longrightarrow> memdisk v ! unat m = memdisk (sample_klog 1) ! unat m"
    using c [rule_format, OF _ b] by auto
  have "memdisk t ! 35 = replicate 512 1" using t(3) [rule_format, of 35] sample_block by simp
  moreover have "memdisk v ! 35 = replicate 512 0" using v(2) [rule_format, of 35] sample_block(2) [of 1] by simp
  ultimately show ?thesis using r t(1,2) v(1) b by (intro conjI exI [of _ t] exI [of _ ws] exI [of _ v]) simp_all
qed

theorem logged_update_witness:
  "\<exists>t. kbind (bread 1 35) (\<lambda>b. kseq (upd_buf b (\<lambda>x. x\<lparr>b_data := replicate 512 7\<rparr>)) (kseq (log_write b) (brelse b))) (sample_klog 1) = Done () t
     \<and> block t 35 = replicate 512 7 \<and> lh_n (lg t) = 1"
proof -
  have "35 \<in> set (take (nat (lh_n (lg (sample_klog 1)))) (lh_block (lg (sample_klog 1))))" by (simp add: upt_rec)
  then show ?thesis
    using logged_update [OF sample_log_ready, of 1 35 "\<lambda>_. replicate 512 7"] sample_block(2) [of 1] by (auto simp del: take_map)
qed

section \<open>Reservations\<close>

lemma begin_op_run:
  assumes "lock_ok L_log s" "lg_committing (lg s) = 0" "lh_n (lg s) + (lg_outstanding (lg s) + 1) * MAXOPBLOCKS \<le> int LOGSIZE"
  shows "begin_op s = Done () (s\<lparr>lg := (lg s)\<lparr>lg_outstanding := lg_outstanding (lg s) + 1\<rparr>\<rparr>)"
proof -
  have e: "lg (entered L_log s) = lg s" by (simp add: entered_def Let_def)
  have "release L_log ((entered L_log s)\<lparr>lg := l\<rparr>) = Done () (s\<lparr>lg := l\<rparr>)" for l
    using release_entered [OF assms(1), of "(entered L_log s)\<lparr>lg := l\<rparr>"] by (simp add: entered_def Let_def)
  then show ?thesis using assms(2,3) by (simp add: begin_op_def kmonad acquire_entered [OF assms(1)] e upd_log_def)
qed

text \<open>C28. \<open>begin_op\<close> admits an operation while the log has room for \<open>MAXOPBLOCKS\<close> blocks of every admitted
  operation in its \<open>LOGSIZE\<close> blocks, but one of these is the header: on a disk made by mkfs, with
  \<open>LOGSIZE\<close> log blocks, three operations are admitted, and when they have logged 29 different blocks,
  less than the 30 they may log, the next \<open>log_write\<close> panics.\<close>

theorem log_reservation_panics:
  assumes "lock_ok L_log s" "lg_committing (lg s) = 0" "lh_n (lg s) = 0" "lg_outstanding (lg s) = 2" "lg_size (lg s) = int LOGSIZE"
  shows "\<exists>t. begin_op s = Done () t \<and> lg_outstanding (lg t) = 3 \<and> 29 < lg_outstanding (lg t) * MAXOPBLOCKS
     \<and> (\<forall>b bl. log_write b (t\<lparr>lg := (lg t)\<lparr>lh_n := 29, lh_block := bl\<rparr>\<rparr>) = Panic ''too big a transaction'')"
  using begin_op_run [OF assms(1,2)] assms(3-5) by (simp add: log_write_def kmonad)

theorem log_reservation_panics_witness:
  "\<exists>t. begin_op ((sample_klog 0)\<lparr>lg := (lg (sample_klog 0))\<lparr>lg_outstanding := 2\<rparr>\<rparr>) = Done () t
     \<and> log_write 0 (t\<lparr>lg := (lg t)\<lparr>lh_n := 29, lh_block := replicate 30 0\<rparr>\<rparr>) = Panic ''too big a transaction''"
proof -
  have "lock_ok L_log ((sample_klog 0)\<lparr>lg := (lg (sample_klog 0))\<lparr>lg_outstanding := 2\<rparr>\<rparr>)"
    using sample_klog_calm [of 0] calm_lg calmD(1) by blast
  from log_reservation_panics [OF this] show ?thesis by auto
qed

theorem bread_block_witness:
  "\<exists>b t. bread 1 40 (sample_klog 1) = Done b t \<and> cache_ok 0 t \<and> held_blocks t = [b \<mapsto> 40] \<and> b_data (bcache t ! b) = replicate 512 0"
proof -
  have r: "log_ready 0 (sample_klog 1)" by (rule sample_log_ready) simp
  note d = log_readyD [OF r]
  have "block (sample_klog 1) 40 = replicate 512 0" by (simp add: block_def holder_def sample_buf_def upt_rec)
  then show ?thesis using bread_block [of 0 "sample_klog 1" 40] d(1,6) by (auto simp: idle_def)
qed

end
