(* ===== verification/BlockAlloc.thy ===== *)
theory BlockAlloc
  imports Inode LogProps
begin

text \<open>
  The allocation of disk blocks: the bitmap, \<open>balloc\<close> and \<open>bfree\<close> inside a transaction.
\<close>

section \<open>The bitmap\<close>

definition bit_set :: "nat \<Rightarrow> uint8 list \<Rightarrow> uint8 list" where
  "bit_set bi bs = bs[bi div 8 := bs ! (bi div 8) OR bmap_mask bi]"

definition bit_clear :: "nat \<Rightarrow> uint8 list \<Rightarrow> uint8 list" where
  "bit_clear bi bs = bs[bi div 8 := bs ! (bi div 8) AND NOT (bmap_mask bi)]"

lemma bmap_used_bit: "bmap_used bs bi \<longleftrightarrow> bit (bs ! (bi div 8)) (bi mod 8)"
  by (simp add: bmap_used_def bmap_mask_def bit_iff_and_push_bit_not_eq_0)

lemma bmap_used_set:
  assumes "length bs = BSIZE" "bi < 4096" shows "bmap_used (bit_set bi bs) bj \<longleftrightarrow> bj = bi \<or> bmap_used bs bj"
proof (cases "bj div 8 = bi div 8")
  case True
  then have "bj = bi \<longleftrightarrow> bj mod 8 = bi mod 8" by (metis div_mult_mod_eq)
  moreover have "bi div 8 < 512" using assms(2) by simp
  ultimately show ?thesis using True assms(1)
    by (auto simp: bmap_used_bit bit_set_def bmap_mask_def bit_simps)
next
  case False
  then show ?thesis by (auto simp: bmap_used_bit bit_set_def)
qed

lemma bmap_used_clear:
  assumes "length bs = BSIZE" "bi < 4096" shows "bmap_used (bit_clear bi bs) bj \<longleftrightarrow> bj \<noteq> bi \<and> bmap_used bs bj"
proof (cases "bj div 8 = bi div 8")
  case True
  then have "bj = bi \<longleftrightarrow> bj mod 8 = bi mod 8" by (metis div_mult_mod_eq)
  moreover have "bi div 8 < 512" using assms(2) by simp
  ultimately show ?thesis using True assms(1)
    by (auto simp: bmap_used_bit bit_clear_def bmap_mask_def bit_simps)
next
  case False
  then show ?thesis by (auto simp: bmap_used_bit bit_clear_def)
qed

lemma length_bit_set [simp]: "length (bit_set bi bs) = length bs" "length (bit_clear bi bs) = length bs"
  by (simp_all add: bit_set_def bit_clear_def)

text \<open>Setting a free bit and clearing it again restores the bitmap.\<close>

lemma bit_clear_set:
  assumes "length bs = BSIZE" "bi < 4096" "\<not> bmap_used bs bi" shows "bit_clear bi (bit_set bi bs) = bs"
proof -
  have "(w OR bmap_mask bi) AND NOT (bmap_mask bi) = w" if "\<not> bit w (bi mod 8)" for w
    by (rule bit_word_eqI) (use that in \<open>auto simp: bmap_mask_def bit_simps\<close>)
  then show ?thesis using assms by (simp add: bit_clear_def bit_set_def bmap_used_bit)
qed

lemma free_bit_Some:
  assumes "free_bit bs lim = Some bi" shows "bi < lim" "bi < 4096" "\<not> bmap_used bs bi" "\<forall>j < bi. bmap_used bs j"
  using assms by (auto simp: free_bit_def find_Some_iff)

lemma free_bit_None: "free_bit bs lim = None \<longleftrightarrow> (\<forall>j < min 4096 lim. bmap_used bs j)"
  by (auto simp: free_bit_def find_None_iff)

section \<open>Allocation of blocks\<close>

definition block_used :: "'a kfs_scheme \<Rightarrow> uint32 \<Rightarrow> bool" where
  "block_used s b \<longleftrightarrow> bmap_used (block s (BBLOCK b (sb s))) (unat (b mod BPB))"

text \<open>The bitmap lies on the disk, and it marks itself and the log as used.\<close>

definition layout_ok :: "'a kfs_scheme \<Rightarrow> bool" where
  "layout_ok s \<longleftrightarrow> sb_size (sb s) \<le> disksize s \<and> sb_size (sb s) \<le> 0xFFFFF000
     \<and> (\<forall>b < sb_size (sb s). BBLOCK b (sb s) < sb_size (sb s) \<and> BBLOCK b (sb s) \<notin> log_area (lg s) \<and> block_used s (BBLOCK b (sb s)))
     \<and> (\<forall>b \<in> log_area (lg s). b < sb_size (sb s) \<longrightarrow> block_used s b)"

lemma kseq_three: "kseq a (kseq b c) s = Done () u \<Longrightarrow> kseq a (kseq b (kseq c d)) s = d u"
  by (auto simp: kmonad split: outcome.splits)

lemma more_fs: "klog.more t = klog.more s \<Longrightarrow> sb t = sb s" "klog.more t = klog.more s \<Longrightarrow> icache t = icache s"
  by (cases s; cases t; simp)+

lemma block_split:
  assumes "j < 2 ^ 20" "i < 4096"
  shows "unat (of_nat (4096 * j) + of_nat i :: uint32) = 4096 * j + i" "BBLOCK (of_nat (4096 * j) + of_nat i) su = BBLOCK (of_nat (4096 * j)) su"
    "unat ((of_nat (4096 * j) + of_nat i) mod BPB :: uint32) = i"
proof -
  have l: "4096 * j + i < 2 ^ 32" using assms by simp
  have e: "of_nat (4096 * j) + of_nat i = (of_nat (4096 * j + i) :: uint32)" by simp
  show u: "unat (of_nat (4096 * j) + of_nat i :: uint32) = 4096 * j + i"
    unfolding e using l by (simp add: unat_of_nat take_bit_nat_eq_self del: of_nat_add of_nat_mult)
  have u0: "unat (of_nat (4096 * j) :: uint32) = 4096 * j"
    using assms(1) by (simp add: unat_of_nat take_bit_nat_eq_self del: of_nat_mult)
  show "BBLOCK (of_nat (4096 * j) + of_nat i) su = BBLOCK (of_nat (4096 * j)) su"
  proof -
    have "(of_nat (4096 * j) + of_nat i) div 4096 = (of_nat (4096 * j) div 4096 :: uint32)"
      using assms(2) by (subst word_unat_eq_iff) (simp add: unat_div u u0 del: of_nat_mult of_nat_add)
    then show ?thesis by (simp only: BBLOCK_def)
  qed
  show "unat ((of_nat (4096 * j) + of_nat i) mod BPB :: uint32) = i"
    using assms(2) by (simp add: unat_mod u del: of_nat_mult)
qed

definition allocated :: "nat \<Rightarrow> 'a kfs_scheme \<Rightarrow> uint32 \<Rightarrow> 'a kfs_scheme \<Rightarrow> bool" where
  "allocated p s b t \<longleftrightarrow> b < sb_size (sb s) \<and> \<not> block_used s b \<and> (\<forall>c < b. block_used s c) \<and> log_ready p t
     \<and> seen t = (seen s)(BBLOCK b (sb s) := bit_set (unat (b mod BPB)) (seen s (BBLOCK b (sb s))), b := replicate BSIZE 0)
     \<and> on_disk t = on_disk s \<and> disk_writes t = disk_writes s \<and> disksize t = disksize s \<and> memory t = memory s \<and> inode_locks t = inode_locks s \<and> klog.more t = klog.more s
     \<and> lg t = log_add b (log_add (BBLOCK b (sb s)) (lg s))"

lemma layoutD:
  assumes "layout_ok s" "b < sb_size (sb s)"
  shows "b < disksize s" "BBLOCK b (sb s) < disksize s" "BBLOCK b (sb s) \<notin> log_area (lg s)"
    "\<not> block_used s b \<Longrightarrow> b \<notin> log_area (lg s) \<and> b \<noteq> BBLOCK c (sb s) \<or> \<not> c < sb_size (sb s)"
  using assms by (auto simp: layout_ok_def intro: less_le_trans)

lemma unchanged_used:
  assumes "unchanged p s t" "layout_ok s" "b < sb_size (sb s)" shows "block_used t b = block_used s b"
proof -
  have e: "sb t = sb s" using assms(1) more_fs(1) by (auto simp: unchanged_def)
  have "block t (BBLOCK b (sb s)) = block s (BBLOCK b (sb s))"
    using in_range_block(2) [of "BBLOCK b (sb s)" t] in_range_block(2) [of "BBLOCK b (sb s)" s] layoutD(2) [OF assms(2,3)] assms(1)
    by (simp add: unchanged_def)
  then show ?thesis by (simp add: block_used_def e)
qed

lemma unchanged_layout:
  assumes "unchanged p s t" "layout_ok s" shows "layout_ok t"
proof -
  have "sb t = sb s" "disksize t = disksize s" "lg t = lg s" using assms(1) more_fs(1) by (auto simp: unchanged_def)
  then show ?thesis using assms(2) unchanged_used [OF assms] by (simp add: layout_ok_def)
qed

lemma take_block:
  assumes "log_ready p s" "layout_ok s" "log_room 2 s" "b < sb_size (sb s)" "\<not> block_used s b" "\<forall>c < b. block_used s c"
    "bread 1 (BBLOCK b (sb s)) s = Done bp t"
    "\<forall>f. BBLOCK b (sb s) \<notin> log_area (lg s) \<and> log_room 1 s \<and> length (f (block s (BBLOCK b (sb s)))) = BSIZE \<longrightarrow>
         (\<exists>u. kseq (upd_buf bp (\<lambda>x. x\<lparr>b_data := f (b_data x)\<rparr>)) (kseq (log_write bp) (brelse bp)) t = Done () u
           \<and> updated p s (BBLOCK b (sb s)) (f (block s (BBLOCK b (sb s)))) u)"
    "bi = unat (b mod BPB)"
  shows "\<exists>v. kseq (upd_buf bp (\<lambda>x. x\<lparr>b_data := (b_data x)[bi div 8 := b_data x ! (bi div 8) OR bmap_mask bi]\<rparr>)) (
         kseq (log_write bp) (kseq (brelse bp) (kseq (bzero 1 b) (kret b)))) t = Done b v \<and> allocated p s b v"
proof -
  let ?m = "BBLOCK b (sb s)"
  note l = layoutD [OF assms(2,4)] and r = log_readyD [OF assms(1)]
  have len: "length (block s ?m) = BSIZE" using seen_size [of p s ?m] r(1) l(2) by (simp add: idle_def seen_def)
  have c: "?m \<notin> log_area (lg s) \<and> log_room 1 s \<and> length (bit_set bi (block s ?m)) = BSIZE"
    using l(3) assms(3) len by (auto simp: log_room_def)
  obtain u where u: "kseq (upd_buf bp (\<lambda>x. x\<lparr>b_data := bit_set bi (b_data x)\<rparr>)) (kseq (log_write bp) (brelse bp)) t = Done () u"
     "updated p s ?m (bit_set bi (block s ?m)) u"
    using assms(8) [THEN spec, of "bit_set bi", THEN mp, OF c] by blast
  note uu = u(2) [unfolded updated_def]
  have "log_room 1 u" using log_add_room [OF r(2), of u ?m 1] uu assms(3) by (simp add: numeral_2_eq_2)
  moreover have "b \<notin> log_area (lg u)" using l(4) [OF assms(5), of b] assms(4) uu by simp
  ultimately obtain v where v: "bzero 1 b u = Done () v" "updated p u b (replicate BSIZE 0) v"
    using logged_modify [of p u b "\<lambda>_. replicate BSIZE 0"] uu l(1) by (auto simp: bzero_def)
  note vv = v(2) [unfolded updated_def]
  have "allocated p s b v"
    using assms(4-6) vv uu l(2) by (simp add: allocated_def assms(9) seen_def)
  moreover have "kseq (upd_buf bp (\<lambda>x. x\<lparr>b_data := (b_data x)[bi div 8 := b_data x ! (bi div 8) OR bmap_mask bi]\<rparr>)) (
         kseq (log_write bp) (kseq (brelse bp) (kseq (bzero 1 b) (kret b)))) t = Done b v"
    using kseq_three [OF u(1) [unfolded bit_set_def], of "kseq (bzero 1 b) (kret b)"] v(1) by (simp add: kmonad)
  ultimately show ?thesis by blast
qed

text \<open>The blocks whose bits are in the bitmap block of \<open>of_nat (4096 * j)\<close>.\<close>

lemma used_in_block:
  assumes "j < 2 ^ 20" "4096 * j \<le> unat c" "unat c < 4096 * j + 4096"
  shows "block_used s c \<longleftrightarrow> bmap_used (block s (BBLOCK (of_nat (4096 * j)) (sb s))) (unat c - 4096 * j)"
proof -
  let ?i = "unat c - 4096 * j"
  have i: "?i < 4096" using assms(2,3) by simp
  have "c = of_nat (4096 * j) + of_nat ?i"
    using block_split(1) [OF assms(1) i] assms(2) by (simp add: word_unat_eq_iff del: of_nat_mult)
  then show ?thesis using block_split(2,3) [OF assms(1) i] unfolding block_used_def by (metis (no_types, lifting))
qed

lemma balloc_loop_run:
  assumes "log_ready p s" "layout_ok s" "log_room 2 s" "j < 2 ^ 20" "unat (sb_size (sb s)) \<le> 4096 * (j + n)"
    "\<And>c. unat c < 4096 * j \<Longrightarrow> c < sb_size (sb s) \<Longrightarrow> block_used s c"
  shows "(\<exists>b t. balloc_loop (Suc n) 1 (of_nat (4096 * j)) s = Done b t \<and> allocated p s b t)
     \<or> (\<forall>b < sb_size (sb s). block_used s b) \<and> balloc_loop (Suc n) 1 (of_nat (4096 * j)) s = Panic ''balloc: out of blocks''"
  using assms
proof (induction n arbitrary: j s)
  case 0
  have "unat (of_nat (4096 * j) :: uint32) = 4096 * j" using block_split(1) [OF 0(4), of 0] by simp
  then have "\<not> of_nat (4096 * j) < sb_size (sb s)" using 0(5) by (simp add: word_less_nat_alt del: of_nat_mult)
  then show ?case using 0(5,6) by (auto simp: kmonad word_less_nat_alt simp del: of_nat_mult)
next
  case (Suc n)
  let ?b = "of_nat (4096 * j) :: uint32" and ?z = "sb_size (sb s)"
  have ub: "unat ?b = 4096 * j" using block_split(1) [OF Suc.prems(4), of 0] by simp
  show ?case
  proof (cases "?b < ?z")
    case False
    then show ?thesis using Suc.prems(6) ub
      by (auto simp: kmonad word_less_nat_alt simp del: of_nat_mult)
  next
    case True
    let ?m = "BBLOCK ?b (sb s)"
    obtain bp t where t: "bread 1 ?m s = Done bp t" "get_buf bp b_data t = Done (block s ?m) t" "\<exists>u. brelse bp t = Done () u \<and> unchanged p s u"
        and up: "\<forall>f. ?m \<notin> log_area (lg s) \<and> log_room 1 s \<and> length (f (block s ?m)) = BSIZE \<longrightarrow>
         (\<exists>u. kseq (upd_buf bp (\<lambda>x. x\<lparr>b_data := f (b_data x)\<rparr>)) (kseq (log_write bp) (brelse bp)) t = Done () u
           \<and> updated p s ?m (f (block s ?m)) u)"
      using block_access [OF Suc.prems(1) layoutD(2) [OF Suc.prems(2) True]] by blast
    have nz: "j < 2 ^ 20 - 1" using True Suc.prems(2) ub by (auto simp: layout_ok_def word_less_nat_alt word_le_nat_alt)
    show ?thesis
    proof (cases "free_bit (block s ?m) (unat ?z - unat ?b)")
      case (Some bi)
      note f = free_bit_Some [OF Some]
      let ?x = "?b + of_nat bi"
      note x = block_split [OF Suc.prems(4) f(2)]
      have "?x < ?z" using f(1) True ub x(1) by (simp add: word_less_nat_alt)
      moreover have "\<not> block_used s ?x" using f(2,3) x(1) used_in_block [OF Suc.prems(4), of ?x s] by simp
      moreover have "block_used s c" if "c < ?x" for c
      proof (cases "unat c < 4096 * j")
        case True
        then show ?thesis using Suc.prems(6) [of c] less_trans [OF that \<open>?x < ?z\<close>] by blast
      next
        case False
        then show ?thesis using f(2,4) that x(1) used_in_block [OF Suc.prems(4), of c s] by (simp add: word_less_nat_alt)
      qed
      ultimately show ?thesis
        using take_block [OF Suc.prems(1-3), of ?x bp t bi] x t(1,2) up True Some by (auto simp: kmonad simp del: of_nat_mult)
    next
      case None
      obtain u where u: "brelse bp t = Done () u" "unchanged p s u" using t(3) by blast
      note uu = u(2) [unfolded unchanged_def]
      have e: "sb u = sb s" using more_fs(1) uu by blast
      note lay = Suc.prems(2) and used = unchanged_used [OF u(2) Suc.prems(2)]
      have z: "block_used u c" if "unat c < 4096 * Suc j" "c < sb_size (sb u)" for c
      proof -
        have "block_used s c"
        proof (cases "unat c < 4096 * j")
          case True
          then show ?thesis using Suc.prems(6) that(2) e by simp
        next
          case False
          have "unat c - 4096 * j < min 4096 (unat ?z - unat ?b)" using False that e ub by (auto simp: word_less_nat_alt)
          then show ?thesis using None [unfolded free_bit_None] that(1) False used_in_block [OF Suc.prems(4), of c s] by simp
        qed
        then show ?thesis using used that(2) e by simp
      qed
      have s: "balloc_loop (Suc (Suc n)) 1 ?b s = balloc_loop (Suc n) 1 (of_nat (4096 * Suc j)) u"
        using True t(1,2) u(1) None by (simp add: kmonad add.commute)
      have al: "allocated p u b v \<Longrightarrow> allocated p s b v" for b v
        using uu e used less_trans [of _ b "sb_size (sb s)"] by (auto simp: allocated_def)
      have "log_ready p u" "layout_ok u" "log_room 2 u" "Suc j < 2 ^ 20" "unat (sb_size (sb u)) \<le> 4096 * (Suc j + n)"
        using uu unchanged_layout [OF u(2) lay] Suc.prems(3,5) nz e by (auto simp: log_room_def)
      from Suc.IH [OF this z] show ?thesis unfolding s using al used e by (auto simp del: balloc_loop.simps)
    qed
  qed
qed

lemma page_fuel_range: "\<exists>n. page_fuel = Suc n \<and> 2 ^ 20 \<le> n"
  by (simp add: page_fuel_def)

lemma balloc_run:
  assumes "log_ready p s" "layout_ok s" "log_room 2 s"
  shows "(\<exists>b t. balloc 1 s = Done b t \<and> allocated p s b t)
     \<or> (\<forall>b < sb_size (sb s). block_used s b) \<and> balloc 1 s = Panic ''balloc: out of blocks''"
proof -
  obtain n where n: "page_fuel = Suc n" "2 ^ 20 \<le> n" using page_fuel_range by blast
  have "unat (sb_size (sb s)) \<le> 4096 * (0 + n)" using n(2) unsigned_less [of "sb_size (sb s)", where 'a = nat] by simp
  from balloc_loop_run [OF assms _ this] show ?thesis unfolding balloc_def n(1) by (simp del: balloc_loop.simps)
qed

lemma allocated_blocks:
  assumes "allocated p s b t" "layout_ok s" "log_ready p s"
  shows "block t b = replicate BSIZE 0" "\<lbrakk>m < disksize s; m \<noteq> b; m \<noteq> BBLOCK b (sb s)\<rbrakk> \<Longrightarrow> block t m = block s m"
    "c < sb_size (sb s) \<Longrightarrow> block_used t c \<longleftrightarrow> c = b \<or> block_used s c"
proof -
  note a = assms(1) [unfolded allocated_def]
  have b: "b < sb_size (sb s)" "\<not> block_used s b" using a by auto
  note l = layoutD [OF assms(2) b(1)]
  have view: "block t m = seen t m" "block s m = seen s m" if "m < disksize s" for m using that a in_range_block(2) [of m t] in_range_block(2) [of m s] by simp_all
  show "block t b = replicate BSIZE 0" using view [OF l(1)] a by simp
  show "\<lbrakk>m < disksize s; m \<noteq> b; m \<noteq> BBLOCK b (sb s)\<rbrakk> \<Longrightarrow> block t m = block s m" using view [of m] a by simp
  assume c: "c < sb_size (sb s)"
  have sbt: "sb t = sb s" using a more_fs(1) by blast
  have ne: "b \<noteq> BBLOCK c (sb s)" using l(4) [OF b(2), of c] c by blast
  note lc = layoutD [OF assms(2) c]
  show "block_used t c \<longleftrightarrow> c = b \<or> block_used s c"
  proof (cases "BBLOCK c (sb s) = BBLOCK b (sb s)")
    case True
    have len: "length (seen s (BBLOCK b (sb s))) = BSIZE" using seen_size [of p s] log_readyD(1) [OF assms(3)] l(2) by (simp add: idle_def)
    have "unat (c mod BPB) = unat (b mod BPB) \<longleftrightarrow> c = b"
    proof
      assume m: "unat (c mod BPB) = unat (b mod BPB)"
      have "c div BPB = b div BPB" using True by (simp add: BBLOCK_def)
      then show "c = b" using m by (metis word_unat_eq_iff div_mult_mod_eq)
    qed simp
    moreover have "unat (b mod BPB) < 4096" by (simp add: unat_mod)
    ultimately show ?thesis
      using view [OF lc(2)] True ne a bmap_used_set [OF len] by (auto simp: block_used_def sbt)
  next
    case False
    then have "c \<noteq> b" by auto
    then show ?thesis using view [OF lc(2)] False ne a by (simp add: block_used_def sbt)
  qed
qed

text \<open>\<open>sb\<close> is the super block on disk.\<close>

definition sb_ok :: "'a kfs_scheme \<Rightarrow> bool" where
  "sb_ok s \<longleftrightarrow> 1 < disksize s \<and> superblock_of (block s 1) = sb s"

lemma readsb_run:
  assumes "log_ready p s" "1 < disksize s"
  shows "\<exists>t. readsb 1 s = Done (superblock_of (block s 1)) t \<and> unchanged p s t"
proof -
  obtain b t u where "bread 1 1 s = Done b t" "get_buf b b_data t = Done (block s 1) t" "brelse b t = Done () u" "unchanged p s u"
    using block_access [OF assms] by blast
  then show ?thesis by (auto simp: readsb_def kmonad get_buf_def)
qed

lemma unchanged_block:
  assumes "unchanged p s t" "m < disksize s" shows "block t m = block s m"
  using in_range_block(2) [of m t] in_range_block(2) [of m s] assms by (simp add: unchanged_def)

lemma unchanged_updated: "unchanged p s t \<Longrightarrow> updated p t n d u \<Longrightarrow> updated p s n d u"
  by (simp add: unchanged_def updated_def)

lemma bfree_run:
  assumes "log_ready p s" "layout_ok s" "log_room 1 s" "sb_ok s" "b < sb_size (sb s)"
  shows "if block_used s b then \<exists>t. bfree 1 b s = Done () t \<and> updated p s (BBLOCK b (sb s)) (bit_clear (unat (b mod BPB)) (block s (BBLOCK b (sb s)))) t
     else bfree 1 b s = Panic ''freeing free block''"
proof -
  let ?m = "BBLOCK b (sb s)" and ?bi = "unat (b mod BPB)"
  note l = layoutD [OF assms(2,5)]
  obtain u where u: "readsb 1 s = Done (sb s) u" "unchanged p s u" using readsb_run [OF assms(1)] assms(4) by (auto simp: sb_ok_def)
  note uu = u(2) [unfolded unchanged_def]
  have su: "u\<lparr>sb := sb s\<rparr> = u" using more_fs(1) [of u s] uu by (cases u) simp
  have r: "log_ready p u" "?m < disksize u" "log_room 1 u" "?m \<notin> log_area (lg u)" using uu l(2,3) assms(3) by (simp_all add: log_room_def)
  obtain bp t where t: "bread 1 ?m u = Done bp t" "get_buf bp b_data t = Done (block u ?m) t"
     and up: "\<forall>f. ?m \<notin> log_area (lg u) \<and> log_room 1 u \<and> length (f (block u ?m)) = BSIZE \<longrightarrow>
         (\<exists>v. kseq (upd_buf bp (\<lambda>x. x\<lparr>b_data := f (b_data x)\<rparr>)) (kseq (log_write bp) (brelse bp)) t = Done () v
           \<and> updated p u ?m (f (block u ?m)) v)"
    using block_access [OF r(1,2)] by blast
  have e: "block u ?m = block s ?m" by (rule unchanged_block [OF u(2) l(2)])
  have len: "length (block s ?m) = BSIZE" using seen_size [of p s ?m] log_readyD(1) [OF assms(1)] l(2) by (simp add: idle_def seen_def)
  have c: "?m \<notin> log_area (lg u) \<and> log_room 1 u \<and> length (bit_clear ?bi (block u ?m)) = BSIZE" using r len e by simp
  obtain v where "kseq (upd_buf bp (\<lambda>x. x\<lparr>b_data := bit_clear ?bi (b_data x)\<rparr>)) (kseq (log_write bp) (brelse bp)) t = Done () v"
      "updated p u ?m (bit_clear ?bi (block u ?m)) v"
    using up [THEN spec, of "bit_clear ?bi", THEN mp, OF c] by blast
  then show ?thesis
    using u(1) t e unchanged_updated [OF u(2)] su by (auto simp: bfree_def kmonad Let_def block_used_def bit_clear_def)
qed

text \<open>C10. Block allocation. If some block of the file system is free, \<open>balloc\<close> returns the first free one:
  its bit was clear and is the only one of the bitmap that changes, its contents are zero, every other
  block keeps its contents, and nothing is written to the disk before the transaction commits. If all
  blocks are used it panics. It always terminates.\<close>

theorem balloc_allocates:
  assumes "log_ready p s" "layout_ok s" "log_room 2 s"
  shows "if \<exists>b < sb_size (sb s). \<not> block_used s b then
      \<exists>b t. balloc 1 s = Done b t \<and> b < sb_size (sb s) \<and> \<not> block_used s b \<and> (\<forall>c < b. block_used s c) \<and> log_ready p t
        \<and> (\<forall>c < sb_size (sb s). block_used t c \<longleftrightarrow> c = b \<or> block_used s c) \<and> block t b = replicate BSIZE 0
        \<and> (\<forall>m < disksize s. m \<noteq> b \<and> m \<noteq> BBLOCK b (sb s) \<longrightarrow> block t m = block s m) \<and> on_disk t = on_disk s
     else balloc 1 s = Panic ''balloc: out of blocks''"
  using balloc_run [OF assms]
proof
  assume "\<exists>b t. balloc 1 s = Done b t \<and> allocated p s b t"
  then obtain b t where b: "balloc 1 s = Done b t" "allocated p s b t" by blast
  note a = allocated_blocks [OF b(2) assms(2,1)]
  have "\<exists>b < sb_size (sb s). \<not> block_used s b" using b(2) by (auto simp: allocated_def)
  moreover have "b < sb_size (sb s) \<and> \<not> block_used s b \<and> (\<forall>c < b. block_used s c) \<and> log_ready p t \<and> on_disk t = on_disk s"
    using b(2) by (simp add: allocated_def)
  ultimately show ?thesis using b(1) a by auto
qed auto

lemma balloc_bfree_run:
  assumes "log_ready p s" "layout_ok s" "log_room 3 s" "sb_ok s" "allocated p s b t" "b \<noteq> 1" "BBLOCK b (sb s) \<noteq> 1"
  shows "\<exists>v. bfree 1 b t = Done () v \<and> log_ready p v \<and> (\<forall>m < disksize s. m \<noteq> b \<longrightarrow> block v m = block s m)"
proof -
  note a = assms(5) [unfolded allocated_def] and ab = allocated_blocks [OF assms(5,2,1)]
  let ?m = "BBLOCK b (sb s)" and ?bi = "unat (b mod BPB)"
  have b: "b < sb_size (sb s)" "\<not> block_used s b" using a by auto
  note l = layoutD [OF assms(2) b(1)]
  have e: "sb t = sb s" using a more_fs(1) by blast
  have lt: "layout_ok t" using assms(2) ab(3) a e by (auto simp: layout_ok_def)
  have rt: "log_room 1 t"
    using log_add_room [OF log_readyD(2) [OF assms(1)], of "s\<lparr>lg := log_add ?m (lg s)\<rparr>" ?m 2] assms(3) a
    by (auto simp: log_room_def log_add_def)
  have st: "sb_ok t" using assms(4,6,7) ab(2) [of 1] a e by (auto simp: sb_ok_def)
  have "block_used t b" using ab(3) [OF b(1)] by simp
  then obtain v where v: "bfree 1 b t = Done () v" "updated p t ?m (bit_clear ?bi (block t ?m)) v"
    using bfree_run [of p t b] a lt rt st b(1) e by auto
  have len: "length (block s ?m) = BSIZE" using seen_size [of p s ?m] log_readyD(1) [OF assms(1)] l(2) by (simp add: idle_def seen_def)
  have nb: "b \<noteq> ?m" using l(4) [OF b(2), of b] b(1) by blast
  have "block t ?m = bit_set ?bi (block s ?m)" using in_range_block(2) [of ?m t] in_range_block(2) [of ?m s] l(2) a nb by simp
  then have "bit_clear ?bi (block t ?m) = block s ?m"
    using bit_clear_set [OF len] b(2) by (simp add: block_used_def unat_mod)
  then have "block v m = block s m" if "m < disksize s" "m \<noteq> b" for m
    using updated_block [OF v(2), of m] that l(2) a ab(2) [OF that(1)] by (cases "m = ?m") auto
  then show ?thesis using v by (auto simp: updated_def)
qed

text \<open>C11. \<open>bfree\<close> undoes \<open>balloc\<close>: after allocating and freeing a block every other block, the bitmap included, has
  its old contents. Freeing a block that is free panics.\<close>

theorem balloc_bfree:
  assumes "log_ready p s" "layout_ok s" "log_room 3 s" "sb_ok s" "block_used s 1" "b < sb_size (sb s)" "\<not> block_used s b"
    "\<forall>c < sb_size (sb s). BBLOCK c (sb s) \<noteq> 1"
  shows "bfree 1 b s = Panic ''freeing free block''
     \<and> (\<exists>c t v. balloc 1 s = Done c t \<and> bfree 1 c t = Done () v \<and> log_ready p v \<and> (\<forall>m < disksize s. m \<noteq> c \<longrightarrow> block v m = block s m))"
proof
  have "log_room 1 s" "log_room 2 s" using assms(3) by (auto simp: log_room_def)
  then show "bfree 1 b s = Panic ''freeing free block''" using bfree_run [OF assms(1,2) _ assms(4,6)] assms(7) by simp
  obtain c t where c: "balloc 1 s = Done c t" "allocated p s c t" using balloc_run [OF assms(1,2) \<open>log_room 2 s\<close>] assms(6,7) by auto
  then have "c \<noteq> 1" "BBLOCK c (sb s) \<noteq> 1" using assms(5,8) by (auto simp: allocated_def)
  then show "\<exists>c t v. balloc 1 s = Done c t \<and> bfree 1 c t = Done () v \<and> log_ready p v \<and> (\<forall>m < disksize s. m \<noteq> c \<longrightarrow> block v m = block s m)"
    using balloc_bfree_run [OF assms(1-4) c(2)] c(1) by blast
qed

section \<open>A sample file system\<close>

text \<open>The empty cache of \<open>sample_klog\<close> on another disk of 66 blocks, extended by the state of fs.c.\<close>

definition sample_sb :: superblock where
  "sample_sb = \<lparr>sb_size = 66, sb_nblocks = 31, sb_ninodes = 8, sb_nlog = 30, sb_logstart = 2, sb_inodestart = 32, sb_bmapstart = 34\<rparr>"

definition sample_disk :: "uint8 list list" where
  "sample_disk = map (\<lambda>i. if i = 1 then put32s (replicate 512 0) 0 [66, 31, 8, 30, 2, 32, 34]
     else if i = 34 then [255, 255, 255, 255, 7] @ replicate 507 0 else replicate 512 0) [0..<66]"

definition sample_inode :: inode where
  "sample_inode = \<lparr>i_dev = 0, i_inum = 0, i_ref = 0, i_valid = 0, i_type = 0, i_major = 0, i_minor = 0, i_nlink = 0, i_size = 0,
     i_addrs = replicate 13 0\<rparr>"

definition sample_kfs :: kfs where
  "sample_kfs = klog.extend ((sample_klog 0)\<lparr>memdisk := sample_disk\<rparr>)
     (kfs.fields sample_sb ([sample_inode\<lparr>i_dev := 1, i_inum := 1, i_ref := 1, i_valid := 1, i_type := 1, i_nlink := 1\<rparr>] @ replicate 49 sample_inode))"

lemma sample_disk_lengths: "length sample_disk = 66" "\<forall>bs \<in> set sample_disk. length bs = 512"
  by (auto simp: sample_disk_def)

lemma sample_disk_ready:
  assumes "length d = 66" "\<forall>bs \<in> set d. length bs = 512"
  shows "log_ready 0 ((sample_klog 0)\<lparr>memdisk := d\<rparr>)"
proof -
  note r = log_readyD [OF sample_log_ready [of 0], simplified]
  have b: "bcache_inv (sample_klog 0)" using r(1) by (simp add: idle_def cache_ok_def)
  have "buf_ok d False (sample_buf 0 i)" for i by (simp add: buf_ok_def sample_buf_def)
  moreover have u: "in_use ((sample_klog 0)\<lparr>memdisk := d\<rparr>) i = in_use (sample_klog 0) i" for i by (simp add: in_use_def)
  ultimately have "bcache_inv ((sample_klog 0)\<lparr>memdisk := d\<rparr>)" using b assms by (simp add: bcache_inv_def)
  then have "idle 0 ((sample_klog 0)\<lparr>memdisk := d\<rparr>)"
    using r(1) by (simp add: idle_def cache_ok_def held_blocks_def fun_eq_iff u)
  moreover have "pinned_blocks ((sample_klog 0)\<lparr>memdisk := d\<rparr>) = pinned_blocks (sample_klog 0)" by (simp add: pinned_blocks_def)
  ultimately show ?thesis using r(2,5) by (simp add: log_ready_def)
qed

lemma extend_klog [simp]:
  "bcache (klog.extend s x) = bcache s" "memdisk (klog.extend s x) = memdisk s" "disksize (klog.extend s x) = disksize s"
  "lg (klog.extend s x) = lg s" "sleeplocks (klog.extend s x) = sleeplocks s" "ptable (klog.extend s x) = ptable s"
  "cpus (klog.extend s x) = cpus s" "lapicid (klog.extend s x) = lapicid s" "eflags (klog.extend s x) = eflags s" "locks (klog.extend s x) = locks s"
  "disk_writes (klog.extend s x) = disk_writes s"
  by (simp_all add: klog.extend_def)

lemma extend_ready [simp]: "log_ready p (klog.extend s x) = log_ready p s" "block (klog.extend s x) = block s"
proof -
  have u: "in_use (klog.extend s x) = in_use s" by (simp add: in_use_def fun_eq_iff)
  have "calm p (klog.extend s x) = calm p s" by (simp add: calm_def lock_ok_def cpu_ok_def lock_free_def this_cpu_def cur_def)
  moreover have "held_blocks (klog.extend s x) = held_blocks s" by (simp add: held_blocks_def fun_eq_iff u)
  ultimately show "log_ready p (klog.extend s x) = log_ready p s"
    by (simp add: log_ready_def idle_def cache_ok_def bcache_inv_def u pinned_blocks_def)
  show "block (klog.extend s x) = block s" by (simp add: block_def fun_eq_iff split: option.split)
qed

lemma sample_kfs_fields [simp]:
  "sb sample_kfs = sample_sb" "lg sample_kfs = lg (sample_klog 0)" "disksize sample_kfs = 66" "memdisk sample_kfs = sample_disk"
  "icache sample_kfs = [sample_inode\<lparr>i_dev := 1, i_inum := 1, i_ref := 1, i_valid := 1, i_type := 1, i_nlink := 1\<rparr>] @ replicate 49 sample_inode"
  by (simp_all add: sample_kfs_def) (simp_all add: klog.extend_def kfs.fields_def)

lemma sample_kfs_ready: "log_ready 0 sample_kfs" "log_room 3 sample_kfs"
  using sample_disk_ready [OF sample_disk_lengths] by (simp_all add: sample_kfs_def log_room_def)

lemma sample_kfs_block: "m < 66 \<Longrightarrow> block sample_kfs m = sample_disk ! unat m"
proof -
  have "holder (bcache (sample_klog 0)) m = None" by (simp add: holder_None sample_buf_def)
  then show ?thesis by (simp add: sample_kfs_def block_def)
qed

lemma sample_bitmap: "\<forall>i \<in> set [0..<66]. bmap_used ([255, 255, 255, 255, 7] @ replicate 507 0) i \<longleftrightarrow> i < 35"
  by code_simp

lemma sample_kfs_used:
  assumes "c < 66" shows "block_used sample_kfs c \<longleftrightarrow> c < 35" "BBLOCK c sample_sb = 34"
proof -
  have u: "unat c < 66" using assms by (simp add: word_less_nat_alt)
  have "c div 4096 = 0" using u by (simp add: word_unat_eq_iff unat_div)
  then show b: "BBLOCK c sample_sb = 34" by (simp add: BBLOCK_def sample_sb_def)
  have "sample_disk ! 34 = [255, 255, 255, 255, 7] @ replicate 507 0" by (simp add: sample_disk_def)
  then show "block_used sample_kfs c \<longleftrightarrow> c < 35"
    using b sample_bitmap u by (simp add: block_used_def sample_kfs_block unat_mod word_less_nat_alt)
qed

lemma sample_kfs_layout: "layout_ok sample_kfs" "sb_ok sample_kfs" "sb_size sample_sb = 66"
proof -
  show z: "sb_size sample_sb = 66" by (simp add: sample_sb_def)
  have "log_area (lg (sample_klog 0)) = {b. 2 \<le> unat b \<and> unat b < 32}" by (simp add: log_area_def)
  then show "layout_ok sample_kfs" using sample_kfs_used by (auto simp: layout_ok_def z word_less_nat_alt)
  have "superblock_of (put32s (replicate 512 0) 0 [66, 31, 8, 30, 2, 32, 34]) = sample_sb" by code_simp
  then show "sb_ok sample_kfs" by (simp add: sb_ok_def sample_kfs_block sample_disk_def)
qed

theorem balloc_allocates_witness:
  "\<exists>b t. balloc 1 sample_kfs = Done b t \<and> b = 35 \<and> block_used t b \<and> block t b = replicate 512 0"
proof -
  have "\<exists>b < sb_size (sb sample_kfs). \<not> block_used sample_kfs b"
    using sample_kfs_used(1) [of 35] sample_kfs_layout(3) by (intro exI [of _ 35]) simp
  moreover have "log_room 2 sample_kfs" using sample_kfs_ready(2) by (auto simp: log_room_def)
  ultimately obtain b t where b: "balloc 1 sample_kfs = Done b t" "b < 66" "\<not> block_used sample_kfs b" "\<forall>c < b. block_used sample_kfs c"
      "block_used t b" "block t b = replicate 512 0"
    using balloc_allocates [OF sample_kfs_ready(1) sample_kfs_layout(1)] sample_kfs_layout(3) by auto
  have "\<not> b < 35" using b(2,3) sample_kfs_used(1) [of b] by simp
  moreover have "\<not> 35 < b" using b(4) sample_kfs_used(1) [of 35] by auto
  ultimately have "b = 35" by (metis linorder_neqE)
  then show ?thesis using b by blast
qed

theorem balloc_bfree_witness:
  "bfree 1 40 sample_kfs = Panic ''freeing free block''
     \<and> (\<exists>c t v. balloc 1 sample_kfs = Done c t \<and> bfree 1 c t = Done () v \<and> (\<forall>m < disksize sample_kfs. m \<noteq> c \<longrightarrow> block v m = block sample_kfs m))"
proof -
  have "block_used sample_kfs 1" "\<not> block_used sample_kfs 40" "\<forall>c < sb_size (sb sample_kfs). BBLOCK c (sb sample_kfs) \<noteq> 1"
    using sample_kfs_used sample_kfs_layout(3) by simp_all
  then show ?thesis
    using balloc_bfree [OF sample_kfs_ready(1) sample_kfs_layout(1) sample_kfs_ready(2) sample_kfs_layout(2), of 40] sample_kfs_layout(3)
    by auto
qed

end
