(* ===== verification/InodeProps.thy ===== *)
theory InodeProps
  imports BlockAlloc
begin

text \<open>
  The inode cache of fs.c: entries are unique, and \<open>iupdate\<close> and \<open>ilock\<close> carry an inode to the disk and
  back.
\<close>

section \<open>The inode cache\<close>

text \<open>No inode has two entries in use.\<close>

definition same_inode :: "uint32 \<Rightarrow> uint32 \<Rightarrow> inode \<Rightarrow> bool" where
  "same_inode dev inum ip \<longleftrightarrow> i_ref ip > 0 \<and> i_dev ip = dev \<and> i_inum ip = inum"

definition icache_ok :: "inode list \<Rightarrow> bool" where
  "icache_ok c \<longleftrightarrow> length c = NINODE \<and> (\<forall>ip \<in> set c. 0 \<le> i_ref ip)
     \<and> (\<forall>i < NINODE. \<forall>j < NINODE. i_ref (c ! j) > 0 \<and> same_inode (i_dev (c ! j)) (i_inum (c ! j)) (c ! i) \<longrightarrow> i = j)"

lemma icache_ok_nth: "icache_ok c \<Longrightarrow> i < NINODE \<Longrightarrow> 0 \<le> i_ref (c ! i)" "icache_ok c \<Longrightarrow> length c = NINODE"
  by (auto simp: icache_ok_def)

lemma icache_ok_update:
  assumes "icache_ok c" "i < NINODE" "0 < i_ref ip" "\<And>j. j < NINODE \<Longrightarrow> same_inode (i_dev ip) (i_inum ip) (c ! j) \<Longrightarrow> j = i"
  shows "icache_ok (c[i := ip])"
proof -
  have l: "length c = NINODE" by (rule icache_ok_nth(2) [OF assms(1)])
  have "\<forall>x \<in> set (c[i := ip]). 0 \<le> i_ref x"
    using assms(1,3) set_update_subset_insert [of c i ip] by (fastforce simp: icache_ok_def)
  moreover have "a = b" if "a < NINODE" "b < NINODE" "0 < i_ref (c[i := ip] ! b)"
      "same_inode (i_dev (c[i := ip] ! b)) (i_inum (c[i := ip] ! b)) (c[i := ip] ! a)" for a b
  proof -
    consider "a = i" "b = i" | "a = i" "b \<noteq> i" | "a \<noteq> i" "b = i" | "a \<noteq> i" "b \<noteq> i" by blast
    then show ?thesis
    proof cases
      case 2
      then have "same_inode (i_dev ip) (i_inum ip) (c ! b)" using that l by (simp add: same_inode_def)
      then show ?thesis using assms(4) [OF that(2)] 2 by simp
    next
      case 3
      then have "same_inode (i_dev ip) (i_inum ip) (c ! a)" using that l by simp
      then show ?thesis using assms(4) [OF that(1)] 3 by simp
    next
      case 4
      then show ?thesis using that assms(1) by (simp add: icache_ok_def)
    qed simp
  qed
  ultimately show ?thesis using l by (simp add: icache_ok_def)
qed

lemma release_icache:
  assumes "lock_ok l s"
  shows "release l ((entered l s)\<lparr>icache := c\<rparr>) = Done () (s\<lparr>icache := c\<rparr>)"
  using release_entered [OF assms, of "(entered l s)\<lparr>icache := c\<rparr>"] by (simp add: entered_def Let_def)

lemma icache_entered [simp]: "icache (entered l s) = icache s"
  by (simp add: entered_def Let_def)

text \<open>C13. The inode cache. \<open>iget\<close> keeps the invariant that no inode has two entries in use. It returns the
  entry of the inode, with one more reference, if there is one; otherwise it takes an unused entry,
  whose contents it marks as not read yet. If no entry is unused, it panics.\<close>

theorem iget_unique:
  assumes "lock_ok L_icache s" "icache_ok (icache s)"
  shows "if (\<exists>ip \<in> set (icache s). same_inode dev inum ip) \<or> (\<exists>ip \<in> set (icache s). i_ref ip = 0)
     then \<exists>i t. iget dev inum s = Done i t \<and> i < NINODE \<and> t = s\<lparr>icache := (icache s)[i := icache t ! i]\<rparr> \<and> icache_ok (icache t)
       \<and> same_inode dev inum (icache t ! i)
       \<and> (if \<exists>ip \<in> set (icache s). same_inode dev inum ip then icache t ! i = (icache s ! i)\<lparr>i_ref := i_ref (icache s ! i) + 1\<rparr>
          else i_ref (icache s ! i) = 0 \<and> i_ref (icache t ! i) = 1 \<and> i_valid (icache t ! i) = 0)
     else iget dev inum s = Panic ''iget: no inodes''"
proof -
  have l: "length (icache s) = NINODE" by (rule icache_ok_nth(2) [OF assms(2)])
  note run = iget_def kmonad acquire_entered [OF assms(1)] upd_inode_def release_icache [OF assms(1)]
  let ?P = "\<lambda>ip. i_ref ip > 0 \<and> i_dev ip = dev \<and> i_inum ip = inum"
  show ?thesis
  proof (cases "find_index ?P (icache s)")
    case (Some i)
    note f = find_index_Some [OF Some]
    let ?ip = "(icache s ! i)\<lparr>i_ref := i_ref (icache s ! i) + 1\<rparr>"
    have "\<exists>ip \<in> set (icache s). same_inode dev inum ip" using f(1,2) nth_mem [OF f(1)] by (auto simp: same_inode_def)
    moreover have "icache_ok ((icache s)[i := ?ip])"
      by (rule icache_ok_update [OF assms(2)]) (use f(1,2) l assms(2) in \<open>auto simp: icache_ok_def\<close>)
    ultimately show ?thesis using f l Some by (simp add: run same_inode_def)
  next
    case None
    then have n: "\<not> (\<exists>ip \<in> set (icache s). same_inode dev inum ip)" by (auto simp: find_index_None same_inode_def)
    show ?thesis
    proof (cases "find_index (\<lambda>ip. i_ref ip = 0) (icache s)")
      case (Some i)
      note f = find_index_Some [OF Some]
      let ?ip = "(icache s ! i)\<lparr>i_dev := dev, i_inum := inum, i_ref := 1, i_valid := 0\<rparr>"
      have "\<exists>ip \<in> set (icache s). i_ref ip = 0" using f(2) nth_mem [OF f(1)] by blast
      moreover have "icache_ok ((icache s)[i := ?ip])"
        by (rule icache_ok_update [OF assms(2)]) (use f(1) n l in auto)
      ultimately show ?thesis using f l Some None n by (auto simp: run same_inode_def)
    next
      case None': None
      then have "\<not> (\<exists>ip \<in> set (icache s). i_ref ip = 0)" by (auto simp: find_index_None)
      then show ?thesis using n None None' by (simp add: run)
    qed
  qed
qed

theorem iget_unique_witness:
  "\<exists>i t. iget 1 1 sample_kfs = Done i t \<and> icache_ok (icache t) \<and> same_inode 1 1 (icache t ! i) \<and> i_ref (icache t ! i) = 2"
proof -
  have "i_ref ip = 0" if "ip \<in> set (tl (icache sample_kfs))" for ip using that by (auto simp: sample_inode_def)
  then have z: "i \<noteq> 0 \<Longrightarrow> i < NINODE \<Longrightarrow> i_ref (icache sample_kfs ! i) = 0" for i
    by (cases i) (auto simp: sample_inode_def)
  have ok: "icache_ok (icache sample_kfs)"
  proof -
    have "i = j" if "i < NINODE" "j < NINODE" "0 < i_ref (icache sample_kfs ! j)" "same_inode d n (icache sample_kfs ! i)" for i j d n
      using z [of i] z [of j] that unfolding same_inode_def by (metis less_irrefl)
    then show ?thesis by (auto simp: icache_ok_def sample_inode_def)
  qed
  have lk: "lock_ok L_icache sample_kfs"
    using calmD(1) [of 0 sample_kfs] sample_kfs_ready(1) by (auto simp: log_ready_def idle_def cache_ok_def)
  have h: "\<exists>ip \<in> set (icache sample_kfs). same_inode 1 1 ip" by (simp add: same_inode_def)
  then obtain i t where t: "iget 1 1 sample_kfs = Done i t" "i < NINODE" "icache_ok (icache t)" "same_inode 1 1 (icache t ! i)"
     "icache t ! i = (icache sample_kfs ! i)\<lparr>i_ref := i_ref (icache sample_kfs ! i) + 1\<rparr>"
    using iget_unique [OF lk ok, of 1 1] by auto
  have "i = 0"
  proof (rule ccontr)
    assume "i \<noteq> 0"
    then have "icache sample_kfs ! i = sample_inode" using t(2) by (cases i) auto
    then show False using t(4,5) by (simp add: same_inode_def sample_inode_def)
  qed
  then show ?thesis using t by auto
qed

section \<open>Inodes on disk\<close>

lemma length_put16 [simp]: "off + 2 \<le> length bs \<Longrightarrow> length (put16 bs off v) = length bs"
  by (simp add: put16_def)

lemma bytes_of_half: "ucast (ucast v :: uint8) OR push_bit 8 (ucast (ucast (drop_bit 8 v) :: uint8)) = (v :: uint16)"
proof (rule bit_word_eqI)
  fix n assume "n < LENGTH(16)"
  then consider "n < 8" | "8 \<le> n" "n < 16" by fastforce
  then show "bit (ucast (ucast v :: uint8) OR push_bit 8 (ucast (ucast (drop_bit 8 v) :: uint8)) :: uint16) n = bit v n"
    by cases (auto simp: bit_simps)
qed

lemma get16_put16:
  "off + 2 \<le> length bs \<Longrightarrow> get16 (put16 bs off v) off = v"
  "\<lbrakk>off + 2 \<le> length bs; off' + 2 \<le> length bs; off' + 2 \<le> off \<or> off + 2 \<le> off'\<rbrakk> \<Longrightarrow> get16 (put16 bs off v) off' = get16 bs off'"
  using bytes_of_half [of v] by (auto simp: get16_def put16_def splice_nth)

lemma get16_put32:
  assumes "off + 4 \<le> length bs" "off' + 2 \<le> length bs" "off' + 2 \<le> off \<or> off + 4 \<le> off'"
  shows "get16 (put32 bs off v) off' = get16 bs off'"
  using assms by (auto simp: get16_def put32_def splice_nth)

lemma get32_put16:
  assumes "off + 2 \<le> length bs" "off' + 4 \<le> length bs" "off' + 4 \<le> off \<or> off + 2 \<le> off'"
  shows "get32 (put16 bs off v) off' = get32 bs off'"
  using assms by (auto simp: get32_def put16_def splice_nth)

lemma put32s_other:
  "off + 4 * length vs \<le> length bs \<Longrightarrow> off' + 2 \<le> off \<or> off + 4 * length vs \<le> off' \<Longrightarrow> off' + 2 \<le> length bs
     \<Longrightarrow> get16 (put32s bs off vs) off' = get16 bs off'"
  "off + 4 * length vs \<le> length bs \<Longrightarrow> off' + 4 \<le> off \<or> off + 4 * length vs \<le> off' \<Longrightarrow> off' + 4 \<le> length bs
     \<Longrightarrow> get32 (put32s bs off vs) off' = get32 bs off'"
  by (induction bs off vs rule: put32s.induct) (auto simp: get16_put32 get32_put32_other)

definition same_dinode :: "inode \<Rightarrow> inode \<Rightarrow> inode" where
  "same_dinode ip e = e\<lparr>i_type := i_type ip, i_major := i_major ip, i_minor := i_minor ip, i_nlink := i_nlink ip,
     i_size := i_size ip, i_addrs := i_addrs ip\<rparr>"

lemma same_dinode_type [simp]: "i_type (same_dinode ip e) = i_type ip"
  by (simp add: same_dinode_def)

lemma put_nth:
  "\<lbrakk>off + 2 \<le> length bs; i < length bs; i < off \<or> off + 2 \<le> i\<rbrakk> \<Longrightarrow> put16 bs off w ! i = bs ! i"
  "\<lbrakk>off + 4 \<le> length bs; i < length bs; i < off \<or> off + 4 \<le> i\<rbrakk> \<Longrightarrow> put32 bs off v ! i = bs ! i"
  by (auto simp: put16_def put32_def splice_nth)

lemma put32s_nth: "\<lbrakk>off + 4 * length vs \<le> length bs; i < length bs; i < off \<or> off + 4 * length vs \<le> i\<rbrakk> \<Longrightarrow> put32s bs off vs ! i = bs ! i"
  by (induction bs off vs rule: put32s.induct) (auto simp: put_nth)

lemma store_dinode_nth:
  assumes "length bs = BSIZE" "o1 + 64 \<le> BSIZE" "length (i_addrs ip) = Suc NDIRECT" "i < BSIZE" "i < o1 \<or> o1 + 64 \<le> i"
  shows "store_dinode ip bs o1 ! i = bs ! i"
proof -
  have "i < o1 + k \<or> o1 + k + 2 \<le> i" "i < o1 + k + 2 \<or> o1 + k + 6 \<le> i" if "k \<le> 8" for k using assms(5) that by linarith+
  note h = this(1) [of 0] this(1) [of 2] this(1) [of 4] this(1) [of 6]
  have "i < o1 + 8 \<or> o1 + 8 + 4 \<le> i" "i < o1 + 12 \<or> o1 + 12 + 4 * length (i_addrs ip) \<le> i" using assms(3,5) by linarith+
  then show ?thesis using h assms(1-4) by (simp add: store_dinode_def put32s_nth put_nth)
qed

lemma load_dinode_cong:
  assumes "\<And>i. o2 \<le> i \<Longrightarrow> i < o2 + 64 \<Longrightarrow> a ! i = b ! i" shows "load_dinode a o2 e = load_dinode b o2 e"
proof -
  have h: "get16 a (o2 + k) = get16 b (o2 + k)" if "k + 2 \<le> 64" for k using that by (simp add: get16_def assms)
  have w: "get32 a (o2 + k) = get32 b (o2 + k)" if "k + 4 \<le> 64" for k using that by (simp add: get32_def assms)
  have "get32 a (o2 + 12 + 4 * i) = get32 b (o2 + 12 + 4 * i)" if "i < 13" for i using w [of "12 + 4 * i"] that by (simp add: add.assoc)
  then show ?thesis using h [of 0] h [of 2] h [of 4] h [of 6] w [of 8] by (simp add: load_dinode_def get32s_def)
qed

lemma load_store_dinode:
  assumes "length bs = BSIZE" "o1 + 64 \<le> BSIZE" "length (i_addrs ip) = Suc NDIRECT"
  shows "length (store_dinode ip bs o1) = BSIZE" "load_dinode (store_dinode ip bs o1) o1 e = same_dinode ip e"
    "o2 + 64 \<le> BSIZE \<Longrightarrow> o2 + 64 \<le> o1 \<or> o1 + 64 \<le> o2 \<Longrightarrow> load_dinode (store_dinode ip bs o1) o2 e = load_dinode bs o2 e"
proof -
  show "length (store_dinode ip bs o1) = BSIZE" using assms by (simp add: store_dinode_def)
  let ?d = "put32 (put16 (put16 (put16 (put16 bs o1 (i_type ip)) (o1 + 2) (i_major ip)) (o1 + 4) (i_minor ip)) (o1 + 6) (i_nlink ip)) (o1 + 8) (i_size ip)"
  have l: "length ?d = BSIZE" using assms by simp
  have "get32s (put32s ?d (o1 + 12) (i_addrs ip)) (o1 + 12) 13 = i_addrs ip"
    using get32s_put32s [of "o1 + 12" "i_addrs ip" ?d] assms l by simp
  then show "load_dinode (store_dinode ip bs o1) o1 e = same_dinode ip e"
    using assms l by (simp add: load_dinode_def store_dinode_def same_dinode_def put32s_other get16_put16 get16_put32 get32_put16 get32_put32 get32_put32_other)
  assume o: "o2 + 64 \<le> BSIZE" "o2 + 64 \<le> o1 \<or> o1 + 64 \<le> o2"
  show "load_dinode (store_dinode ip bs o1) o2 e = load_dinode bs o2 e"
    by (rule load_dinode_cong, rule store_dinode_nth) (use o assms in auto)
qed

lemma dinode_off_range: "dinode_off inum + 64 \<le> BSIZE"
proof -
  have "unat (inum mod IPB) < 8" by (simp add: unat_mod)
  then show ?thesis by (simp add: dinode_off_def)
qed

section \<open>Writing an inode and reading it back\<close>

lemma ready_icache [simp]: "log_ready p (s\<lparr>icache := c\<rparr>) = log_ready p s" "block (s\<lparr>icache := c\<rparr>) = block s" "seen (s\<lparr>icache := c\<rparr>) = seen s"
  "on_disk (s\<lparr>icache := c\<rparr>) = on_disk s"
proof -
  have u: "in_use (s\<lparr>icache := c\<rparr>) = in_use s" by (simp add: in_use_def fun_eq_iff)
  have "calm p (s\<lparr>icache := c\<rparr>) = calm p s" by (simp add: calm_def lock_ok_def cpu_ok_def lock_free_def this_cpu_def cur_def)
  moreover have "held_blocks (s\<lparr>icache := c\<rparr>) = held_blocks s" by (simp add: held_blocks_def fun_eq_iff u)
  ultimately show "log_ready p (s\<lparr>icache := c\<rparr>) = log_ready p s"
    by (simp add: log_ready_def idle_def cache_ok_def bcache_inv_def u pinned_blocks_def)
  show b: "block (s\<lparr>icache := c\<rparr>) = block s" by (simp add: block_def fun_eq_iff split: option.split)
  show "seen (s\<lparr>icache := c\<rparr>) = seen s" "on_disk (s\<lparr>icache := c\<rparr>) = on_disk s" by (simp_all add: seen_def on_disk_def fun_eq_iff b)
qed

lemma ready_inode_lock [simp]:
  "log_ready p (s\<lparr>sleeplocks := (sleeplocks s)(S_inode i := k)\<rparr>) = log_ready p s" "block (s\<lparr>sleeplocks := l\<rparr>) = block s"
proof -
  let ?t = "s\<lparr>sleeplocks := (sleeplocks s)(S_inode i := k)\<rparr>"
  have u: "in_use ?t = in_use s" by (simp add: in_use_def fun_eq_iff)
  have "held_blocks ?t = held_blocks s" by (simp add: held_blocks_def fun_eq_iff u)
  then show "log_ready p ?t = log_ready p s"
    by (simp add: log_ready_def idle_def cache_ok_def bcache_inv_def u pinned_blocks_def)
  show "block (s\<lparr>sleeplocks := l\<rparr>) = block s" by (simp add: block_def fun_eq_iff split: option.split)
qed

text \<open>The block of an inode is on the disk and outside the log.\<close>

definition inode_place :: "'a kfs_scheme \<Rightarrow> uint32 \<Rightarrow> bool" where
  "inode_place s inum \<longleftrightarrow> IBLOCK inum (sb s) < disksize s \<and> IBLOCK inum (sb s) \<notin> log_area (lg s)"

definition disk_inode :: "'a kfs_scheme \<Rightarrow> uint32 \<Rightarrow> inode \<Rightarrow> inode" where
  "disk_inode s inum = load_dinode (block s (IBLOCK inum (sb s))) (dinode_off inum)"

lemma dinode_disjoint:
  assumes "IBLOCK a su = IBLOCK b su" "a \<noteq> b" shows "dinode_off a + 64 \<le> dinode_off b \<or> dinode_off b + 64 \<le> dinode_off a"
proof -
  have "a div IPB = b div IPB" using assms(1) by (simp add: IBLOCK_def)
  then have "unat (a mod IPB) \<noteq> unat (b mod IPB)" using assms(2) by (metis word_unat_eq_iff div_mult_mod_eq)
  then show ?thesis by (auto simp: dinode_off_def)
qed

lemma iupdate_run:
  assumes "log_ready p s" "log_room 1 s" "i_dev (icache s ! i) = 1" "length (i_addrs (icache s ! i)) = Suc NDIRECT"
    "inode_place s (i_inum (icache s ! i))"
  defines "m \<equiv> IBLOCK (i_inum (icache s ! i)) (sb s)" and "o1 \<equiv> dinode_off (i_inum (icache s ! i))"
  shows "\<exists>t. iupdate i s = Done () t \<and> updated p s m (store_dinode (icache s ! i) (block s m) o1) t"
proof -
  have m: "m < disksize s" "m \<notin> log_area (lg s)" using assms(5) by (simp_all add: inode_place_def m_def)
  have "length (block s m) = BSIZE" using seen_size [of p s m] log_readyD(1) [OF assms(1)] m(1) by (simp add: idle_def seen_def)
  then have "length (store_dinode (icache s ! i) (block s m) o1) = BSIZE"
    using load_store_dinode(1) assms(4) dinode_off_range by (simp add: o1_def)
  from logged_modify [where f = "\<lambda>d. store_dinode (icache s ! i) d o1", OF assms(1) m this assms(2)] show ?thesis
    by (simp add: iupdate_def kmonad get_inode_def assms(3) m_def o1_def)
qed

lemma iupdate_disk_inode:
  assumes "log_ready p s" "log_room 1 s" "i_dev (icache s ! i) = 1" "length (i_addrs (icache s ! i)) = Suc NDIRECT"
    "inode_place s (i_inum (icache s ! i))"
  shows "\<exists>t. iupdate i s = Done () t \<and> log_ready p t \<and> klog.more t = klog.more s \<and> disksize t = disksize s \<and> inode_locks t = inode_locks s \<and> on_disk t = on_disk s
     \<and> (\<forall>a e. inode_place s a \<longrightarrow> disk_inode t a e = (if a = i_inum (icache s ! i) then same_dinode (icache s ! i) e else disk_inode s a e))"
proof -
  let ?n = "i_inum (icache s ! i)"
  let ?m = "IBLOCK ?n (sb s)"
  obtain t where t: "iupdate i s = Done () t" "updated p s ?m (store_dinode (icache s ! i) (block s ?m) (dinode_off ?n)) t"
    using iupdate_run [OF assms] by blast
  have e: "sb t = sb s" using t(2) more_fs(1) by (auto simp: updated_def)
  have m: "?m < disksize s" using assms(5) by (simp add: inode_place_def)
  have len: "length (block s ?m) = BSIZE" using seen_size [of p s ?m] log_readyD(1) [OF assms(1)] m by (simp add: idle_def seen_def)
  note ls = load_store_dinode [OF len dinode_off_range [of ?n] assms(4)]
  have "disk_inode t a e = (if a = ?n then same_dinode (icache s ! i) e else disk_inode s a e)" if "inode_place s a" for a e
  proof (cases "IBLOCK a (sb s) = ?m")
    case True
    then have b: "block t (IBLOCK a (sb s)) = store_dinode (icache s ! i) (block s ?m) (dinode_off ?n)"
      using updated_block [OF t(2) m m] by simp
    show ?thesis
    proof (cases "a = ?n")
      case True
      then show ?thesis using b ls(2) [of e] e by (simp add: disk_inode_def)
    next
      case False
      then show ?thesis
        using b ls(3) [OF dinode_off_range [of a] dinode_disjoint [OF True False], of e] e True by (simp add: disk_inode_def)
    qed
  next
    case False
    then have "block t (IBLOCK a (sb s)) = block s (IBLOCK a (sb s))"
      using updated_block [OF t(2) _ m] that by (simp add: inode_place_def)
    then show ?thesis using False e by (auto simp: disk_inode_def)
  qed
  then show ?thesis using t by (auto simp: updated_def)
qed

lemma cache_icache [simp]:
  "cache_ok p (s\<lparr>icache := c\<rparr>) = cache_ok p s" "held_blocks (s\<lparr>icache := c\<rparr>) = held_blocks s" "pinned_blocks (s\<lparr>icache := c\<rparr>) = pinned_blocks s"
  "cache_obs (s\<lparr>icache := c\<rparr>) = cache_obs s"
proof -
  have u: "in_use (s\<lparr>icache := c\<rparr>) = in_use s" by (simp add: in_use_def fun_eq_iff)
  have "calm p (s\<lparr>icache := c\<rparr>) = calm p s" by (simp add: calm_def lock_ok_def cpu_ok_def lock_free_def this_cpu_def cur_def)
  then show "cache_ok p (s\<lparr>icache := c\<rparr>) = cache_ok p s" by (simp add: cache_ok_def bcache_inv_def u)
  show "held_blocks (s\<lparr>icache := c\<rparr>) = held_blocks s" by (simp add: held_blocks_def fun_eq_iff u)
  show "pinned_blocks (s\<lparr>icache := c\<rparr>) = pinned_blocks s" by (simp add: pinned_blocks_def)
  then show "cache_obs (s\<lparr>icache := c\<rparr>) = cache_obs s" by (simp add: cache_obs_def)
qed

lemma ready_of_obs:
  assumes "log_ready p s" "cache_ok p t" "held_blocks t = Map.empty" "cache_obs t = cache_obs s" "lg t = lg s"
  shows "log_ready p t" "\<forall>m < disksize s. block t m = block s m"
proof -
  note o = obs_eqD [OF assms(4), simplified]
  show "log_ready p t" using assms o by (simp add: log_ready_def idle_def)
  show "\<forall>m < disksize s. block t m = block s m"
    using in_range_block(2) [of _ t] in_range_block(2) [of _ s] o by simp
qed

lemma ilock_run:
  assumes "log_ready p s" "i < length (icache s)" "1 \<le> i_ref (icache s ! i)" "i_valid (icache s ! i) = 0" "i_dev (icache s ! i) = 1"
    "IBLOCK (i_inum (icache s ! i)) (sb s) < disksize s" "slk_locked (sleeplocks s (S_inode i)) = 0"
    "ip = disk_inode s (i_inum (icache s ! i)) (icache s ! i)"
  shows "if i_type ip \<noteq> 0 then \<exists>t. ilock (Some i) s = Done () t \<and> log_ready p t \<and> icache t = (icache s)[i := ip\<lparr>i_valid := 1\<rparr>]
       \<and> (\<forall>m < disksize s. block t m = block s m)
     else ilock (Some i) s = Panic ''ilock: no type''"
proof -
  note r = log_readyD [OF assms(1)]
  have calm: "calm p s" using r(1) by (simp add: idle_def cache_ok_def)
  let ?s = "s\<lparr>sleeplocks := (sleeplocks s)(S_inode i := \<lparr>slk_locked = 1, slk_pid = pid (ptable s ! p)\<rparr>)\<rparr>"
  let ?n = "i_inum (icache s ! i)"
  let ?m = "IBLOCK ?n (sb s)"
  have a: "acquiresleep (S_inode i) s = Done () ?s" by (rule acquiresleep_free [OF calmD(1) [OF calm] assms(7) calmD(2) [OF calm]])
  have s: "log_ready p ?s" using assms(1) by simp
  note rs = log_readyD [OF s]
  obtain b t where t: "bread 1 ?m ?s = Done b t" "cache_ok p t" "held_blocks t = [b \<mapsto> ?m]" "cache_obs t = cache_obs ?s" "cache_rest t = cache_rest ?s"
    using bio.read_law [of p ?s ?m] rs(1,6) assms(6) by (auto simp: idle_def)
  note o = obs_eqD [OF t(4), simplified] and tm = more_fs [OF rest_more(1) [OF t(5)]] lg_rest [OF t(5)]
  have sn: "seen ?s ?m = block s ?m" using assms(6) by (simp add: seen_def)
  let ?c = "(icache s)[i := ip]"
  have "?m \<in> pinned_blocks (t\<lparr>icache := ?c\<rparr>) \<or> seen (t\<lparr>icache := ?c\<rparr>) ?m = on_disk (t\<lparr>icache := ?c\<rparr>) ?m"
    using clean_ok [of p ?s ?m] rs(1) o by (auto simp: idle_def)
  then obtain u where u: "brelse b (t\<lparr>icache := ?c\<rparr>) = Done () u" "cache_ok p u" "held_blocks u = Map.empty" "cache_obs u = cache_obs t"
     "cache_rest u = cache_rest (t\<lparr>icache := ?c\<rparr>)"
    using bio.release_law [of p "t\<lparr>icache := ?c\<rparr>" b ?m] t(2,3) by auto
  have um: "icache u = ?c" "lg u = lg s" using more_fs(2) [OF rest_more(1) [OF u(5)]] lg_rest [OF u(5)] tm by simp_all
  have ld: "load_dinode (block s ?m) (dinode_off ?n) (icache s ! i) = ip" using assms(8) by (simp add: disk_inode_def)
  have d: "get_buf b b_data t = Done (block s ?m) t" using get_data_ok [OF t(2), of b ?m] t(3) o sn by simp
  have z: "log_ready p u" "\<forall>m < disksize s. block u m = block s m"
    using ready_of_obs [OF s u(2,3)] u(4) t(4) um by simp_all
  have "ilock (Some i) s = (if i_type ip \<noteq> 0 then Done () (u\<lparr>icache := (icache s)[i := ip\<lparr>i_valid := 1\<rparr>]\<rparr>) else Panic ''ilock: no type'')"
    using assms(2-5) a t(1) d u(1) um ld tm by (simp add: ilock_def kmonad get_inode_def upd_inode_def)
  then show ?thesis using z by simp
qed

text \<open>C14. Inodes survive in the cache and on disk. After \<open>iupdate\<close> the copy of the inode on disk, as the kernel sees
  it, has the type, device numbers, link count, size and block addresses of the cached inode, and
  the copies of all other inodes are unchanged; \<open>ilock\<close> on an entry for the same inode whose contents
  have not been read yet then restores all these fields.\<close>

theorem iupdate_ilock:
  assumes "log_ready p s" "log_room 1 s" "i_dev (icache s ! i) = 1" "length (i_addrs (icache s ! i)) = Suc NDIRECT"
    "inode_place s (i_inum (icache s ! i))" "i_type (icache s ! i) \<noteq> 0"
  shows "\<exists>t. iupdate i s = Done () t \<and> log_ready p t
     \<and> (\<forall>a e. inode_place s a \<and> a \<noteq> i_inum (icache s ! i) \<longrightarrow> disk_inode t a e = disk_inode s a e)
     \<and> (\<forall>c j. j < length c \<and> 1 \<le> i_ref (c ! j) \<and> i_valid (c ! j) = 0 \<and> i_dev (c ! j) = 1 \<and> i_inum (c ! j) = i_inum (icache s ! i)
         \<and> slk_locked (sleeplocks s (S_inode j)) = 0 \<longrightarrow>
         (\<exists>u. ilock (Some j) (t\<lparr>icache := c\<rparr>) = Done () u \<and> icache u = c[j := (same_dinode (icache s ! i) (c ! j))\<lparr>i_valid := 1\<rparr>]))"
proof -
  obtain t where t: "iupdate i s = Done () t" "log_ready p t" "klog.more t = klog.more s" "disksize t = disksize s" "inode_locks t = inode_locks s"
     and d: "\<forall>a e. inode_place s a \<longrightarrow> disk_inode t a e = (if a = i_inum (icache s ! i) then same_dinode (icache s ! i) e else disk_inode s a e)"
    using iupdate_disk_inode [OF assms(1-5)] by blast
  have e: "sb t = sb s" by (rule more_fs(1) [OF t(3)])
  have "\<exists>u. ilock (Some j) (t\<lparr>icache := c\<rparr>) = Done () u \<and> icache u = c[j := (same_dinode (icache s ! i) (c ! j))\<lparr>i_valid := 1\<rparr>]"
    if "j < length c" "1 \<le> i_ref (c ! j)" "i_valid (c ! j) = 0" "i_dev (c ! j) = 1" "i_inum (c ! j) = i_inum (icache s ! i)"
      "slk_locked (sleeplocks s (S_inode j)) = 0" for c j
  proof -
    have "same_dinode (icache s ! i) (c ! j) = disk_inode (t\<lparr>icache := c\<rparr>) (i_inum (c ! j)) (c ! j)"
      using d assms(5) that(5) by (simp add: disk_inode_def)
    moreover have "sleeplocks t (S_inode j) = sleeplocks s (S_inode j)" using fun_cong [OF t(5), of j] by (simp add: inode_locks_def)
    ultimately have "if i_type (same_dinode (icache s ! i) (c ! j)) \<noteq> 0 then
        \<exists>u. ilock (Some j) (t\<lparr>icache := c\<rparr>) = Done () u \<and> log_ready p u
          \<and> icache u = (icache (t\<lparr>icache := c\<rparr>))[j := (same_dinode (icache s ! i) (c ! j))\<lparr>i_valid := 1\<rparr>]
          \<and> (\<forall>m < disksize (t\<lparr>icache := c\<rparr>). block u m = block (t\<lparr>icache := c\<rparr>) m)
      else ilock (Some j) (t\<lparr>icache := c\<rparr>) = Panic ''ilock: no type''"
      by (intro ilock_run) (use t(2,4) that assms(5) e in \<open>simp_all add: inode_place_def\<close>)
    then show ?thesis using assms(6) by auto
  qed
  then show ?thesis using t(1,2) d by auto
qed

theorem iupdate_ilock_witness:
  "\<exists>t u. iupdate 0 sample_kfs = Done () t
     \<and> ilock (Some 0) (t\<lparr>icache := [sample_inode\<lparr>i_dev := 1, i_inum := 1, i_ref := 1\<rparr>]\<rparr>) = Done () u \<and> i_type (icache u ! 0) = 1 \<and> i_nlink (icache u ! 0) = 1"
proof -
  let ?c = "[sample_inode\<lparr>i_dev := 1, i_inum := 1, i_ref := 1\<rparr>]" and ?ip = "icache sample_kfs ! 0"
  have p: "inode_place sample_kfs (i_inum ?ip)" by (simp add: inode_place_def IBLOCK_def sample_sb_def log_area_def)
  have r: "log_room 1 sample_kfs" using sample_kfs_ready(2) by (auto simp: log_room_def)
  have i: "i_dev ?ip = 1" "length (i_addrs ?ip) = Suc NDIRECT" "i_type ?ip \<noteq> 0" by (simp_all add: sample_inode_def)
  have l: "slk_locked (sleeplocks sample_kfs (S_inode 0)) = 0" by (simp add: sample_kfs_def sample_klog_def)
  obtain t where t: "iupdate 0 sample_kfs = Done () t"
    "\<forall>c j. j < length c \<and> 1 \<le> i_ref (c ! j) \<and> i_valid (c ! j) = 0 \<and> i_dev (c ! j) = 1 \<and> i_inum (c ! j) = i_inum ?ip
         \<and> slk_locked (sleeplocks sample_kfs (S_inode j)) = 0 \<longrightarrow>
         (\<exists>u. ilock (Some j) (t\<lparr>icache := c\<rparr>) = Done () u \<and> icache u = c[j := (same_dinode ?ip (c ! j))\<lparr>i_valid := 1\<rparr>])"
    using iupdate_ilock [OF sample_kfs_ready(1) r i(1,2) p i(3)] by blast
  have "\<exists>u. ilock (Some 0) (t\<lparr>icache := ?c\<rparr>) = Done () u \<and> icache u = ?c[0 := (same_dinode ?ip (?c ! 0))\<lparr>i_valid := 1\<rparr>]"
    using t(2) [THEN spec, of ?c, THEN spec, of 0] l by (simp add: sample_inode_def)
  then show ?thesis using t(1) by (auto simp: same_dinode_def)
qed

end
