(* ===== verification/SysProps.thy ===== *)
theory SysProps
  imports Syscall InodeProps
begin

text \<open>
  Arguments of system calls: which pointers \<open>argptr\<close> accepts, where the checks wrap around, and what \<open>sys_sbrk\<close>
  does to the size of a process.
\<close>

section \<open>Checking pointers\<close>

lemma ptr_ok_range:
  assumes "ptr_ok n ss i len" "unat len < 2 ^ 31"
  shows "PGSIZE \<le> i \<and> (unat i + unat len \<le> unat n \<or> USERSTACKTOP - ss \<le> i \<and> unat i + unat len \<le> unat USERSTACKTOP)"
proof -
  have i: "PGSIZE \<le> i" "unat i \<le> unat USERSTACKTOP" using assms(1) by (auto simp: ptr_ok_def word_le_nat_alt not_less)
  then have u: "unat (i + len) = unat i + unat len" using assms(2) by (subst unat_add_lem [THEN iffD1]) simp_all
  show ?thesis
  proof (cases "i < n")
    case True
    then have "\<not> i + len > n" using assms(1) by (auto simp: ptr_ok_def not_less)
    then show ?thesis using i u by (simp add: word_less_nat_alt)
  next
    case False
    then have "USERSTACKTOP - ss \<le> i" "\<not> i + len > USERSTACKTOP" using assms(1) by (auto simp: ptr_ok_def not_less)
    then show ?thesis using i u by (simp add: word_less_nat_alt)
  qed
qed

lemma kload_state: "kload va n s = Done bs t \<Longrightarrow> t = s"
  by (induction va n arbitrary: bs s t rule: kload.induct) (auto simp: kmonad kload8_def split: outcome.splits option.splits)

lemma fetchint_state: "cpu_ok s \<Longrightarrow> cur s = Some p \<Longrightarrow> fetchint a s = Done r t \<Longrightarrow> t = s"
  by (auto simp: fetchint_def with_proc_run kmonad get_proc_def user_esp_def ld32_def kload32_def dest: kload_state split: if_splits outcome.splits)

lemma argint_state: "cpu_ok s \<Longrightarrow> cur s = Some p \<Longrightarrow> argint k s = Done r t \<Longrightarrow> t = s"
  by (auto simp: argint_def with_proc_run kmonad get_proc_def user_esp_def ld32_def dest: fetchint_state)

lemma sint_nonneg_unat: "0 \<le> sint (w :: uint32) \<Longrightarrow> unat w < 2 ^ 31"
proof -
  assume "0 \<le> sint w"
  then have b: "\<not> bit w 31" using bit_last_iff [of w] by simp
  have "take_bit 31 w = w"
  proof (rule bit_word_eqI)
    fix n assume "n < LENGTH(32)"
    then show "bit (take_bit 31 w) n = bit w n" using b by (cases "n = 31") (auto simp: bit_take_bit_iff)
  qed
  then show ?thesis using unat_take_bit_less [of 31 w] by simp
qed

text \<open>C21. A pointer that \<open>argptr\<close> accepts for a block of \<open>len\<close> bytes, not negative as a signed number, points
  to a block that lies entirely in the text, data and heap of the process above its first page, or
  entirely in its stack; so no block reaches into the kernel.\<close>

theorem argptr_in_user_memory:
  assumes "cpu_ok s" "cur s = Some p" "argptr k len s = Done (Some i) t" "0 \<le> sint len"
  defines "q \<equiv> ptable s ! p"
  shows "t = s \<and> PGSIZE \<le> i \<and> (unat i + unat len \<le> unat (sz q) \<or> USERSTACKTOP - stacksize q \<le> i \<and> unat i + unat len \<le> unat USERSTACKTOP)"
proof -
  obtain r where r: "argint k s = Done r s"
    using assms(1-3) argint_state [OF assms(1,2)] by (fastforce simp: argptr_def with_proc_run kmonad split: outcome.splits)
  then have "ptr_ok (sz q) (stacksize q) i len" "t = s"
    using assms(1-3) by (auto simp: argptr_def with_proc_run kmonad get_proc_def q_def split: option.splits if_splits)
  moreover have "unat len < 2 ^ 31" by (rule sint_nonneg_unat [OF assms(4)])
  ultimately show ?thesis using ptr_ok_range by blast
qed

text \<open>C29. \<open>argptr\<close> does not refuse a negative size, which \<open>sys_read\<close> and \<open>sys_write\<close> pass on from the user: with
  the size -1 a pointer to the last 16 bytes of the stack is accepted, although a file read with this
  count continues past them, into the kernel.\<close>

theorem argptr_negative_size:
  assumes "cpu_ok s" "cur s = Some p" "argint k s = Done (Some 0x7FFFFFF0) s" "PGSIZE \<le> stacksize (ptable s ! p)"
    "stacksize (ptable s ! p) \<le> USERSTACKTOP - PGSIZE" "sz (ptable s ! p) \<le> USERSTACKTOP - stacksize (ptable s ! p)"
  shows "argptr k 0xFFFFFFFF s = Done (Some 0x7FFFFFF0) s \<and> \<not> unat (0x7FFFFFF0 :: uint32) + unat (0xFFFFFFFF :: uint32) \<le> unat USERSTACKTOP"
proof -
  let ?n = "sz (ptable s ! p)" and ?ss = "stacksize (ptable s ! p)"
  have u: "unat (USERSTACKTOP - ?ss) = unat USERSTACKTOP - unat ?ss"
    using assms(5) by (intro unat_sub) (simp add: word_le_nat_alt)
  have "ptr_ok ?n ?ss 0x7FFFFFF0 0xFFFFFFFF" unfolding ptr_ok_def
    using assms(4-6) u by (auto simp: word_le_nat_alt word_less_nat_alt not_less)
  then show ?thesis
    using assms(1-3) by (simp add: argptr_def with_proc_run kmonad get_proc_def)
qed

lemma kload32_kernel:
  assumes "KERNBASE \<le> a" "KERNBASE \<le> a + 1" "KERNBASE \<le> a + 2" "KERNBASE \<le> a + 3"
  shows "kload32 a s = Done (load32 (memory s) a) s"
proof -
  have l: "kload8 b s = Done (memory s b) s" if "KERNBASE \<le> b" for b using that by (simp add: kload8_def kaddr_def)
  have four: "(4 :: nat) = Suc (Suc (Suc (Suc 0)))" by simp
  have "kload a (Suc (Suc (Suc (Suc 0)))) s = Done [memory s a, memory s (a + 1), memory s (a + 2), memory s (a + 3)] s"
    using l [OF assms(1)] l [OF assms(2)] l [OF assms(3)] l [OF assms(4)] by (simp add: kmonad add.assoc)
  then show ?thesis unfolding kload32_def four by (simp add: kmonad word_of_bytes_def load32_def del: kload.simps)
qed

text \<open>C30. \<open>fetchint\<close> adds 4 to the address before it compares it with the end of user memory. The sum wraps
  around for the last word of the address space, so a process whose stack pointer does not exceed it
  reads this word of kernel memory as an argument.\<close>

theorem fetchint_wraps:
  assumes "cpu_ok s" "cur s = Some p" "load32 (memory s) (tf (ptable s ! p) + tf_esp) \<le> 0xFFFFFFFC"
  shows "fetchint 0xFFFFFFFC s = Done (Some (load32 (memory s) 0xFFFFFFFC)) s"
proof -
  have "kload32 0xFFFFFFFC s = Done (load32 (memory s) 0xFFFFFFFC) s" by (rule kload32_kernel) simp_all
  then show ?thesis using assms by (simp add: fetchint_def with_proc_run kmonad get_proc_def user_esp_def ld32_def not_less)
qed

section \<open>A sample process\<close>

text \<open>Its trap frame is at \<open>0x80600000\<close>; its stack pointer has been set to the end of the address space.\<close>

definition sample_user :: kproc where
  "sample_user = sample_kproc\<lparr>memory := store32 (store32 sample_memory 0x80600044 0xFFFFFFF8) 0xFFFFFFFC 0x7FFFFFF0,
     ptable := (ptable sample_kproc)[0 := sample_proc\<lparr>pstate := RUNNING, pid := 1, sz := 0x4000, stacksize := 0x1000, tf := 0x80600000\<rparr>]\<rparr>"

lemma sample_user_fields:
  "cpu_ok sample_user" "cur sample_user = Some 0" "tf (ptable sample_user ! 0) = 0x80600000" "sz (ptable sample_user ! 0) = 0x4000"
  "stacksize (ptable sample_user ! 0) = 0x1000" "load32 (memory sample_user) 0x80600044 = 0xFFFFFFF8" "load32 (memory sample_user) 0xFFFFFFFC = 0x7FFFFFF0"
proof -
  have "lock_ok L_ptable sample_kproc" by simp
  then show "cpu_ok sample_user" by (simp add: sample_user_def lock_ok_def cpu_ok_def this_cpu_def)
  show "cur sample_user = Some 0" by (simp add: sample_user_def cur_def this_cpu_def cpu_index_def sample_kproc_def sample_cpu_def)
qed (simp_all add: sample_user_def sample_kproc_def load32_store32_aligned)

theorem fetchint_wraps_witness: "fetchint 0xFFFFFFFC sample_user = Done (Some 0x7FFFFFF0) sample_user"
  using fetchint_wraps [of sample_user 0] sample_user_fields by simp

lemma sample_user_argint: "argint 0 sample_user = Done (Some 0x7FFFFFF0) sample_user"
proof -
  have "kload32 0xFFFFFFFC sample_user = Done 0x7FFFFFF0 sample_user"
    using kload32_kernel [of "0xFFFFFFFC" sample_user] sample_user_fields(7) by simp
  then show ?thesis using sample_user_fields
    by (simp add: argint_def fetchint_def with_proc_run kmonad get_proc_def user_esp_def ld32_def)
qed

theorem argptr_negative_size_witness: "argptr 0 0xFFFFFFFF sample_user = Done (Some 0x7FFFFFF0) sample_user"
  using argptr_negative_size [of sample_user 0 0] sample_user_fields sample_user_argint by simp

theorem argptr_in_user_memory_witness:
  "argptr 0 16 sample_user = Done (Some 0x7FFFFFF0) sample_user \<and> unat (0x7FFFFFF0 :: uint32) + unat (16 :: uint32) \<le> unat USERSTACKTOP"
proof -
  have a: "argptr 0 16 sample_user = Done (Some 0x7FFFFFF0) sample_user"
    using sample_user_fields sample_user_argint by (simp add: argptr_def with_proc_run kmonad get_proc_def ptr_ok_def)
  then show ?thesis using argptr_in_user_memory [OF sample_user_fields(1,2) a] sample_user_fields by simp
qed

lemma upd_mycpu_run:
  assumes "this_cpu s < length (cpus s)" "eflags s AND 512 = 0"
  shows "upd_mycpu f s = Done () (s\<lparr>cpus := (cpus s)[this_cpu s := f (cpus s ! this_cpu s)]\<rparr>)"
  using assms by (simp add: upd_mycpu_def kmonad mycpu_run upd_cpu_def)

text \<open>\<open>switchuvm\<close> sets up the task segment and the page directory of a process.\<close>

lemma switchuvm_run:
  assumes "cpu_ok s" "kstack (ptable s ! p) \<noteq> 0" "pgdir (ptable s ! p) \<noteq> 0"
  shows "\<exists>g w. switchuvm (Some p) s = Done () (s\<lparr>cpus := (cpus s)[this_cpu s := (cpus s ! this_cpu s)\<lparr>gdt := g, ts := w\<rparr>],
     tr := 40, cr3 := V2P (pgdir (ptable s ! p))\<rparr>)"
proof -
  let ?i = "this_cpu s"
  have i: "?i < length (cpus s)" "cpu_index (lapicid s) (cpus s) < length (cpus s)" using assms(1) by (simp_all add: cpu_ok_def this_cpu_def)
  have cpu: "ncli (cpus s ! ?i) = 0 \<and> intena (cpus s ! ?i) = eflags s AND 512
      \<or> ncli (cpus s ! ?i) > 0 \<and> eflags s AND 512 = 0"
    using assms(1) by (simp add: cpu_ok_def Let_def)
  let ?c = "(cpus s ! ?i)\<lparr>intena := if ncli (cpus s ! ?i) = 0 then eflags s AND FL_IF else intena (cpus s ! ?i), ncli := ncli (cpus s ! ?i) + 1\<rparr>"
  let ?t = "\<lambda>g w. s\<lparr>eflags := eflags s AND NOT FL_IF, cpus := (cpus s)[?i := ?c\<lparr>gdt := g, ts := w\<rparr>], tr := 40, cr3 := V2P (pgdir (ptable s ! p))\<rparr>"
  have "\<exists>g w. switchuvm (Some p) s = popcli (?t g w)"
    using assms(2,3) i by (simp add: switchuvm_def kmonad get_proc_def pushcli_run [OF i(1)] upd_mycpu_def mycpu_run upd_cpu_def ltr_def lcr3_def Let_def this_cpu_def) blast
  then obtain g w where "switchuvm (Some p) s = popcli (?t g w)" by blast
  moreover have "popcli (?t g w) = Done () (s\<lparr>cpus := (cpus s)[?i := (cpus s ! ?i)\<lparr>gdt := g, ts := w\<rparr>], tr := 40, cr3 := V2P (pgdir (ptable s ! p))\<rparr>)"
    using cpu i by (subst popcli_run) (auto simp: Let_def this_cpu_def if_restore if_clear_id cpu_intena_id)
  ultimately show ?thesis by auto
qed

section \<open>Growing a process\<close>

text \<open>Growth within the last page of the process needs no new page.\<close>

definition grows_in_page :: "proc \<Rightarrow> uint32 \<Rightarrow> bool" where
  "grows_in_page q n \<longleftrightarrow> unat (sz q) + unat n \<le> unat (PGROUNDUP (sz q))
     \<and> unat (PGROUNDUP (sz q)) + unat (stacksize q) + unat PGSIZE \<le> unat USERSTACKTOP \<and> stack_growing q = 0"

lemma allocuvm_in_page:
  assumes "cpu_ok s" "cur s = Some p" "grows_in_page (ptable s ! p) n"
  shows "allocuvm pgd (sz (ptable s ! p)) (sz (ptable s ! p) + n) s = Done (sz (ptable s ! p) + n) s"
    "\<not> sz (ptable s ! p) + n > USERSTACKTOP - stacksize (ptable s ! p) - PGSIZE" "unat (sz (ptable s ! p) + n) = unat (sz (ptable s ! p)) + unat n"
proof -
  let ?q = "ptable s ! p"
  note g = assms(3) [unfolded grows_in_page_def]
  show u: "unat (sz ?q + n) = unat (sz ?q) + unat n"
    using g unsigned_less [of "PGROUNDUP (sz ?q)", where 'a = nat] by (subst unat_add_lem [THEN iffD1]) simp_all
  have l: "unat (USERSTACKTOP - stacksize ?q - PGSIZE) = unat USERSTACKTOP - unat (stacksize ?q) - unat PGSIZE"
    using g by (simp add: unat_sub word_le_nat_alt)
  have "unat (sz ?q) + unat n \<le> unat USERSTACKTOP - unat (stacksize ?q) - unat PGSIZE" using g by linarith
  then show lim: "\<not> sz ?q + n > USERSTACKTOP - stacksize ?q - PGSIZE" unfolding word_less_nat_alt u l by linarith
  have "\<not> sz ?q + n > KERNBASE" "\<not> sz ?q + n < sz ?q" "\<not> PGROUNDUP (sz ?q) < sz ?q + n"
    using g u by (simp_all add: word_less_nat_alt)
  moreover have "allocuvm_loop page_fuel p pgd (sz ?q) (sz ?q + n) (PGROUNDUP (sz ?q)) True s = Done (sz ?q + n) s"
    unfolding page_fuel_def allocuvm_loop.simps using calculation(3) by (simp add: kmonad)
  ultimately show "allocuvm pgd (sz ?q) (sz ?q + n) s = Done (sz ?q + n) s"
    using assms(1,2) g lim by (simp add: allocuvm_def with_proc_run kmonad get_proc_def Let_def)
qed

lemma growproc_in_page:
  assumes "cpu_ok s" "cur s = Some p" "p < length (ptable s)" "grows_in_page (ptable s ! p) n" "0 < sint n"
    "kstack (ptable s ! p) \<noteq> 0" "pgdir (ptable s ! p) \<noteq> 0"
  shows "\<exists>t. growproc n s = Done 0 t \<and> ptable t = (ptable s)[p := (ptable s ! p)\<lparr>sz := sz (ptable s ! p) + n\<rparr>]"
proof -
  let ?q = "ptable s ! p"
  let ?s = "s\<lparr>ptable := (ptable s)[p := ?q\<lparr>sz := sz ?q + n\<rparr>]\<rparr>"
  note a = allocuvm_in_page [OF assms(1,2,4)]
  have n: "n \<noteq> 0" using assms(5) by auto
  then have r: "sz ?q + n \<noteq> 0" using a(3) by (metis add_is_0 unat_0 unat_eq_0)
  have "cpu_ok ?s" using assms(1) by (simp add: cpu_ok_def this_cpu_def)
  then obtain g w where "switchuvm (Some p) ?s = Done () (?s\<lparr>cpus := (cpus s)[this_cpu s := (cpus s ! this_cpu s)\<lparr>gdt := g, ts := w\<rparr>],
     tr := 40, cr3 := V2P (pgdir ?q)\<rparr>)"
    using switchuvm_run [of ?s p] assms(3,6,7) by (auto simp: this_cpu_def)
  then show ?thesis
    using assms(1,2,5) a n r by (simp add: growproc_def with_proc_run kmonad get_proc_def upd_proc_def)
qed


text \<open>A complete state: the file system of \<open>sample_kfs\<close> and the process of \<open>sample_user\<close>, with a kernel stack and a
  page directory. Its first argument is 16.\<close>

definition sample_kcons :: kcons where
  "sample_kcons = kfs.extend sample_kfs (kcons.fields (\<lambda>_. 0x0720) 0 0 [] [] [] 0 (replicate 128 0) 0 0 0 0 (replicate 10 (None, None)))"

definition sample_openfile :: openfile where
  "sample_openfile = \<lparr>f_type = FD_NONE, f_ref = 0, f_readable = 0, f_writable = 0, f_pipe = 0, f_ip = None, f_off = 0\<rparr>"

definition sample_kshm :: kshm where
  "sample_kshm = kfile.extend (kcons.extend sample_kcons (kfile.fields (replicate 100 sample_openfile)))
     (kshm.fields [] 0 0 [] 0)"

definition sample_sbrk :: kshm where
  "sample_sbrk = sample_kshm\<lparr>memory := store32 (store32 sample_memory 0x80600044 0xFFFFFFF8) 0xFFFFFFFC 16,
     ptable := (ptable sample_kshm)[0 := sample_proc\<lparr>pstate := RUNNING, pid := 1, sz := 0x4010, stacksize := 0x1000,
       tf := 0x80600000, kstack := 0x80700000, pgdir := 0x80410000\<rparr>]\<rparr>"

lemma sample_kshm_machine:
  "cpus sample_kshm = [sample_cpu]" "lapicid sample_kshm = 0" "eflags sample_kshm = 512" "locks sample_kshm = (\<lambda>_. \<lparr>sl_locked = 0, sl_cpu = None\<rparr>)"
  "length (ptable sample_kshm) = 64"
  by (simp_all add: sample_kshm_def sample_kcons_def sample_kfs_def sample_klog_def klog.extend_def kfs.extend_def kcons.extend_def kfile.extend_def
      kfs.fields_def kcons.fields_def kfile.fields_def kshm.fields_def)

lemma sample_sbrk_fields:
  "cpu_ok sample_sbrk" "cur sample_sbrk = Some 0" "0 < length (ptable sample_sbrk)"
  "ptable sample_sbrk ! 0 = sample_proc\<lparr>pstate := RUNNING, pid := 1, sz := 0x4010, stacksize := 0x1000,
       tf := 0x80600000, kstack := 0x80700000, pgdir := 0x80410000\<rparr>"
  "load32 (memory sample_sbrk) 0x80600044 = 0xFFFFFFF8" "load32 (memory sample_sbrk) 0xFFFFFFFC = 16"
  using sample_kshm_machine
  by (simp_all add: sample_sbrk_def cpu_ok_def this_cpu_def cpu_index_def cur_def sample_cpu_def Let_def load32_store32_aligned)


end
