(* ===== verification/ConsoleProps.thy ===== *)
theory ConsoleProps
  imports SysProps
begin

text \<open>
  The console keeps its cursor on the screen and its input in the ring: the locale \<open>char_source\<close> for the
  function that \<open>consoleintr\<close> gets its characters from, interpreted on the keyboard and the serial line.
\<close>

text \<open>The cursor is on the screen, and the input is a part of the ring: up to \<open>in_w\<close> complete, up to \<open>in_e\<close> being
  edited. The three indices are never reduced, so they are compared by their distances.\<close>

definition console_ok :: "'a kcons_scheme \<Rightarrow> bool" where
  "console_ok s \<longleftrightarrow> 0 \<le> crt_pos s \<and> crt_pos s < 24 * 80 \<and> length (in_buf s) = INPUT_BUF
     \<and> unat (in_w s - in_r s) \<le> unat (in_e s - in_r s) \<and> unat (in_e s - in_r s) \<le> INPUT_BUF"

text \<open>What a key changes: the screen, the serial line, the line being edited and who waits for input.\<close>

definition key_frame :: "'a kcons_scheme \<Rightarrow> 'a kcons_scheme \<Rightarrow> bool" where
  "key_frame s t \<longleftrightarrow> cpus t = cpus s \<and> lapicid t = lapicid s \<and> eflags t = eflags s \<and> locks t = locks s \<and> in_r t = in_r s
     \<and> kbd_in t = kbd_in s \<and> uart_in t = uart_in s \<and> uart t = uart s \<and> memory t = memory s \<and> kcons.more t = kcons.more s"

lemma key_frame_refl [simp]: "key_frame s s"
  and key_frame_trans: "key_frame s t \<Longrightarrow> key_frame t u \<Longrightarrow> key_frame s u"
  by (simp_all add: key_frame_def)

lemma key_frame_lock: "key_frame s t \<Longrightarrow> lock_ok l s \<Longrightarrow> lock_ok l t"
  by (simp add: key_frame_def lock_ok_def cpu_ok_def lock_free_def this_cpu_def)

lemma cga_range:
  assumes "0 \<le> pos" "pos < 1920" "cga_place c pos m = (pos1, m1)" "cga_scroll pos1 m1 = (pos2, m2)"
  shows "0 \<le> pos1" "pos1 \<le> 1920" "0 \<le> pos2" "pos2 < 1920"
proof -
  have "pos + (80 - pos mod 80) = (pos div 80 + 1) * 80" by (simp add: algebra_simps minus_mod_eq_mult_div [symmetric])
  moreover have "pos div 80 < 24" "0 \<le> pos div 80" using assms(1,2) by linarith+
  ultimately show a: "0 \<le> pos1" "pos1 \<le> 1920" using assms(1-3) by (auto simp: cga_place_def split: if_splits)
  have "\<not> 24 \<le> pos1 div 80 \<Longrightarrow> pos1 < 1920" by linarith
  then show "0 \<le> pos2" "pos2 < 1920" using a assms(4) by (auto simp: cga_scroll_def Let_def split: if_splits)
qed

lemma consputc_ok:
  assumes "console_ok s"
  shows "\<exists>t. consputc c s = Done () t \<and> console_ok t \<and> key_frame s t \<and> in_w t = in_w s \<and> in_e t = in_e s \<and> in_buf t = in_buf s"
proof -
  obtain pos1 m1 pos2 m2 where p: "cga_place c (crt_pos s) (crt s) = (pos1, m1)" "cga_scroll pos1 m1 = (pos2, m2)" by fastforce
  have "0 \<le> crt_pos s" "crt_pos s < 1920" using assms by (simp_all add: console_ok_def)
  note r = cga_range [OF this p]
  show ?thesis using assms r p
    by (auto simp: consputc_def uartputc_def cgaputc_def kmonad console_ok_def key_frame_def Let_def)
qed

lemma rub_out_ok:
  assumes "console_ok s" "in_e s \<noteq> in_w s"
  shows "\<exists>t. rub_out s = Done () t \<and> console_ok t \<and> key_frame s t \<and> in_w t = in_w s \<and> unat (in_e s - in_w s) = Suc (unat (in_e t - in_w t))"
proof -
  have pred: "unat (a - 1) = unat a - 1" if "a \<noteq> 0" for a :: uint32
    using that by (simp add: unat_minus_one)
  have "in_e s - in_r s \<noteq> 0"
    using assms by (auto simp: console_ok_def unat_eq_0)
  then have e: "unat (in_e s - 1 - in_r s) = unat (in_e s - in_r s) - 1" using pred [of "in_e s - in_r s"] by (simp add: algebra_simps)
  have d: "unat (in_e s - in_w s) = Suc (unat (in_e s - 1 - in_w s))"
    using pred [of "in_e s - in_w s"] assms(2) unat_gt_0 [of "in_e s - in_w s"] by (simp add: algebra_simps)
  have "unat (in_w s - in_r s) \<noteq> unat (in_e s - in_r s)"
    using assms(2) by (simp add: word_unat_eq_iff [symmetric])
  then have "console_ok (s\<lparr>in_e := in_e s - 1\<rparr>)" using assms(1) e by (auto simp: console_ok_def)
  from consputc_ok [OF this, of BACKSPACE] show ?thesis
    using d by (auto simp: rub_out_def kmonad key_frame_def)
qed

lemma kill_line_ok:
  "console_ok s \<Longrightarrow> unat (in_e s - in_w s) < n \<Longrightarrow> \<exists>t. kill_line n s = Done () t \<and> console_ok t \<and> key_frame s t"
proof (induction n arbitrary: s)
  case (Suc n)
  show ?case
  proof (cases "in_e s \<noteq> in_w s \<and> input_at s (in_e s - 1) \<noteq> 10")
    case True
    then obtain t where t: "rub_out s = Done () t" "console_ok t" "key_frame s t" "unat (in_e s - in_w s) = Suc (unat (in_e t - in_w t))"
      using rub_out_ok [OF Suc.prems(1)] by blast
    then obtain u where "kill_line n t = Done () u" "console_ok u" "key_frame t u"
      using Suc.IH [of t] Suc.prems(2) by auto
    then show ?thesis using True t key_frame_trans by (auto simp: kmonad)
  next
    case False
    then have "kill_line (Suc n) s = Done () s" by (auto simp: kmonad)
    then show ?thesis using Suc.prems(1) by (simp del: kill_line.simps)
  qed
qed simp

lemma put_input_ok:
  assumes "console_ok s" "lock_ok L_ptable s" "in_e s - in_r s < of_nat INPUT_BUF"
  shows "\<exists>t. put_input c s = Done () t \<and> console_ok t \<and> key_frame s t"
proof -
  let ?c = "if c = 13 then 10 else c"
  let ?s = "s\<lparr>in_buf := (in_buf s)[unat (in_e s) mod INPUT_BUF := of_int ?c], in_e := in_e s + 1\<rparr>"
  have "unat (in_e s - in_r s) < 128" using assms(3) by (simp add: word_less_nat_alt)
  then have e: "unat (in_e s + 1 - in_r s) = Suc (unat (in_e s - in_r s))"
  proof -
    have "unat (in_e s - in_r s + 1) = Suc (unat (in_e s - in_r s))"
      using \<open>unat (in_e s - in_r s) < 128\<close> by (subst unat_add_lem [THEN iffD1]) simp_all
    moreover have "in_e s - in_r s + 1 = in_e s + 1 - in_r s" by simp
    ultimately show ?thesis by simp
  qed
  have "console_ok ?s" using assms(1) e \<open>unat (in_e s - in_r s) < 128\<close> by (auto simp: console_ok_def)
  from consputc_ok [OF this, of ?c]
  obtain t where t: "consputc ?c ?s = Done () t" "console_ok t" "key_frame ?s t" by blast
  have f: "key_frame s t" using t(3) by (simp add: key_frame_def)
  have w: "wakeup C_input (t\<lparr>in_w := in_e t\<rparr>) = Done () (t\<lparr>in_w := in_e t, ptable := map (wakeup_proc C_input) (ptable t)\<rparr>)"
    using wakeup_run [of "t\<lparr>in_w := in_e t\<rparr>"] key_frame_lock [OF f assms(2)] by (simp add: lock_ok_def cpu_ok_def lock_free_def this_cpu_def)
  have ok: "console_ok (t\<lparr>in_w := in_e t, ptable := map (wakeup_proc C_input) (ptable t)\<rparr>)"
    "key_frame s (t\<lparr>in_w := in_e t, ptable := map (wakeup_proc C_input) (ptable t)\<rparr>)"
    using t(2) f by (auto simp: console_ok_def key_frame_def)
  show ?thesis
  proof (cases "?c = 10 \<or> ?c = 4 \<or> in_e t = in_r t + 128")
    case True
    then show ?thesis using t(1) w ok by (auto simp: put_input_def kmonad Let_def)
  next
    case False
    then have "put_input c s = Done () t" using t(1) by (auto simp: put_input_def kmonad Let_def)
    then show ?thesis using t(2) f by blast
  qed
qed

lemma console_key_ok:
  assumes "console_ok s" "lock_ok L_ptable s"
  shows "\<exists>t. console_key c s = Done () t \<and> console_ok t \<and> key_frame s t"
proof -
  consider "c = 16" | "c = 21" | "c = 8 \<or> c = 127" | "c \<noteq> 16" "c \<noteq> 21" "\<not> (c = 8 \<or> c = 127)" by blast
  then show ?thesis
  proof cases
    case 2
    then show ?thesis using kill_line_ok [OF assms(1), of "Suc (unat (in_e s - in_w s))"] by (simp add: console_key_def kmonad)
  next
    case 3
    then show ?thesis using rub_out_ok [OF assms(1)] assms(1) by (cases "in_e s = in_w s") (auto simp: console_key_def kmonad)
  next
    case 4
    then show ?thesis using put_input_ok [OF assms] assms(1)
      by (cases "c \<noteq> 0 \<and> in_e s - in_r s < of_nat INPUT_BUF") (auto simp: console_key_def kmonad)
  qed (use assms(1) in \<open>simp add: console_key_def kmonad\<close>)
qed

section \<open>Interrupts\<close>

text \<open>\<open>consoleintr\<close> gets its characters from a function: it has \<open>ready s\<close> of them, and returns a negative number when
  there are no more.\<close>

definition dev_frame :: "'a kcons_scheme \<Rightarrow> 'a kcons_scheme \<Rightarrow> bool" where
  "dev_frame s t \<longleftrightarrow> t = s\<lparr>kbd_in := kbd_in t, kbd_shift := kbd_shift t, uart_in := uart_in t\<rparr>"

lemma dev_frameD:
  assumes "dev_frame s t"
  shows "cpus t = cpus s" "lapicid t = lapicid s" "eflags t = eflags s" "locks t = locks s" "in_r t = in_r s" "console_ok t = console_ok s"
proof -
  obtain a b c where t: "t = s\<lparr>kbd_in := a, kbd_shift := b, uart_in := c\<rparr>" using assms unfolding dev_frame_def by blast
  show "cpus t = cpus s" "lapicid t = lapicid s" "eflags t = eflags s" "locks t = locks s" "in_r t = in_r s" "console_ok t = console_ok s"
    by (simp_all add: t console_ok_def)
qed

locale char_source =
  fixes getc :: "(int, 'a kcons_scheme) kop"
    and ready :: "'a kcons_scheme \<Rightarrow> nat"
  assumes getc_none: "ready s = 0 \<Longrightarrow> getc s = Done (- 1) s"
    and getc_some: "ready s = Suc n \<Longrightarrow> \<exists>c t. getc s = Done c t \<and> 0 \<le> c \<and> ready t = n \<and> dev_frame s t"
    and ready_key: "key_frame s t \<Longrightarrow> ready t = ready s"
begin

lemma keys_ok:
  assumes "console_ok s" "lock_ok L_ptable s" "ready s < n"
  shows "\<exists>t. console_keys n getc s = Done () t \<and> console_ok t \<and> ready t = 0 \<and> in_r t = in_r s
     \<and> cpus t = cpus s \<and> lapicid t = lapicid s \<and> eflags t = eflags s \<and> locks t = locks s"
  using assms
proof (induction n arbitrary: s)
  case (Suc n)
  show ?case
  proof (cases "ready s")
    case 0
    then show ?thesis using getc_none [OF 0] Suc.prems by (simp add: kmonad)
  next
    case (Suc k)
    obtain c t where t: "getc s = Done c t" "0 \<le> c" "ready t = k" "dev_frame s t" using getc_some [OF Suc] by blast
    note f = dev_frameD [OF t(4)]
    have l: "lock_ok L_ptable t" using Suc.prems(2) f by (simp add: lock_ok_def cpu_ok_def lock_free_def this_cpu_def)
    obtain u where u: "console_key c t = Done () u" "console_ok u" "key_frame t u"
      using console_key_ok [of t c] f l Suc.prems(1) by auto
    have "\<exists>v. console_keys n getc u = Done () v \<and> console_ok v \<and> ready v = 0 \<and> in_r v = in_r u
       \<and> cpus v = cpus u \<and> lapicid v = lapicid u \<and> eflags v = eflags u \<and> locks v = locks u"
      using Suc.IH [OF u(2) key_frame_lock [OF u(3) l]] ready_key [OF u(3)] t(3) Suc.prems(3) Suc by simp
    then show ?thesis using t(1,2) u(1,3) f by (auto simp: kmonad key_frame_def)
  qed
qed simp

lemma intr_ok:
  assumes "console_ok s" "lock_ok L_cons s" "lock_ok L_ptable s" "ready s < n" "ready (entered L_cons s) = ready s"
    "\<And>t f. ready (t\<lparr>cpus := cpus s, eflags := eflags s, locks := locks s\<rparr>) = ready t"
  shows "\<exists>t. consoleintr n getc s = Done () t \<and> console_ok t \<and> ready t = 0 \<and> in_r t = in_r s \<and> locks t = locks s \<and> cpus t = cpus s \<and> eflags t = eflags s"
proof -
  let ?s = "entered L_cons s"
  have "console_ok ?s" using assms(1) by (simp add: console_ok_def entered_def Let_def)
  moreover have "lock_ok L_ptable ?s" by (rule entered_lock_ok [OF assms(3,2)]) simp
  ultimately obtain t where t: "console_keys n getc ?s = Done () t" "console_ok t" "ready t = 0" "in_r t = in_r ?s"
      "cpus t = cpus ?s" "lapicid t = lapicid ?s" "eflags t = eflags ?s" "locks t = locks ?s"
    using keys_ok [of ?s n] assms(4,5) by auto
  have "lapicid t = lapicid s" "in_r t = in_r s" using t(4,6) by (simp_all add: entered_def Let_def)
  moreover from this have "release L_cons t = Done () (t\<lparr>cpus := cpus s, eflags := eflags s, locks := locks s\<rparr>)"
    using release_entered [OF assms(2) t(5) _ t(7,8)] by simp
  ultimately show ?thesis
    using t(1-3) assms(6) by (simp add: consoleintr_def kmonad acquire_entered [OF assms(2)] console_ok_def)
qed

end

interpretation kbd: char_source kbdgetc "\<lambda>s. length (kbd_in s)"
  by unfold_locales (auto simp: kbdgetc_def key_frame_def dev_frame_def length_Suc_conv split: prod.split)

definition uart_ready :: "'a kcons_scheme \<Rightarrow> nat" where
  "uart_ready s = (if uart s = 0 then 0 else length (uart_in s))"

interpretation uart: char_source uartgetc uart_ready
proof (unfold_locales, goal_cases)
  case (1 s) then show ?case by (auto simp: uart_ready_def uartgetc_def split: if_splits)
next
  case (2 s n)
  then obtain b bs where "uart s \<noteq> 0" "uart_in s = b # bs" "length bs = n" by (auto simp: uart_ready_def length_Suc_conv split: if_splits)
  then show ?case by (simp add: uartgetc_def uart_ready_def dev_frame_def)
next
  case (3 s t) then show ?case by (simp add: uart_ready_def key_frame_def)
qed

lemma kcons_entered [simp]: "kbd_in (entered l s) = kbd_in s" "uart_in (entered l s) = uart_in s" "uart (entered l s) = uart s"
  by (simp_all add: entered_def Let_def)

text \<open>C24. Console interrupts. Whatever characters the keyboard or the serial line has ready, the interrupt handler
  processes all of them and returns: it never panics about the position of the cursor and never
  loops. The cursor stays on the screen, the input stays within the ring buffer between the reader
  and the line being edited, and the locks are as before.\<close>

theorem console_interrupts:
  assumes "console_ok s" "lock_ok L_cons s" "lock_ok L_ptable s"
  shows "(\<exists>t. kbdintr s = Done () t \<and> console_ok t \<and> kbd_in t = [] \<and> in_r t = in_r s \<and> locks t = locks s)
     \<and> (\<exists>t. uartintr s = Done () t \<and> console_ok t \<and> (uart t = 0 \<or> uart_in t = []) \<and> in_r t = in_r s \<and> locks t = locks s)"
proof
  show "\<exists>t. kbdintr s = Done () t \<and> console_ok t \<and> kbd_in t = [] \<and> in_r t = in_r s \<and> locks t = locks s"
    using kbd.intr_ok [OF assms, of "Suc (length (kbd_in s))"] by (auto simp: kbdintr_def kmonad)
  show "\<exists>t. uartintr s = Done () t \<and> console_ok t \<and> (uart t = 0 \<or> uart_in t = []) \<and> in_r t = in_r s \<and> locks t = locks s"
  proof -
    have "uart_ready s < Suc (length (uart_in s))" "uart_ready (entered L_cons s) = uart_ready s"
      "uart_ready (t\<lparr>cpus := cpus s, eflags := eflags s, locks := locks s\<rparr>) = uart_ready t" for t by (simp_all add: uart_ready_def)
    from uart.intr_ok [OF assms this] show ?thesis by (auto simp: uartintr_def kmonad uart_ready_def split: if_splits)
  qed
qed

theorem console_interrupts_witness:
  "\<exists>t. kbdintr (sample_kcons\<lparr>kbd_in := [0x1E, 0x0E, 0x1C]\<rparr>) = Done () t \<and> console_ok t \<and> kbd_in t = []"
proof -
  let ?s = "sample_kcons\<lparr>kbd_in := [0x1E, 0x0E, 0x1C]\<rparr>"
  have "console_ok ?s" "lock_ok l ?s" for l
    by (simp_all add: sample_kcons_def console_ok_def lock_ok_def cpu_ok_def lock_free_def this_cpu_def cpu_index_def sample_kfs_def sample_klog_def
        klog.extend_def kfs.extend_def kfs.fields_def kcons.fields_def sample_cpu_def Let_def)
  then show ?thesis using console_interrupts [of ?s] by blast
qed

end
