(* ===== verification/ProcProps.thy ===== *)
theory ProcProps
  imports SysProps
begin

text \<open>
  Scheduling and the end of a process: a pass of the scheduler over the process table as a step relation,
  and the hand-over between \<open>exit\<close> and \<open>wait\<close>.
\<close>

section \<open>Scheduling\<close>

text \<open>The processor is inside the loop of \<open>scheduler\<close>: it holds the table lock, once, with interrupts off,
  and every process that may run has a kernel stack and a page directory.\<close>

definition in_scheduler :: "'a kproc_scheme \<Rightarrow> bool" where
  "in_scheduler s \<longleftrightarrow> this_cpu s < length (cpus s) \<and> ncli (cpus s ! this_cpu s) = 1 \<and> eflags s AND FL_IF = 0 \<and>
     locks s L_ptable = \<lparr>sl_locked = 1, sl_cpu = Some (this_cpu s)\<rparr> \<and>
     (\<forall>q \<in> set (ptable s). pstate q = RUNNABLE \<longrightarrow> kstack q \<noteq> 0 \<and> pgdir q \<noteq> 0)"

definition runnable :: "'a kproc_scheme \<Rightarrow> nat \<Rightarrow> bool" where
  "runnable s j \<longleftrightarrow> j < length (ptable s) \<and> pstate (ptable s ! j) = RUNNABLE"

text \<open>Process \<open>p\<close> got the processor in state \<open>s\<close> and hands it back in state \<open>t\<close>: a process that waits for the
  processor does not stop waiting meanwhile.\<close>

definition came_back :: "nat \<Rightarrow> 'a kproc_scheme \<Rightarrow> 'a kproc_scheme \<Rightarrow> bool" where
  "came_back p s t \<longleftrightarrow> in_scheduler t \<and> (\<forall>j. j \<noteq> p \<longrightarrow> runnable s j \<longrightarrow> runnable t j)"

text \<open>One pass over the process table: each \<open>swtch\<close> to a process is followed by the rest of the loop once the
  process has come back. The list holds the processes that ran, in order.\<close>

inductive sched_pass :: "(unit, 'a kvm_scheme) outcome \<Rightarrow> nat list \<Rightarrow> bool" where
  pass_end: "sched_pass (Done () t) []"
| pass_run: "\<lbrakk>cur u = Some p; came_back p u v; sched_pass (scheduler_resume p v) ps\<rbrakk> \<Longrightarrow> sched_pass (Switch u) (p # ps)"

inductive_cases pass_DoneE: "sched_pass (Done x t) ps"
inductive_cases pass_SwitchE: "sched_pass (Switch u) ps"

text \<open>A dispatch of the first runnable process at or after \<open>i\<close>.\<close>

lemma sched_scan_some:
  assumes s: "in_scheduler s" and f: "find (\<lambda>j. pstate (ptable s ! j) = RUNNABLE) [i..<length (ptable s)] = Some p"
  shows "\<exists>t. sched_scan i s = Switch t \<and> ptable t = (ptable s)[p := (ptable s ! p)\<lparr>pstate := RUNNING\<rparr>] \<and>
     cur t = Some p \<and> cr3 t = V2P (pgdir (ptable s ! p)) \<and> in_scheduler t"
proof -
  have p: "p < length (ptable s)" "pstate (ptable s ! p) = RUNNABLE"
    using f by (auto simp: find_Some_iff)
  have i: "this_cpu s < length (cpus s)" "eflags s AND 512 = 0" "ncli (cpus s ! this_cpu s) = 1"
    and q: "kstack (ptable s ! p) \<noteq> 0" "pgdir (ptable s ! p) \<noteq> 0"
    using s p by (auto simp: in_scheduler_def)
  let ?f = "\<lambda>c :: cpu. c\<lparr>cpu_proc := Some p\<rparr>"
  let ?u = "s\<lparr>cpus := (cpus s)[this_cpu s := ?f (cpus s ! this_cpu s)]\<rparr>"
  have th: "this_cpu ?u = this_cpu s" by simp
  have ok: "cpu_ok ?u" unfolding cpu_ok_def th using i by simp
  let ?t = "\<lambda>g w. ?u\<lparr>cpus := (cpus s)[this_cpu s := (?f (cpus s ! this_cpu s))\<lparr>gdt := g, ts := w\<rparr>], tr := 40,
     cr3 := V2P (pgdir (ptable s ! p)), ptable := (ptable s)[p := (ptable s ! p)\<lparr>pstate := RUNNING\<rparr>]\<rparr>"
  obtain g w where "switchuvm (Some p) ?u = Done () (?u\<lparr>cpus := (cpus ?u)[this_cpu ?u := (cpus ?u ! this_cpu ?u)\<lparr>gdt := g, ts := w\<rparr>],
     tr := 40, cr3 := V2P (pgdir (ptable ?u ! p))\<rparr>)" using switchuvm_run [OF ok, of p] q by auto
  then have "sched_scan i s = Switch (?t g w)"
    using i th by (simp add: sched_scan_def kmonad f upd_mycpu_run upd_proc_def)
  moreover have tht: "this_cpu (?t g w) = this_cpu s" by (simp add: this_cpu_def)
  moreover have "in_scheduler (?t g w)"
    using s i tht unfolding in_scheduler_def by (auto dest!: set_update_subset_insert [THEN subsetD])
  ultimately show ?thesis using i by (intro exI [of _ "?t g w"]) (simp add: cur_def)
qed

lemma sched_scan_none:
  assumes "find (\<lambda>j. pstate (ptable s ! j) = RUNNABLE) [i..<length (ptable s)] = None"
  shows "sched_scan i s = release L_ptable s"
  using assms by (simp add: sched_scan_def kmonad)

lemma release_in_scheduler:
  assumes "in_scheduler s"
  shows "\<exists>t. release L_ptable s = Done () t \<and> ptable t = ptable s \<and> sl_locked (locks t L_ptable) = 0"
  using assms by (auto simp: in_scheduler_def release_def kmonad holding_def pushcli_run popcli_run Let_def upd_lock_def xchg_lock_def mycpu_run)

lemma resume_run:
  assumes "in_scheduler s"
  shows "\<exists>t. scheduler_resume p s = sched_scan (Suc p) t \<and> in_scheduler t \<and> ptable t = ptable s"
proof -
  let ?u = "s\<lparr>cr3 := V2P (kpgdir s)\<rparr>"
  let ?t = "?u\<lparr>cpus := (cpus s)[this_cpu s := (cpus s ! this_cpu s)\<lparr>cpu_proc := None\<rparr>]\<rparr>"
  have i: "this_cpu s < length (cpus s)" "eflags s AND 512 = 0" using assms by (simp_all add: in_scheduler_def)
  have th: "this_cpu ?u = this_cpu s" "this_cpu ?t = this_cpu s" by (simp_all add: this_cpu_def)
  have "scheduler_resume p s = sched_scan (Suc p) ?t"
    using i th by (simp add: scheduler_resume_def switchkvm_def lcr3_def kmonad upd_mycpu_run)
  moreover have "in_scheduler ?t" using assms th unfolding in_scheduler_def by simp
  ultimately show ?thesis by (intro exI [of _ ?t]) simp
qed

lemma sched_scan_cases:
  assumes s: "in_scheduler s"
  obtains (idle) t where "sched_scan i s = Done () t" "\<And>j. i \<le> j \<Longrightarrow> \<not> runnable s j"
  | (run) p t where "sched_scan i s = Switch t" "cur t = Some p" "i \<le> p" "runnable s p"
      "\<And>j. i \<le> j \<Longrightarrow> j < p \<Longrightarrow> \<not> runnable s j" "ptable t = (ptable s)[p := (ptable s ! p)\<lparr>pstate := RUNNING\<rparr>]"
      "in_scheduler t"
proof (cases "find (\<lambda>j. pstate (ptable s ! j) = RUNNABLE) [i..<length (ptable s)]")
  case None
  then have "\<not> runnable s j" if "i \<le> j" for j using that by (auto simp: find_None_iff runnable_def)
  then show ?thesis using release_in_scheduler [OF s] sched_scan_none [OF None] idle by metis
next
  case (Some p)
  then obtain k where k: "k < length (ptable s) - i" "p = i + k" "pstate (ptable s ! p) = RUNNABLE"
      "\<And>j. j < k \<Longrightarrow> pstate (ptable s ! (i + j)) \<noteq> RUNNABLE"
    by (auto simp: find_Some_iff)
  have "\<not> runnable s j" if "i \<le> j" "j < p" for j using k(4) [of "j - i"] that k(2) by (auto simp: runnable_def)
  moreover have "i \<le> p" "runnable s p" using k by (auto simp: runnable_def)
  ultimately show ?thesis using sched_scan_some [OF s Some] run by metis
qed

lemma sched_pass_fair:
  assumes "sched_pass out ps" "out = sched_scan i s" "in_scheduler s"
  shows "sorted_wrt (<) ps \<and> (\<forall>p \<in> set ps. i \<le> p) \<and> (\<forall>j. i \<le> j \<longrightarrow> runnable s j \<longrightarrow> j \<in> set ps)"
  using assms
proof (induction arbitrary: i s rule: sched_pass.induct)
  case (pass_end t)
  then show ?case by (rule_tac sched_scan_cases [OF pass_end(2), of i]) auto
next
  case (pass_run u p v ps)
  obtain w where w: "scheduler_resume p v = sched_scan (Suc p) w" "in_scheduler w" "ptable w = ptable v"
    using resume_run [of v p] pass_run(2) by (auto simp: came_back_def)
  show ?case
  proof (rule sched_scan_cases [OF pass_run(6), of i], goal_cases)
    case (2 p' t)
    note run = 2
    then have eq: "p' = p" "t = u" using pass_run by simp_all
    have *: "sorted_wrt (<) ps" "\<forall>q \<in> set ps. Suc p \<le> q" "\<forall>j. Suc p \<le> j \<longrightarrow> runnable w j \<longrightarrow> j \<in> set ps"
      using pass_run(4) [OF w(1,2)] by auto
    have "j \<in> set (p # ps)" if j: "i \<le> j" "runnable s j" for j
    proof (cases "j = p")
      case False
      with run(5) [OF j(1)] j(2) eq have "Suc p \<le> j" by (meson Suc_leI linorder_neqE_nat)
      moreover have "runnable u j" using j False run(6) eq by (simp add: runnable_def)
      then have "runnable w j" using pass_run(2) False w(3) by (simp add: came_back_def runnable_def)
      ultimately show ?thesis using *(3) by simp
    qed simp
    then show ?thesis using * run(3) eq by (auto simp: Suc_le_eq)
  qed (use pass_run(5) in simp)
qed


text \<open>There is such a pass: for instance the one in which each process comes back at once.\<close>

lemma sched_pass_exists:
  assumes "in_scheduler s"
  shows "\<exists>ps. sched_pass (sched_scan i s) ps"
  using assms
proof (induction "length (ptable s) - i" arbitrary: i s rule: less_induct)
  case less
  show ?case
  proof (rule sched_scan_cases [OF less(2), of i], goal_cases)
    case (1 t)
    then show ?thesis by (auto intro: pass_end)
  next
    case (2 p t)
    note t = 2(7)
    then obtain w where w: "scheduler_resume p t = sched_scan (Suc p) w" "in_scheduler w" "ptable w = ptable t"
      using resume_run [of t p] by blast
    have "length (ptable w) - Suc p < length (ptable s) - i" using 2(3,4,6) w(3) by (auto simp: runnable_def)
    then obtain ps where "sched_pass (scheduler_resume p t) ps" using less(1) [OF _ w(2)] w(1) by auto
    then have "sched_pass (Switch t) (p # ps)" using 2(2) t by (auto intro!: pass_run [of t p t] simp: came_back_def)
    then show ?thesis using 2(1) by auto
  qed
qed

lemma acquire_free:
  assumes "this_cpu s < length (cpus s)" "lock_free l s"
  shows "acquire l s = Done () (entered l s)"
  using assms by (simp add: lock_free_def acquire_def kmonad pushcli_run holding_def xchg_lock_def upd_lock_def mycpu_run
    entered_def Let_def this_cpu_def)

lemma scheduler_start_run:
  assumes "this_cpu s < length (cpus s)" "ncli (cpus s ! this_cpu s) = 0" "lock_free L_ptable s"
    and "\<forall>q \<in> set (ptable s). pstate q = RUNNABLE \<longrightarrow> kstack q \<noteq> 0 \<and> pgdir q \<noteq> 0"
  shows "\<exists>t. scheduler_start s = sched_scan 0 t \<and> in_scheduler t \<and> ptable t = ptable s"
proof -
  let ?u = "s\<lparr>eflags := eflags s OR FL_IF\<rparr>"
  have th: "this_cpu ?u = this_cpu s" by simp
  have "acquire L_ptable ?u = Done () (entered L_ptable ?u)"
    using assms th by (intro acquire_free) (simp_all add: lock_free_def)
  then have "scheduler_start s = sched_scan 0 (entered L_ptable ?u)" by (simp add: scheduler_start_def sti_def kmonad)
  moreover have "in_scheduler (entered L_ptable ?u)"
    using assms th unfolding in_scheduler_def this_cpu_entered by (auto simp: entered_def Let_def)
  ultimately show ?thesis by (intro exI [of _ "entered L_ptable ?u"]) simp
qed




definition sample_sched :: kvm where
  "sample_sched = kproc.extend (sample_kproc\<lparr>ptable := [sample_proc\<lparr>pstate := SLEEPING\<rparr>,
     sample_proc\<lparr>pstate := RUNNABLE, kstack := 0x80400000, pgdir := 0x80401000\<rparr>,
     sample_proc\<lparr>pstate := RUNNABLE, kstack := 0x80402000, pgdir := 0x80403000\<rparr>]\<rparr>) (kvm.fields 0x80404000)"

lemma sample_sched_fields:
  "this_cpu sample_sched = 0" "length (cpus sample_sched) = 1" "ncli (cpus sample_sched ! 0) = 0" "lock_free L_ptable sample_sched"
  "map pstate (ptable sample_sched) = [SLEEPING, RUNNABLE, RUNNABLE]"
  "\<forall>q \<in> set (ptable sample_sched). pstate q = RUNNABLE \<longrightarrow> kstack q \<noteq> 0 \<and> pgdir q \<noteq> 0"
  by (simp_all add: sample_sched_def kproc.defs kvm.defs sample_kproc_def sample_proc_def this_cpu_def cpu_index_def sample_cpu_def lock_free_def)


section \<open>Exit and wait\<close>

text \<open>What one turn of the loop of \<open>exit\<close> over the process table does to the table.\<close>

definition reparented :: "nat \<Rightarrow> nat \<Rightarrow> nat \<Rightarrow> proc list \<Rightarrow> proc list" where
  "reparented cp ini i q =
     (if parent (q ! i) \<noteq> Some cp then q
      else if pstate (q ! i) = ZOMBIE then map (wakeup_proc (C_proc ini)) (q[i := (q ! i)\<lparr>parent := Some ini\<rparr>])
      else q[i := (q ! i)\<lparr>parent := Some ini\<rparr>])"

lemma wakeup_proc_fields [simp]:
  "parent (wakeup_proc ch q) = parent q" "pchan (wakeup_proc ch q) = pchan q" "pid (wakeup_proc ch q) = pid q"
  "pstate (wakeup_proc ch q) = ZOMBIE \<longleftrightarrow> pstate q = ZOMBIE"
  "wakeup_proc ch (wakeup_proc ch q) = wakeup_proc ch q"
  "wakeup_proc ch (q\<lparr>parent := v\<rparr>) = (wakeup_proc ch q)\<lparr>parent := v\<rparr>"
  by (simp_all add: wakeup_proc_def)

lemma reparent_run:
  assumes "initproc s = Some ini" "i < length (ptable s)"
  shows "reparent cp i s = Done () (s\<lparr>ptable := reparented cp ini i (ptable s)\<rparr>)"
  using assms by (simp add: reparent_def kmonad get_proc_def upd_proc_def reparented_def wakeup1_def)

lemma reparent_all:
  assumes "initproc s = Some ini" "\<forall>i \<in> set js. i < length (ptable s)"
  shows "for_each (reparent cp) js s = Done () (s\<lparr>ptable := fold (reparented cp ini) js (ptable s)\<rparr>)"
  using assms
proof (induction js arbitrary: s)
  case (Cons j js)
  have "length (reparented cp ini j (ptable s)) = length (ptable s)" by (simp add: reparented_def)
  then show ?case using Cons by (simp add: kmonad reparent_run)
qed (simp add: kmonad)

text \<open>The table after the loop: a child of the process is a child of \<open>init\<close>, and \<open>init\<close> is awake if one of them
  is a zombie.\<close>

definition heir :: "nat \<Rightarrow> nat \<Rightarrow> nat \<Rightarrow> proc list \<Rightarrow> nat \<Rightarrow> proc" where
  "heir cp ini k q i = (if i < k \<and> parent (q ! i) = Some cp then (q ! i)\<lparr>parent := Some ini\<rparr> else q ! i)"

definition left_zombie :: "nat \<Rightarrow> nat \<Rightarrow> proc list \<Rightarrow> bool" where
  "left_zombie cp k q \<longleftrightarrow> (\<exists>j < k. parent (q ! j) = Some cp \<and> pstate (q ! j) = ZOMBIE)"

lemma heir_Suc:
  "heir cp ini (Suc k) q i = (if i = k \<and> parent (q ! k) = Some cp then (q ! k)\<lparr>parent := Some ini\<rparr> else heir cp ini k q i)"
  by (auto simp: heir_def less_Suc_eq)

lemma left_zombie_Suc:
  "left_zombie cp (Suc k) q \<longleftrightarrow> left_zombie cp k q \<or> parent (q ! k) = Some cp \<and> pstate (q ! k) = ZOMBIE"
  by (auto simp: left_zombie_def less_Suc_eq)

lemma reparented_all:
  assumes "k \<le> length q" "cp \<noteq> ini"
  shows "fold (reparented cp ini) [0..<k] q =
    map (\<lambda>i. if left_zombie cp k q then wakeup_proc (C_proc ini) (heir cp ini k q i) else heir cp ini k q i) [0..<length q]"
  using assms(1)
proof (induction k)
  case (Suc k)
  let ?g = "\<lambda>i. if left_zombie cp k q then wakeup_proc (C_proc ini) (heir cp ini k q i) else heir cp ini k q i"
  let ?f = "map ?g [0..<length q]"
  have k: "k < length q" "[0..<length q] ! k = k" using Suc(2) by simp_all
  have h: "heir cp ini k q k = q ! k" by (simp add: heir_def)
  have fk: "parent (?f ! k) = parent (q ! k)" "pstate (?f ! k) = ZOMBIE \<longleftrightarrow> pstate (q ! k) = ZOMBIE"
    using k by (simp_all add: h)
  have step: "fold (reparented cp ini) [0..<Suc k] q = reparented cp ini k ?f" using Suc by simp
  consider "parent (q ! k) \<noteq> Some cp" | "parent (q ! k) = Some cp" "pstate (q ! k) = ZOMBIE"
    | "parent (q ! k) = Some cp" "pstate (q ! k) \<noteq> ZOMBIE" by blast
  then show ?case
  proof cases
    case 1
    then show ?thesis unfolding step by (simp add: reparented_def fk heir_Suc left_zombie_Suc)
  next
    case 2
    then have "reparented cp ini k ?f = map (wakeup_proc (C_proc ini)) (?f[k := (?f ! k)\<lparr>parent := Some ini\<rparr>])"
      unfolding reparented_def fk by simp
    then show ?thesis unfolding step using 2 k
      by (intro nth_equalityI) (simp_all add: nth_list_update heir_Suc left_zombie_Suc h)
  next
    case 3
    then have "reparented cp ini k ?f = ?f[k := (?f ! k)\<lparr>parent := Some ini\<rparr>]"
      unfolding reparented_def fk by simp
    then show ?thesis unfolding step using 3 k
      by (intro nth_equalityI) (simp_all add: nth_list_update heir_Suc left_zombie_Suc h)
  qed
qed (simp add: heir_def left_zombie_def map_nth)


text \<open>No process sleeps in \<open>wait\<close> while it has a child to collect.\<close>

definition waits_ok :: "proc list \<Rightarrow> bool" where
  "waits_ok q \<longleftrightarrow> (\<forall>z < length q. \<forall>k < length q. pstate (q ! z) = ZOMBIE \<longrightarrow> parent (q ! z) = Some k \<longrightarrow>
     \<not> (pstate (q ! k) = SLEEPING \<and> pchan (q ! k) = Some (C_proc k)))"

definition exit_table :: "nat \<Rightarrow> nat \<Rightarrow> proc list \<Rightarrow> proc list" where
  "exit_table cp ini q =
     (let w = (case parent (q ! cp) of None \<Rightarrow> q | Some k \<Rightarrow> map (wakeup_proc (C_proc k)) q);
          r = fold (reparented cp ini) [0..<length q] w
      in r[cp := (r ! cp)\<lparr>pstate := ZOMBIE\<rparr>])"

lemma exit_zombie_run:
  assumes s: "lock_ok L_ptable s" "ncli (cpus s ! this_cpu s) = 0" "cur s = Some cp" "cp < length (ptable s)"
    and ini: "initproc s = Some ini"
  shows "exit_zombie cp s = Switch ((entered L_ptable s)\<lparr>ptable := exit_table cp ini (ptable s)\<rparr>)"
proof -
  let ?w = "case parent (ptable s ! cp) of None \<Rightarrow> ptable s | Some k \<Rightarrow> map (wakeup_proc (C_proc k)) (ptable s)"
  have len: "length ?w = length (ptable s)" by (simp split: option.split)
  have "length (fold (reparented cp ini) js q) = length q" for js q
    by (induction js arbitrary: q) (simp_all add: reparented_def)
  then have ex: "pstate (exit_table cp ini (ptable s) ! cp) \<noteq> RUNNING" using s(4) len by (simp add: exit_table_def Let_def)
  have wake: "(case parent (ptable s ! cp) of None \<Rightarrow> kret () | Some k \<Rightarrow> wakeup1 (C_proc k)) (entered L_ptable s) =
      Done () ((entered L_ptable s)\<lparr>ptable := ?w\<rparr>)"
    by (simp add: wakeup1_def kmonad split: option.split)
  have "for_each (reparent cp) [0..<length ?w] ((entered L_ptable s)\<lparr>ptable := ?w\<rparr>) =
      Done () ((entered L_ptable s)\<lparr>ptable := fold (reparented cp ini) [0..<length ?w] ?w\<rparr>)"
    using reparent_all [of "(entered L_ptable s)\<lparr>ptable := ?w\<rparr>" ini "[0..<length ?w]" cp] ini by simp
  then show ?thesis
    using wake len sched_run [OF s(1-3) ex]
    by (simp add: exit_zombie_def kmonad acquire_entered [OF s(1)] get_proc_def upd_proc_def exit_table_def Let_def)
qed

lemma exit_table_nth:
  assumes "cp < length q" "cp \<noteq> ini" "i < length q"
  defines "w \<equiv> case parent (q ! cp) of None \<Rightarrow> q | Some k \<Rightarrow> map (wakeup_proc (C_proc k)) q"
  shows "length (exit_table cp ini q) = length q"
    and "parent (exit_table cp ini q ! i) = (if parent (q ! i) = Some cp then Some ini else parent (q ! i))"
    and "pchan (exit_table cp ini q ! i) = pchan (q ! i)"
    and "pstate (exit_table cp ini q ! i) = (if i = cp then ZOMBIE else
      if pstate (q ! i) = SLEEPING \<and> ((\<exists>k. parent (q ! cp) = Some k \<and> pchan (q ! i) = Some (C_proc k)) \<or>
           left_zombie cp (length q) q \<and> pchan (q ! i) = Some (C_proc ini))
      then RUNNABLE else pstate (q ! i))"
proof -
  have w: "length w = length q" "\<And>j. j < length q \<Longrightarrow> parent (w ! j) = parent (q ! j) \<and> pchan (w ! j) = pchan (q ! j) \<and>
      (pstate (w ! j) = ZOMBIE \<longleftrightarrow> pstate (q ! j) = ZOMBIE) \<and> pstate (w ! j) =
      (if pstate (q ! j) = SLEEPING \<and> (\<exists>k. parent (q ! cp) = Some k \<and> pchan (q ! j) = Some (C_proc k))
       then RUNNABLE else pstate (q ! j))"
    unfolding w_def by (auto split: option.split simp: wakeup_proc_def)
  have lz: "left_zombie cp (length q) w = left_zombie cp (length q) q" using w unfolding left_zombie_def by metis
  have r: "fold (reparented cp ini) [0..<length q] w =
    map (\<lambda>i. if left_zombie cp (length q) q then wakeup_proc (C_proc ini) (heir cp ini (length q) w i) else heir cp ini (length q) w i)
      [0..<length q]"
    using reparented_all [of "length q" w cp ini] assms(2) w(1) lz by simp
  show "length (exit_table cp ini q) = length q"
    "parent (exit_table cp ini q ! i) = (if parent (q ! i) = Some cp then Some ini else parent (q ! i))"
    "pchan (exit_table cp ini q ! i) = pchan (q ! i)"
    using assms(1,3) w(2) [OF assms(3)] w(2) [OF assms(1)]
    by (simp_all add: exit_table_def Let_def r nth_list_update heir_def flip: w_def)
  show "pstate (exit_table cp ini q ! i) = (if i = cp then ZOMBIE else
      if pstate (q ! i) = SLEEPING \<and> ((\<exists>k. parent (q ! cp) = Some k \<and> pchan (q ! i) = Some (C_proc k)) \<or>
           left_zombie cp (length q) q \<and> pchan (q ! i) = Some (C_proc ini))
      then RUNNABLE else pstate (q ! i))"
    using assms(1,3) w(2) [OF assms(3)] 
    by (auto simp: exit_table_def Let_def r nth_list_update heir_def wakeup_proc_def simp flip: w_def)
qed


lemma exit_waits_ok:
  assumes cp: "cp < length q" "cp \<noteq> ini" "parent (q ! cp) \<noteq> Some cp" and ok: "waits_ok q"
  shows "waits_ok (exit_table cp ini q)"
  unfolding waits_ok_def
proof (intro allI impI notI, elim conjE)
  fix z k
  assume "z < length (exit_table cp ini q)" "k < length (exit_table cp ini q)"
    and z: "pstate (exit_table cp ini q ! z) = ZOMBIE" "parent (exit_table cp ini q ! z) = Some k"
    and k: "pstate (exit_table cp ini q ! k) = SLEEPING" "pchan (exit_table cp ini q ! k) = Some (C_proc k)"
  then have len: "z < length q" "k < length q" using exit_table_nth(1) [OF cp(1,2,1)] by simp_all
  note nz = exit_table_nth [OF cp(1,2) len(1)] and nk = exit_table_nth [OF cp(1,2) len(2)]
  have asleep: "k \<noteq> cp" "pstate (q ! k) = SLEEPING" "pchan (q ! k) = Some (C_proc k)" "parent (q ! cp) \<noteq> Some k"
      "k = ini \<Longrightarrow> \<not> left_zombie cp (length q) q"
    using k nk by (auto split: if_splits)
  show False
  proof (cases "z = cp")
    case True
    then show False using z(2) nz(2) asleep(4) cp(3) by simp
  next
    case False
    then have "pstate (q ! z) = ZOMBIE" using z(1) nz(4) by (auto split: if_splits)
    then show False using z(2) nz(2) ok len asleep by (auto simp: waits_ok_def left_zombie_def split: if_splits)
  qed
qed

lemma sleep_waits_ok:
  assumes "waits_ok q" "cp < length q" "find_index (\<lambda>p. parent p = Some cp \<and> pstate p = ZOMBIE) q = None"
  shows "waits_ok (q[cp := (q ! cp)\<lparr>pchan := c, pstate := SLEEPING\<rparr>])"
  unfolding waits_ok_def
proof (intro allI impI)
  let ?q = "q[cp := (q ! cp)\<lparr>pchan := c, pstate := SLEEPING\<rparr>]"
  fix z k assume *: "z < length ?q" "k < length ?q" "pstate (?q ! z) = ZOMBIE" "parent (?q ! z) = Some k"
  then have z: "z \<noteq> cp" "z < length q" "k < length q" "pstate (q ! z) = ZOMBIE" "parent (q ! z) = Some k"
    using assms(2) by (auto simp: nth_list_update split: if_splits)
  then have "k \<noteq> cp" using assms(3) by (auto simp: find_index_None all_set_conv_all_nth)
  then show "\<not> (pstate (?q ! k) = SLEEPING \<and> pchan (?q ! k) = Some (C_proc k))" using z assms(1) by (simp add: waits_ok_def)
qed

text \<open>C16. No exit is missed. The end of \<open>exit\<close> always leaves the processor; it makes the process a zombie, gives
  each of its children to \<open>init\<close>, and makes runnable exactly the parent if it sleeps in \<open>wait\<close>, and \<open>init\<close> if it
  sleeps in \<open>wait\<close> and gets a zombie. \<open>wait\<close> collects a zombie child if there is one, returns -1 without
  children or when killed, and sleeps otherwise. Both keep the invariant that no process sleeps in \<open>wait\<close>
  while it has a zombie child.\<close>

theorem exit_wait:
  assumes s: "lock_ok L_ptable s" "ncli (cpus s ! this_cpu s) = 0" "cur s = Some cp" "cp < length (ptable s)"
    and ini: "initproc s = Some ini" "cp \<noteq> ini" "parent (ptable s ! cp) \<noteq> Some cp" and ok: "waits_ok (ptable s)"
  defines "zs \<equiv> left_zombie cp (length (ptable s)) (ptable s)"
  defines "q \<equiv> ptable s"
  shows "(\<exists>t. exit_zombie cp s = Switch t \<and> waits_ok (ptable t) \<and> length (ptable t) = length q \<and> (\<forall>i < length q.
       parent (ptable t ! i) = (if parent (q ! i) = Some cp then Some ini else parent (q ! i)) \<and>
       pstate (ptable t ! i) = (if i = cp then ZOMBIE
         else if pstate (q ! i) = SLEEPING \<and> ((\<exists>k. parent (q ! cp) = Some k \<and> pchan (q ! i) = Some (C_proc k)) \<or>
           zs \<and> pchan (q ! i) = Some (C_proc ini)) then RUNNABLE
         else pstate (q ! i)))) \<and>
     (case find_index (\<lambda>p. parent p = Some cp \<and> pstate p = ZOMBIE) q of
        Some i \<Rightarrow> wait s = reap i (entered L_ptable s)
      | None \<Rightarrow>
          if (\<forall>p \<in> set q. parent p \<noteq> Some cp) \<or> killed (q ! cp) \<noteq> 0 then wait s = Done (- 1) s
          else \<exists>t. wait s = Switch t \<and> waits_ok (ptable t) \<and> pstate (ptable t ! cp) = SLEEPING \<and> pchan (ptable t ! cp) = Some (C_proc cp))"
proof (intro conjI)
  show "\<exists>t. exit_zombie cp s = Switch t \<and> waits_ok (ptable t) \<and> length (ptable t) = length q \<and> (\<forall>i < length q.
       parent (ptable t ! i) = (if parent (q ! i) = Some cp then Some ini else parent (q ! i)) \<and>
       pstate (ptable t ! i) = (if i = cp then ZOMBIE
         else if pstate (q ! i) = SLEEPING \<and> ((\<exists>k. parent (q ! cp) = Some k \<and> pchan (q ! i) = Some (C_proc k)) \<or>
           zs \<and> pchan (q ! i) = Some (C_proc ini)) then RUNNABLE
         else pstate (q ! i)))"
    using exit_waits_ok [OF s(4) ini(2,3) ok] exit_table_nth [OF s(4) ini(2)] s(4)
    unfolding zs_def q_def by (intro exI [of _ "(entered L_ptable s)\<lparr>ptable := exit_table cp ini (ptable s)\<rparr>"] conjI allI impI exit_zombie_run [OF s ini(1)]) simp_all
  have run: "myproc s = Done (Some cp) s" using s by (simp add: myproc_run lock_ok_def)
  have rel: "release L_ptable (entered L_ptable s) = Done () s"
    using release_entered [OF s(1) refl] by (simp add: entered_def Let_def)
  show "case find_index (\<lambda>p. parent p = Some cp \<and> pstate p = ZOMBIE) q of
        Some i \<Rightarrow> wait s = reap i (entered L_ptable s)
      | None \<Rightarrow>
          if (\<forall>p \<in> set q. parent p \<noteq> Some cp) \<or> killed (q ! cp) \<noteq> 0 then wait s = Done (- 1) s
          else \<exists>t. wait s = Switch t \<and> waits_ok (ptable t) \<and> pstate (ptable t ! cp) = SLEEPING \<and> pchan (ptable t ! cp) = Some (C_proc cp)"
    using s(4) sleep_waits_ok [OF ok s(4)]
    by (auto simp: wait_def kmonad run acquire_entered [OF s(1)] deref_def get_proc_def rel sleep_run [OF s(1) s(1) s(2-4)] q_def
      split: option.split)
qed


text \<open>Process 1 exits; its parent, \<open>init\<close>, sleeps in \<open>wait\<close>, and process 2 is its child and a zombie.\<close>

definition sample_exit :: kproc where
  "sample_exit = sample_kproc\<lparr>cpus := [sample_cpu\<lparr>cpu_proc := Some 1\<rparr>], ptable :=
     [sample_proc\<lparr>pstate := SLEEPING, pchan := Some (C_proc 0)\<rparr>, sample_proc\<lparr>pstate := RUNNING, parent := Some 0\<rparr>,
      sample_proc\<lparr>pstate := ZOMBIE, parent := Some 1\<rparr>]\<rparr>"

lemma sample_exit_fields:
  "lock_ok L_ptable sample_exit" "ncli (cpus sample_exit ! this_cpu sample_exit) = 0" "cur sample_exit = Some 1"
  "length (ptable sample_exit) = 3" "initproc sample_exit = Some 0" "map parent (ptable sample_exit) = [None, Some 0, Some 1]"
  "map pstate (ptable sample_exit) = [SLEEPING, RUNNING, ZOMBIE]" "pchan (ptable sample_exit ! 0) = Some (C_proc 0)"
  by (simp_all add: sample_exit_def sample_kproc_def sample_proc_def lock_ok_def cpu_ok_def lock_free_def this_cpu_def cpu_index_def
    sample_cpu_def cur_def Let_def)

theorem exit_wait_witness:
  "\<exists>t. exit_zombie 1 sample_exit = Switch t \<and> map parent (ptable t) = [None, Some 0, Some 0] \<and>
     map pstate (ptable t) = [RUNNABLE, ZOMBIE, ZOMBIE]"
proof -
  have nth: "parent (ptable sample_exit ! i) = [None, Some 0, Some 1] ! i" "pstate (ptable sample_exit ! i) = [SLEEPING, RUNNING, ZOMBIE] ! i"
    if "i < 3" for i
    using that sample_exit_fields(4) nth_map [of i "ptable sample_exit" parent] nth_map [of i "ptable sample_exit" pstate]
      sample_exit_fields(6,7) by simp_all
  have 3: "i < 3 \<longleftrightarrow> i = 0 \<or> i = 1 \<or> i = (2 :: nat)" for i by auto
  have ok: "waits_ok (ptable sample_exit)"
    unfolding waits_ok_def sample_exit_fields(4) by (auto simp: nth 3)
  have "1 < length (ptable sample_exit)" "1 \<noteq> (0 :: nat)" "parent (ptable sample_exit ! 1) \<noteq> Some 1"
    using nth [of 1] by (simp_all add: sample_exit_fields)
  from exit_wait [OF sample_exit_fields(1,2,3) this(1) sample_exit_fields(5) this(2,3) ok]
  obtain t where t: "exit_zombie 1 sample_exit = Switch t" "length (ptable t) = 3"
      "\<And>i. i < 3 \<Longrightarrow> parent (ptable t ! i) = (if parent (ptable sample_exit ! i) = Some 1 then Some 0 else parent (ptable sample_exit ! i))"
      "\<And>i. i < 3 \<Longrightarrow> pstate (ptable t ! i) = (if i = 1 then ZOMBIE
         else if pstate (ptable sample_exit ! i) = SLEEPING \<and> ((\<exists>k. parent (ptable sample_exit ! 1) = Some k \<and> pchan (ptable sample_exit ! i) = Some (C_proc k)) \<or>
           left_zombie 1 (length (ptable sample_exit)) (ptable sample_exit) \<and> pchan (ptable sample_exit ! i) = Some (C_proc 0)) then RUNNABLE
         else pstate (ptable sample_exit ! i))" unfolding sample_exit_fields(4) by (elim conjE exE) auto
  obtain a b c where q: "ptable t = [a, b, c]" using t(2) by (auto simp: numeral_3_eq_3 length_Suc_conv)
  have n: "parent (ptable sample_exit ! 0) = None" "parent (ptable sample_exit ! 1) = Some 0" "parent (ptable sample_exit ! 2) = Some 1"
    "pstate (ptable sample_exit ! 0) = SLEEPING" "pstate (ptable sample_exit ! 2) = ZOMBIE"
    using nth [of 0] nth [of 1] nth [of 2] by simp_all
  have "parent a = None" "parent b = Some 0" "parent c = Some 0"
    using t(3) [of 0] t(3) [of 1] t(3) [of 2] n q by simp_all
  moreover have "pstate a = RUNNABLE" "pstate b = ZOMBIE" "pstate c = ZOMBIE"
    using t(4) [of 0] t(4) [of 1] t(4) [of 2] n q sample_exit_fields(8) by simp_all
  ultimately show ?thesis using t(1) q by (intro exI [of _ t]) simp
qed

end
