(* ===== verification/Trap.thy ===== *)
theory Trap
  imports Syscall
begin

text \<open>
  Interrupts and the start of the kernel: the interrupt table and the trap handler of trap.c, and the
  initialisation sequence of main.c on one processor. The trap frame is in byte memory at the
  address the handler gets. Acknowledging an interrupt (\<open>lapiceoi\<close>) changes no state of the model, and
  the disk interrupt of the memory disk does nothing.
\<close>

abbreviation (input) "T_SYSCALL \<equiv> 64 :: uint32"
abbreviation (input) "T_PGFLT \<equiv> 14 :: uint32"
abbreviation (input) "T_IRQ0 \<equiv> 32 :: uint32"

text \<open>\<open>vectors\<close> is the table of entry points that vectors.pl generates.\<close>

definition tvinit :: "uint32 list \<Rightarrow> (unit, 'a kshm_scheme) kop" where
  "tvinit vectors =
     kseq (kmod (\<lambda>s. s\<lparr>idt := map (\<lambda>i. SETGATE False 8 (vectors ! i) 0) [0..<256]\<rparr>)) (
     kseq (kmod (\<lambda>s. s\<lparr>idt := (idt s)[64 := SETGATE True 8 (vectors ! 64) 3]\<rparr>)) (
     initlock L_tickslock))"

definition idtinit :: "uint32 \<Rightarrow> (unit, 'a kshm_scheme) kop" where
  "idtinit idt_addr = kmod (\<lambda>s. s\<lparr>idtr := idt_addr\<rparr>)"

definition timer_tick :: "(unit, 'a kshm_scheme) kop" where
  "timer_tick =
     kbind cpuid (\<lambda>c.
     kwhen (c = 0) (
       kseq (acquire L_tickslock) (
       kseq (kmod (\<lambda>s. s\<lparr>ticks := ticks s + 1\<rparr>)) (
       kseq (wakeup C_ticks) (release L_tickslock)))))"

text \<open>The cases of the switch; \<open>default\<close> is a fault of the kernel or of the user program.\<close>

definition trap_cause :: "uint32 \<Rightarrow> uint32 \<Rightarrow> uint16 \<Rightarrow> (unit, 'a kshm_scheme) kop" where
  "trap_cause trapno err cs =
     (if trapno = T_PGFLT then cast_page_fault err
      else if trapno = T_IRQ0 then timer_tick
      else if trapno = T_IRQ0 + 14 then kret ()
      else if trapno = T_IRQ0 + 15 then kret ()
      else if trapno = T_IRQ0 + 1 then kbdintr
      else if trapno = T_IRQ0 + 4 then uartintr
      else if trapno = T_IRQ0 + 7 \<or> trapno = T_IRQ0 + 31 then kret ()
      else
        kbind myproc (\<lambda>r.
        case r of
          None \<Rightarrow> kpanic ''trap''
        | Some p \<Rightarrow> if cs AND 3 = 0 then kpanic ''trap'' else upd_proc p (\<lambda>q. q\<lparr>killed := 1\<rparr>)))"

definition exit_if_killed :: "uint16 \<Rightarrow> (unit, 'a kshm_scheme) kop" where
  "exit_if_killed cs =
     kbind myproc (\<lambda>r.
     case r of None \<Rightarrow> kret () | Some p \<Rightarrow>
     kbind (get_proc p killed) (\<lambda>k. kwhen (k \<noteq> 0 \<and> cs AND 3 = 3) exit))"

definition trap_syscall :: "uint32 \<Rightarrow> (unit, 'a kshm_scheme) kop" where
  "trap_syscall t =
     with_proc (\<lambda>p.
     kbind (get_proc p killed) (\<lambda>k.
     kseq (kwhen (k \<noteq> 0) exit) (
     kseq (upd_proc p (\<lambda>q. q\<lparr>tf := t\<rparr>)) (
     kseq syscall (
     kbind (get_proc p killed) (\<lambda>k. kwhen (k \<noteq> 0) exit))))))"

definition trap :: "uint32 \<Rightarrow> (unit, 'a kshm_scheme) kop" where
  "trap t =
     kbind (ld32 (t + tf_trapno)) (\<lambda>trapno.
     if trapno = T_SYSCALL then trap_syscall t else
     kbind (ld32 (t + tf_err)) (\<lambda>err.
     kbind (ld16 (t + tf_cs)) (\<lambda>cs.
     kseq (trap_cause trapno err cs) (
     kseq (exit_if_killed cs) (
     kbind myproc (\<lambda>r.
     kseq (case r of None \<Rightarrow> kret () | Some p \<Rightarrow>
         kbind (get_proc p pstate) (\<lambda>st. kwhen (st = RUNNING \<and> trapno = T_IRQ0) yield)) (
     exit_if_killed cs)))))))"

section \<open>Start of the kernel\<close>

text \<open>What the build links into the kernel: the disk image, the entry points and the first program.\<close>

record images =
  img_fs :: "uint8 list list"
  img_fs_size :: uint32
  img_vectors :: "uint32 list"
  img_initcode :: "uint8 list"
  img_idt :: uint32

text \<open>Configuring the interrupt controllers and the serial port does not change the state, and
  \<open>startothers\<close> finds no other processor to start.\<close>

definition kmain :: "images \<Rightarrow> (unit, 'a kshm_scheme) kop" where
  "kmain im =
     kbind (kget kend) (\<lambda>e.
     kseq (kinit1 e (P2V 0x400000)) (
     kseq kvmalloc (
     kseq seginit (
     kseq consoleinit (
     kseq pinit (
     kseq (tvinit (img_vectors im)) (
     kseq binit (
     kseq fileinit (
     kseq (ideinit (img_fs im) (img_fs_size im)) (
     kseq (kinit2 (P2V 0x400000) (P2V PHYSTOP)) (
     kseq shrmeminit (
     kseq vpminit (
     kseq (userinit (img_initcode im)) (
     kseq (idtinit (img_idt im)) (
     kseq (upd_mycpu (\<lambda>c. c\<lparr>started := 1\<rparr>)) scheduler)))))))))))))))"

end
