(* ===== verification/User.thy ===== *)
theory User
  imports Prelude
begin

text \<open>
  User programs. A program sees the kernel only through its system calls: the state of a run holds the
  replies that the calls will get and the calls made so far. Every sequence of replies is a run, so a
  statement for all replies is a statement for every behaviour of the kernel; the reply 0 to \<open>fork\<close> is the
  run of the child. The programs are written in the monad of the kernel: \<open>Done\<close> is a return, \<open>Switch\<close> the
  end of the process by \<open>exit\<close>, \<open>Spin\<close> a call that is never answered, and \<open>Fault\<close> a reply of a kind the call
  cannot give. Strings are lists of characters without the terminating zero.
\<close>

section \<open>System calls\<close>

datatype call = Read int nat | Write int string | Open string int | Close int | Dup int | Pipe | Fork | Wait | Exit
  | Exec string "string list" | Chdir string | Mknod string int int | Link string string | Unlink string | Mkdir string
  | Kill uint32 | Fstat int | Sleep int | Fpgn

text \<open>What \<open>fstat\<close> tells: \<open>type\<close>, \<open>ino\<close> and \<open>size\<close>, the fields that programs use.\<close>

record ustat =
  st_type :: int
  st_ino :: uint32
  st_size :: uint32

datatype reply = RInt int | RBytes "string option" | RPair "(int \<times> int) option" | RStat "ustat option"

record user =
  replies :: "reply list"
  calls :: "call list"

text \<open>A call whose result the program ignores.\<close>

definition tell :: "call \<Rightarrow> (unit, user) kop" where
  "tell c = kmod (\<lambda>s. s\<lparr>calls := calls s @ [c]\<rparr>)"

definition ask :: "call \<Rightarrow> (reply, user) kop" where
  "ask c = (\<lambda>s. case replies s of [] \<Rightarrow> Spin | r # rs \<Rightarrow> Done r (s\<lparr>replies := rs, calls := calls s @ [c]\<rparr>))"

definition uexit :: "('a, user) kop" where
  "uexit = kseq (tell Exit) kswitch"

definition ask_int :: "call \<Rightarrow> (int, user) kop" where
  "ask_int c = kbind (ask c) (\<lambda>r. case r of RInt i \<Rightarrow> kret i | _ \<Rightarrow> kfault)"

text \<open>\<open>read\<close>: \<open>None\<close> is the result -1, otherwise the bytes read, none at the end of the file.\<close>

definition ask_read :: "int \<Rightarrow> nat \<Rightarrow> (string option, user) kop" where
  "ask_read fd n = kbind (ask (Read fd n)) (\<lambda>r. case r of
       RBytes None \<Rightarrow> kret None
     | RBytes (Some bs) \<Rightarrow> if length bs \<le> n then kret (Some bs) else kfault
     | _ \<Rightarrow> kfault)"

definition ask_stat :: "int \<Rightarrow> (ustat option, user) kop" where
  "ask_stat fd = kbind (ask (Fstat fd)) (\<lambda>r. case r of RStat x \<Rightarrow> kret x | _ \<Rightarrow> kfault)"

text \<open>A loop that continues after a call is a recursion on the states: the bind with the state written out.\<close>

definition obind :: "('a, 's) outcome \<Rightarrow> ('a \<Rightarrow> 's \<Rightarrow> ('b, 's) outcome) \<Rightarrow> ('b, 's) outcome" where
  "obind m f = (case m of Done x t \<Rightarrow> f x t | Panic e \<Rightarrow> Panic e | Switch t \<Rightarrow> Switch t | Spin \<Rightarrow> Spin | Fault \<Rightarrow> Fault)"

lemma obind_simps [simp]:
  "obind (Done x t) f = f x t" "obind (Panic e) f = Panic e" "obind (Switch t) f = Switch t" "obind Spin f = Spin" "obind Fault f = Fault"
  by (simp_all add: obind_def)

lemma obind_cong [fundef_cong]:
  assumes "m = m'" "\<And>x t. m' = Done x t \<Longrightarrow> f x t = f' x t"
  shows "obind m f = obind m' f'"
  using assms by (cases m') simp_all

lemma ask_Done: "ask c s = Done r t \<Longrightarrow> length (replies t) < length (replies s)"
  by (auto simp: ask_def split: list.splits)

lemma ask_int_Done: "ask_int c s = Done r t \<Longrightarrow> length (replies t) < length (replies s)"
  by (auto simp: ask_int_def kmonad dest!: ask_Done split: outcome.splits reply.splits)

lemma ask_read_Done: "ask_read fd n s = Done r t \<Longrightarrow> length (replies t) < length (replies s)"
  by (auto simp: ask_read_def kmonad dest!: ask_Done split: outcome.splits reply.splits option.splits if_splits)

lemma ask_stat_Done: "ask_stat fd s = Done r t \<Longrightarrow> length (replies t) < length (replies s)"
  by (auto simp: ask_stat_def kmonad dest!: ask_Done split: outcome.splits reply.splits)

section \<open>printf.c\<close>

definition putc :: "int \<Rightarrow> char \<Rightarrow> (unit, user) kop" where
  "putc fd c = tell (Write fd [c])"

fun puts :: "int \<Rightarrow> string \<Rightarrow> (unit, user) kop" where
  "puts fd [] = kret ()"
| "puts fd (c # cs) = kseq (putc fd c) (puts fd cs)"

text \<open>The digits of a number, least significant first, as \<open>printint\<close> puts them in its buffer of 16 bytes.\<close>

fun udigits :: "nat \<Rightarrow> uint32 \<Rightarrow> uint32 \<Rightarrow> string option" where
  "udigits 0 x base = None"
| "udigits (Suc n) x base =
     (let d = ''0123456789ABCDEF'' ! unat (x mod base) in
      if x div base = 0 then Some [d] else map_option (Cons d) (udigits n (x div base) base))"

definition uprintint :: "int \<Rightarrow> uint32 \<Rightarrow> uint32 \<Rightarrow> bool \<Rightarrow> (unit, user) kop" where
  "uprintint fd xx base sign =
     (let neg = (sign \<and> sint xx < 0); x = (if neg then - xx else xx) in
      case udigits 16 x base of
        None \<Rightarrow> kfault
      | Some ds \<Rightarrow> if \<not> neg then puts fd (rev ds) else if length ds < 16 then puts fd (CHR ''-'' # rev ds) else kfault)"

text \<open>The words after the format on the stack: numbers, and pointers to strings (\<open>None\<close> is the null pointer).\<close>

datatype uarg = Num uint32 | Str "string option"

fun printf :: "int \<Rightarrow> string \<Rightarrow> uarg list \<Rightarrow> (unit, user) kop" where
  "printf fd [] args = kret ()"
| "printf fd [c] args = (if c \<noteq> CHR ''%'' then putc fd c else kret ())"
| "printf fd (c # d # fmt) args =
     (if c \<noteq> CHR ''%'' then kseq (putc fd c) (printf fd (d # fmt) args)
      else if d = CHR ''d'' then
        (case args of Num a # as \<Rightarrow> kseq (uprintint fd a 10 True) (printf fd fmt as) | _ \<Rightarrow> kfault)
      else if d = CHR ''x'' \<or> d = CHR ''p'' then
        (case args of Num a # as \<Rightarrow> kseq (uprintint fd a 16 False) (printf fd fmt as) | _ \<Rightarrow> kfault)
      else if d = CHR ''s'' then
        (case args of Str p # as \<Rightarrow> kseq (puts fd (case p of None \<Rightarrow> ''(null)'' | Some cs \<Rightarrow> cs)) (printf fd fmt as) | _ \<Rightarrow> kfault)
      else if d = CHR ''c'' then
        (case args of Num a # as \<Rightarrow> kseq (putc fd (char_of (unat a))) (printf fd fmt as) | _ \<Rightarrow> kfault)
      else if d = CHR ''%'' then kseq (putc fd d) (printf fd fmt args)
      else kseq (putc fd (CHR ''%'')) (kseq (putc fd d) (printf fd fmt args)))"

text \<open>Printing asks for no reply.\<close>

lemma puts_run: "puts fd cs s = Done () (s\<lparr>calls := calls s @ map (\<lambda>c. Write fd [c]) cs\<rparr>)"
  by (induction cs arbitrary: s) (simp_all add: kmonad putc_def tell_def)

definition quiet :: "('a, user) kop \<Rightarrow> bool" where
  "quiet m \<longleftrightarrow> (\<forall>s r t. m s = Done r t \<longrightarrow> replies t = replies s)"

lemma quietD: "quiet m \<Longrightarrow> m s = Done r t \<Longrightarrow> replies t = replies s"
  by (simp add: quiet_def)

lemma quiet_basic [simp]: "quiet (kret x)" "quiet (Done x)" "quiet kfault" "quiet (tell c)" "quiet (putc fd ch)" "quiet (puts fd cs)"
  by (simp_all add: quiet_def kmonad tell_def putc_def puts_run)

lemma quiet_kseq [simp]: "quiet m \<Longrightarrow> quiet n \<Longrightarrow> quiet (kseq m n)"
  by (fastforce simp: quiet_def kmonad split: outcome.splits)

lemma quiet_uprintint [simp]: "quiet (uprintint fd x base sign)"
  by (simp add: uprintint_def Let_def del: puts.simps split: option.split)

lemma quiet_printf [simp]: "quiet (printf fd fmt args)"
  by (induction fd fmt args rule: printf.induct) (simp_all del: puts.simps split: list.split uarg.split)

lemmas printf_Done = quietD [OF quiet_printf]

abbreviation nl :: string where
  "nl \<equiv> [CHR 0x0A]"

definition fail :: "int \<Rightarrow> string \<Rightarrow> uarg list \<Rightarrow> ('a, user) kop" where
  "fail fd fmt args = kseq (printf fd fmt args) uexit"

section \<open>ulib.c: the routines that make system calls\<close>

text \<open>\<open>gets\<close>: at most \<open>max - 1\<close> characters, up to and with the end of the line.\<close>

function gets_loop :: "nat \<Rightarrow> string \<Rightarrow> (string, user) kop" where
  "gets_loop mx got s =
     (if \<not> length got + 1 < mx then Done got s
      else obind (ask_read 0 1 s) (\<lambda>r t. case r of
          Some [c] \<Rightarrow> if c = CHR 0x0A \<or> c = CHR 0x0D then Done (got @ [c]) t else gets_loop mx (got @ [c]) t
        | _ \<Rightarrow> Done got t))"
  by pat_completeness auto
termination
  by (relation "measure (\<lambda>(mx, got, s). mx - length got)") auto

definition gets :: "nat \<Rightarrow> (string, user) kop" where
  "gets mx = gets_loop mx []"

definition ustat_of :: "string \<Rightarrow> (ustat option, user) kop" where
  "ustat_of n =
     kbind (ask_int (Open n 0)) (\<lambda>fd.
     if fd < 0 then kret None else
     kbind (ask_stat fd) (\<lambda>r.
     kseq (tell (Close fd)) (kret r)))"


lemma ustat_of_Done: "ustat_of n s = Done r t \<Longrightarrow> length (replies t) < length (replies s)"
  by (auto simp: ustat_of_def kmonad tell_def dest!: ask_int_Done ask_stat_Done split: outcome.splits if_splits)

end
