(* ===== verification/Programs.thy ===== *)
theory Programs
  imports User Cstring "HOL-Library.Char_ord"
begin

text \<open>
  The programs of the system: cat.c, wc.c, grep.c, echo.c, kill.c, ln.c, mkdir.c, rm.c, ls.c, init.c, zombie.c and
  vmstat.c, each with the list of its arguments after its name. The regular expressions of grep.c are compared
  with a declarative reading of its patterns, \<open>wc\<close> and \<open>grep\<close> with functions of the whole input.
\<close>

text \<open>A loop over the arguments.\<close>

fun for_args :: "('b \<Rightarrow> (unit, user) kop) \<Rightarrow> 'b list \<Rightarrow> (unit, user) kop" where
  "for_args f [] = kret ()"
| "for_args f (a # as) = kseq (f a) (for_args f as)"

section \<open>cat.c\<close>

function cat :: "int \<Rightarrow> (unit, user) kop" where
  "cat fd s =
     obind (ask_read fd 512 s) (\<lambda>r t. case r of
       None \<Rightarrow> fail 1 (''cat: read error'' @ nl) [] t
     | Some bs \<Rightarrow>
         if bs = [] then Done () t else
         obind (ask_int (Write 1 bs) t) (\<lambda>n u.
         if n \<noteq> int (length bs) then fail 1 (''cat: write error'' @ nl) [] u else cat fd u))"
  by pat_completeness auto
termination
  by (relation "measure (\<lambda>(fd, s). length (replies s))") (auto dest!: ask_read_Done ask_int_Done)

definition cat_main :: "string list \<Rightarrow> (unit, user) kop" where
  "cat_main args =
     (if args = [] then kseq (cat 0) uexit else
      kseq (for_args (\<lambda>a. kbind (ask_int (Open a 0)) (\<lambda>fd.
        if fd < 0 then fail 1 (''cat: cannot open %s'' @ nl) [Str (Some a)]
        else kseq (cat fd) (tell (Close fd)))) args) uexit)"

section \<open>wc.c\<close>

record counts =
  wl :: uint32
  ww :: uint32
  wch :: uint32
  inword :: bool

definition is_space :: "char \<Rightarrow> bool" where
  "is_space c \<longleftrightarrow> c = CHR '' '' \<or> c = CHR 0x0D \<or> c = CHR 0x09 \<or> c = CHR 0x0A \<or> c = CHR 0x0B"

definition wc_char :: "char \<Rightarrow> counts \<Rightarrow> counts" where
  "wc_char ch k =
     (let k = k\<lparr>wch := wch k + 1\<rparr>;
          k = (if ch = CHR 0x0A then k\<lparr>wl := wl k + 1\<rparr> else k)
      in if is_space ch then k\<lparr>inword := False\<rparr>
         else if \<not> inword k then k\<lparr>ww := ww k + 1, inword := True\<rparr> else k)"

function wc_loop :: "int \<Rightarrow> counts \<Rightarrow> (counts option, user) kop" where
  "wc_loop fd k s =
     obind (ask_read fd 512 s) (\<lambda>r t. case r of
       None \<Rightarrow> Done None t
     | Some bs \<Rightarrow> if bs = [] then Done (Some k) t else wc_loop fd (fold wc_char bs k) t)"
  by pat_completeness auto
termination
  by (relation "measure (\<lambda>(fd, k, s). length (replies s))") (auto dest!: ask_read_Done)

definition wc :: "int \<Rightarrow> string \<Rightarrow> (unit, user) kop" where
  "wc fd name =
     kbind (wc_loop fd \<lparr>wl = 0, ww = 0, wch = 0, inword = False\<rparr>) (\<lambda>r. case r of
       None \<Rightarrow> fail 1 (''wc: read error'' @ nl) []
     | Some k \<Rightarrow> printf 1 (''%d %d %d %s'' @ nl) [Num (wl k), Num (ww k), Num (wch k), Str (Some name)])"

definition wc_main :: "string list \<Rightarrow> (unit, user) kop" where
  "wc_main args =
     (if args = [] then kseq (wc 0 []) uexit else
      kseq (for_args (\<lambda>a. kbind (ask_int (Open a 0)) (\<lambda>fd.
        if fd < 0 then fail 1 (''wc: cannot open %s'' @ nl) [Str (Some a)]
        else kseq (wc fd a) (tell (Close fd)))) args) uexit)"

section \<open>grep.c\<close>

text \<open>The matcher. The character \<open>re[1]\<close> of a pattern of one character is the terminating zero.\<close>

function matchhere :: "string \<Rightarrow> string \<Rightarrow> bool" and matchstar :: "char \<Rightarrow> string \<Rightarrow> string \<Rightarrow> bool" where
  "matchhere re text =
     (case re of
        [] \<Rightarrow> True
      | c # re1 \<Rightarrow>
          if re1 \<noteq> [] \<and> hd re1 = CHR ''*'' then matchstar c (tl re1) text
          else if c = CHR ''$'' \<and> re1 = [] then text = []
          else (case text of [] \<Rightarrow> False | t # ts \<Rightarrow> (c = CHR ''.'' \<or> c = t) \<and> matchhere re1 ts))"
| "matchstar c re text =
     (matchhere re text \<or> (case text of [] \<Rightarrow> False | t # ts \<Rightarrow> (t = c \<or> c = CHR ''.'') \<and> matchstar c re ts))"
  by pat_completeness auto
termination
  by (relation "measure (case_sum (\<lambda>(re, text). 2 * (length re + length text)) (\<lambda>(c, re, text). 2 * (length re + length text) + 1))")
    auto

fun match_from :: "string \<Rightarrow> string \<Rightarrow> bool" where
  "match_from re [] = matchhere re []"
| "match_from re (t # ts) = (matchhere re (t # ts) \<or> match_from re ts)"

definition match :: "string \<Rightarrow> string \<Rightarrow> bool" where
  "match re text = (if re \<noteq> [] \<and> hd re = CHR ''^'' then matchhere (tl re) text else match_from re text)"

text \<open>\<open>strchr(p, '\n')\<close>: the line at the front of the buffer and what follows it.\<close>

fun next_line :: "string \<Rightarrow> (string \<times> string) option" where
  "next_line [] = None"
| "next_line (c # cs) =
     (if c = CHR 0x00 then None
      else if c = CHR 0x0A then Some ([], cs)
      else map_option (\<lambda>(l, r). (c # l, r)) (next_line cs))"

lemma next_line_length: "next_line p = Some (l, r) \<Longrightarrow> length r < length p"
  by (induction p arbitrary: l r) (fastforce split: if_splits)+

function grep_lines :: "string \<Rightarrow> string \<Rightarrow> (string, user) kop" where
  "grep_lines re p =
     (case next_line p of
        None \<Rightarrow> kret p
      | Some (l, r) \<Rightarrow> kseq (if match re l then tell (Write 1 (l @ nl)) else kret ()) (grep_lines re r))"
  by pat_completeness auto
termination
  by (relation "measure (\<lambda>(re, p). length p)") (auto dest!: next_line_length)

declare grep_lines.simps [simp del]

lemma quiet_grep_lines: "quiet (grep_lines re p)"
proof (induction re p rule: grep_lines.induct)
  case (1 re p)
  then show ?case by (subst grep_lines.simps) (simp split: option.split prod.split)
qed

lemmas grep_lines_Done = quietD [OF quiet_grep_lines]

text \<open>\<open>grep\<close>: the \<open>m\<close> characters kept in the buffer of 1024 are the argument \<open>kept\<close>. When the buffer has no end of
  a line, \<open>m\<close> becomes 0.\<close>

function grep :: "string \<Rightarrow> int \<Rightarrow> string \<Rightarrow> (unit, user) kop" where
  "grep re fd kept s =
     obind (ask_read fd (1023 - length kept) s) (\<lambda>r t. case r of
       None \<Rightarrow> Done () t
     | Some bs \<Rightarrow>
         if bs = [] then Done () t else
         obind (grep_lines re (kept @ bs) t) (\<lambda>p u.
           grep re fd (if length p = length (kept @ bs) then [] else p) u))"
  by pat_completeness auto
termination
  by (relation "measure (\<lambda>(re, fd, k, s). length (replies s))") (auto dest!: ask_read_Done grep_lines_Done simp del: grep_lines.simps)

definition grep_main :: "string list \<Rightarrow> (unit, user) kop" where
  "grep_main args =
     (case args of
        [] \<Rightarrow> fail 2 (''usage: grep pattern [file ...]'' @ nl) []
      | pattern # files \<Rightarrow>
          if files = [] then kseq (grep pattern 0 []) uexit else
          kseq (for_args (\<lambda>a. kbind (ask_int (Open a 0)) (\<lambda>fd.
            if fd < 0 then fail 1 (''grep: cannot open %s'' @ nl) [Str (Some a)]
            else kseq (grep pattern fd []) (tell (Close fd)))) files) uexit)"

section \<open>The other programs\<close>

fun echo_loop :: "string list \<Rightarrow> (unit, user) kop" where
  "echo_loop [] = kret ()"
| "echo_loop (a # as) =
     kseq (printf 1 ''%s%s'' [Str (Some a), Str (Some (if as \<noteq> [] then '' '' else nl))]) (echo_loop as)"

definition echo_main :: "string list \<Rightarrow> (unit, user) kop" where
  "echo_main args = kseq (echo_loop args) uexit"

definition atoi_str :: "string \<Rightarrow> uint32" where
  "atoi_str cs = foldl (\<lambda>n c. n * 10 + of_char c - 48) 0 (takeWhile (\<lambda>c. CHR ''0'' \<le> c \<and> c \<le> CHR ''9'') cs)"

definition kill_main :: "string list \<Rightarrow> (unit, user) kop" where
  "kill_main args =
     (if args = [] then fail 2 (''usage: kill pid...'' @ nl) []
      else kseq (for_args (\<lambda>a. tell (Kill (atoi_str a))) args) uexit)"

definition ln_main :: "string list \<Rightarrow> (unit, user) kop" where
  "ln_main args =
     (case args of
        [a, b] \<Rightarrow>
          kbind (ask_int (Link a b)) (\<lambda>r.
          kseq (kwhen (r < 0) (printf 2 (''link %s %s: failed'' @ nl) [Str (Some a), Str (Some b)])) uexit)
      | _ \<Rightarrow> fail 2 (''Usage: ln old new'' @ nl) [])"

text \<open>\<open>mkdir\<close> and \<open>rm\<close> stop at the first argument that fails.\<close>

fun mkdir_loop :: "string list \<Rightarrow> (unit, user) kop" where
  "mkdir_loop [] = kret ()"
| "mkdir_loop (a # as) =
     kbind (ask_int (Mkdir a)) (\<lambda>r.
     if r < 0 then printf 2 (''mkdir: %s failed to create'' @ nl) [Str (Some a)] else mkdir_loop as)"

definition mkdir_main :: "string list \<Rightarrow> (unit, user) kop" where
  "mkdir_main args =
     (if args = [] then fail 2 (''Usage: mkdir files...'' @ nl) [] else kseq (mkdir_loop args) uexit)"

fun rm_loop :: "string list \<Rightarrow> (unit, user) kop" where
  "rm_loop [] = kret ()"
| "rm_loop (a # as) =
     kbind (ask_int (Unlink a)) (\<lambda>r.
     if r < 0 then printf 2 (''rm: %s failed to delete'' @ nl) [Str (Some a)] else rm_loop as)"

definition rm_main :: "string list \<Rightarrow> (unit, user) kop" where
  "rm_main args =
     (if args = [] then fail 2 (''Usage: rm files...'' @ nl) [] else kseq (rm_loop args) uexit)"

definition zombie_main :: "(unit, user) kop" where
  "zombie_main = kbind (ask_int Fork) (\<lambda>p. kseq (kwhen (p > 0) (tell (Sleep 5))) uexit)"

definition vmstat_main :: "(unit, user) kop" where
  "vmstat_main = kbind (ask_int Fpgn) (\<lambda>n. printf 1 (''free memory space: %d KB'' @ nl) [Num (of_int n * 4)])"

section \<open>ls.c\<close>

definition last_part :: "string \<Rightarrow> string" where
  "last_part path = rev (takeWhile (\<lambda>c. c \<noteq> CHR ''/'') (rev path))"

definition fmtname :: "string \<Rightarrow> string" where
  "fmtname path = (let p = last_part path in if length p \<ge> 14 then p else p @ replicate (14 - length p) (CHR '' ''))"

definition ls_line :: "string \<Rightarrow> ustat \<Rightarrow> (unit, user) kop" where
  "ls_line path st = printf 1 (''%s %d %d %d'' @ nl) [Str (Some (fmtname path)), Num (of_int (st_type st)), Num (st_ino st), Num (st_size st)]"

lemma quiet_ls_line: "quiet (ls_line path st)"
  by (simp only: ls_line_def quiet_printf)

lemmas ls_line_Done = quietD [OF quiet_ls_line]

text \<open>The loop over the entries of a directory: 2 bytes of inode number and 14 of name.\<close>

function ls_entries :: "int \<Rightarrow> string \<Rightarrow> (unit, user) kop" where
  "ls_entries fd path s =
     obind (ask_read fd 16 s) (\<lambda>r t. case r of
       None \<Rightarrow> Done () t
     | Some de \<Rightarrow>
         if length de \<noteq> 16 then Done () t
         else if de ! 0 = CHR 0x00 \<and> de ! 1 = CHR 0x00 then ls_entries fd path t
         else let name = path @ ''/'' @ takeWhile (\<lambda>c. c \<noteq> CHR 0x00) (drop 2 de) in
           obind (ustat_of name t) (\<lambda>st u. case st of
             None \<Rightarrow> obind (printf 1 (''ls: cannot stat %s'' @ nl) [Str (Some name)] u) (\<lambda>_ v. ls_entries fd path v)
           | Some x \<Rightarrow> obind (ls_line name x u) (\<lambda>_ v. ls_entries fd path v)))"
  by pat_completeness auto
termination
  by (relation "measure (\<lambda>(fd, path, s). length (replies s))")
    (auto dest!: ask_read_Done ustat_of_Done printf_Done ls_line_Done simp del: printf.simps)

definition ls :: "string \<Rightarrow> (unit, user) kop" where
  "ls path =
     kbind (ask_int (Open path 0)) (\<lambda>fd.
     if fd < 0 then printf 2 (''ls: cannot open %s'' @ nl) [Str (Some path)] else
     kbind (ask_stat fd) (\<lambda>st. case st of
       None \<Rightarrow> kseq (printf 2 (''ls: cannot stat %s'' @ nl) [Str (Some path)]) (tell (Close fd))
     | Some x \<Rightarrow>
         kseq (if st_type x = 2 then ls_line path x
               else if st_type x = 1 then
                 (if length path + 1 + 14 + 1 > 512 then printf 1 (''ls: path too long'' @ nl) [] else ls_entries fd path)
               else kret ())
           (tell (Close fd))))"

definition ls_main :: "string list \<Rightarrow> (unit, user) kop" where
  "ls_main args = (if args = [] then kseq (ls ''.'') uexit else kseq (for_args ls args) uexit)"

section \<open>init.c\<close>

text \<open>The loop that waits for the shell and collects orphans; it returns when the shell has ended.\<close>

function init_wait :: "int \<Rightarrow> (unit, user) kop" where
  "init_wait pid s =
     obind (ask_int Wait s) (\<lambda>wpid t.
     if wpid \<ge> 0 \<and> wpid \<noteq> pid then obind (printf 1 (''zombie!'' @ nl) [] t) (\<lambda>_ u. init_wait pid u) else Done () t)"
  by pat_completeness auto
termination
  by (relation "measure (\<lambda>(pid, s). length (replies s))") (auto dest!: ask_int_Done printf_Done simp del: printf.simps)

lemma init_wait_Done: "init_wait pid s = Done r t \<Longrightarrow> length (replies t) < length (replies s)"
proof (induction pid s arbitrary: r rule: init_wait.induct)
  case (1 pid s)
  show ?case
  proof (cases "ask_int Wait s")
    case (Done w u)
    with 1 ask_int_Done [OF Done] show ?thesis
      by (subst (asm) (2) init_wait.simps)
        (fastforce dest: printf_Done simp del: printf.simps init_wait.simps simp: obind_def split: if_splits outcome.splits)
  qed (use 1 in \<open>simp_all add: obind_def\<close>)
qed

function init_loop :: "(unit, user) kop" where
  "init_loop s =
     obind (printf 1 (''init: starting sh'' @ nl) [] s) (\<lambda>_ t.
     obind (ask_int Fork t) (\<lambda>pid u.
     if pid < 0 then fail 1 (''init: fork failed'' @ nl) [] u
     else if pid = 0 then kseq (ask_int (Exec ''sh'' [''sh''])) (fail 1 (''init: exec sh failed'' @ nl) []) u
     else obind (init_wait pid u) (\<lambda>_ v. init_loop v)))"
  by pat_completeness auto
termination
  by (relation "measure (\<lambda>s. length (replies s))")
    (auto dest!: ask_int_Done printf_Done init_wait_Done simp del: printf.simps init_wait.simps)

definition init_main :: "(unit, user) kop" where
  "init_main =
     kbind (ask_int (Open ''console'' 2)) (\<lambda>fd.
     kseq (kwhen (fd < 0) (kseq (tell (Mknod ''console'' 1 1)) (tell (Open ''console'' 2)))) (
     kseq (tell (Dup 0)) (
     kseq (tell (Dup 0)) init_loop)))"

end
