(* ===== verification/ProgramProps.thy ===== *)
theory ProgramProps
  imports Programs
begin

text \<open>
  Correctness of the matcher of grep.c, of \<open>wc\<close> and of \<open>grep\<close> itself.
\<close>

section \<open>What a pattern means\<close>

text \<open>A pattern is a sequence of items: a character (a dot stands for any), a character with a star, and at the
  end of the pattern a dollar, which stands for the end of the xs.\<close>

datatype item = One char | Star char | End

fun items :: "string \<Rightarrow> item list" where
  "items [] = []"
| "items [c] = (if c = CHR ''$'' then [End] else [One c])"
| "items (c # d # p) = (if d = CHR ''*'' then Star c # items p else One c # items (d # p))"

definition hits :: "char \<Rightarrow> char \<Rightarrow> bool" where
  "hits c t \<longleftrightarrow> c = CHR ''.'' \<or> c = t"

text \<open>\<open>reads is u v\<close>: the items match the text \<open>u\<close> when \<open>v\<close> follows it.\<close>

inductive reads :: "item list \<Rightarrow> string \<Rightarrow> string \<Rightarrow> bool" where
  reads_Nil: "reads [] [] v"
| reads_One: "hits c t \<Longrightarrow> reads is u v \<Longrightarrow> reads (One c # is) (t # u) v"
| reads_Star: "\<forall>t \<in> set w. hits c t \<Longrightarrow> reads is u v \<Longrightarrow> reads (Star c # is) (w @ u) v"
| reads_End: "reads [End] [] []"

inductive_simps reads_simps: "reads [] u v" "reads (One c # is) u v" "reads (Star c # is) u v" "reads [End] u v"

definition found :: "item list \<Rightarrow> string \<Rightarrow> bool" where
  "found is xs \<longleftrightarrow> (\<exists>u v. xs = u @ v \<and> reads is u v)"

lemma found_Nil: "found [] xs"
  by (auto simp: found_def reads_simps)

lemma found_End: "found [End] xs \<longleftrightarrow> xs = []"
  by (auto simp: found_def reads_simps)

lemma found_One: "found (One c # is) xs \<longleftrightarrow> (\<exists>t ts. xs = t # ts \<and> hits c t \<and> found is ts)"
proof
  assume "\<exists>t ts. xs = t # ts \<and> hits c t \<and> found is ts"
  then obtain t u v where "xs = (t # u) @ v" "reads (One c # is) (t # u) v" by (auto simp: found_def reads_simps)
  then show "found (One c # is) xs" unfolding found_def by blast
qed (auto simp: found_def reads_simps, blast)

lemma found_Star: "found (Star c # is) xs \<longleftrightarrow> (\<exists>w ts. xs = w @ ts \<and> (\<forall>t \<in> set w. hits c t) \<and> found is ts)"
  by (auto simp: found_def reads_simps) (metis append_assoc)+

lemma found_Star_rec:
  "found (Star c # is) xs \<longleftrightarrow> found is xs \<or> (\<exists>t ts. xs = t # ts \<and> hits c t \<and> found (Star c # is) ts)"
proof
  assume "found (Star c # is) xs"
  then obtain w ts where w: "xs = w @ ts" "\<forall>t \<in> set w. hits c t" "found is ts" by (auto simp: found_Star)
  then show "found is xs \<or> (\<exists>t ts. xs = t # ts \<and> hits c t \<and> found (Star c # is) ts)"
    by (cases w) (auto simp: found_Star)
next
  assume "found is xs \<or> (\<exists>t ts. xs = t # ts \<and> hits c t \<and> found (Star c # is) ts)"
  then show "found (Star c # is) xs"
  proof
    assume "found is xs"
    then show ?thesis unfolding found_Star by (intro exI [of _ "[]"] exI [of _ xs]) simp
  next
    assume "\<exists>t ts. xs = t # ts \<and> hits c t \<and> found (Star c # is) ts"
    then obtain t w ts where "xs = t # w @ ts" "hits c t" "\<forall>x \<in> set w. hits c x" "found is ts" by (auto simp: found_Star)
    then show ?thesis unfolding found_Star by (intro exI [of _ "t # w"] exI [of _ ts]) simp
  qed
qed

lemma items_step:
  "items (c # re) = (if re \<noteq> [] \<and> hd re = CHR ''*'' then Star c # items (tl re)
     else if c = CHR ''$'' \<and> re = [] then [End] else One c # items re)"
  by (cases re) auto

lemma matchhere_matchstar:
  "matchhere re xs \<longleftrightarrow> found (items re) xs"
  "matchstar c re xs \<longleftrightarrow> found (Star c # items re) xs"
proof (induction re xs and c re xs rule: matchhere_matchstar.induct)
  case (1 re xs)
  show ?case
  proof (cases re)
    case Nil
    then show ?thesis by (simp add: found_Nil)
  next
    case (Cons c re1)
    consider "re1 \<noteq> [] \<and> hd re1 = CHR ''*''" | "\<not> (re1 \<noteq> [] \<and> hd re1 = CHR ''*'')" "c = CHR ''$'' \<and> re1 = []"
      | "\<not> (re1 \<noteq> [] \<and> hd re1 = CHR ''*'')" "\<not> (c = CHR ''$'' \<and> re1 = [])" by blast
    then show ?thesis
    proof cases
      case 1
      then show ?thesis using "1.IH"(1) [OF Cons 1] Cons by (subst matchhere.simps) (simp add: items_step del: items.simps matchhere.simps matchstar.simps)
    next
      case 2
      then show ?thesis using Cons by (subst matchhere.simps) (auto simp: found_End)
    next
      case 3
      then show ?thesis using "1.IH"(2) [OF Cons 3] Cons
        by (subst matchhere.simps) (auto simp: items_step found_One hits_def simp del: items.simps matchhere.simps matchstar.simps split: list.split)
    qed
  qed
next
  case (2 c re xs)
  then show ?case
    by (subst matchstar.simps, subst found_Star_rec) (auto simp: hits_def simp del: matchhere.simps matchstar.simps split: list.splits)
qed

lemma match_from_suffix: "match_from re xs \<longleftrightarrow> (\<exists>pre post. xs = pre @ post \<and> matchhere re post)"
proof (induction xs)
  case (Cons t ts)
  have "(\<exists>pre post. t # ts = pre @ post \<and> matchhere re post) \<longleftrightarrow> matchhere re (t # ts) \<or> (\<exists>pre post. ts = pre @ post \<and> matchhere re post)"
    by (auto simp: Cons_eq_append_conv simp del: matchhere.simps)
  then show ?case using Cons by (simp del: matchhere.simps)
qed simp

text \<open>C20. The matcher of grep.c is right: \<open>match\<close> accepts a xs exactly when some part of it, at its beginning
  if the pattern starts with \<open>^\<close>, is a word of the pattern, where a dot is any character, a star any number
  of the character before it and a final dollar the end of the xs.\<close>

theorem match_correct:
  "match re xs \<longleftrightarrow> (\<exists>pre u post. xs = pre @ u @ post \<and>
     (if re \<noteq> [] \<and> hd re = CHR ''^'' then pre = [] \<and> reads (items (tl re)) u post else reads (items re) u post))"
  by (auto simp: match_def match_from_suffix matchhere_matchstar found_def simp del: matchhere.simps)

section \<open>Counting\<close>

text \<open>The number of words of a text: the characters that start one.\<close>

fun word_starts :: "bool \<Rightarrow> string \<Rightarrow> nat" where
  "word_starts inw [] = 0"
| "word_starts inw (c # cs) = (if is_space c \<or> inw then 0 else 1) + word_starts (\<not> is_space c) cs"

definition word_list :: "string \<Rightarrow> string list" where
  "word_list cs = filter (\<lambda>w. w \<noteq> []) (foldr (\<lambda>c ws. if is_space c then [] # ws else (c # hd ws) # tl ws) cs [[]])"

lemma foldr_words_nonempty:
  "foldr (\<lambda>c ws. if is_space c then [] # ws else (c # hd ws) # tl ws) cs [[]] \<noteq> []"
  by (induction cs) auto

lemma word_starts_words:
  "word_starts inw cs = length (word_list cs) -
     (if inw \<and> cs \<noteq> [] \<and> \<not> is_space (hd cs) then 1 else 0)"
proof (induction cs arbitrary: inw)
  case Nil
  show ?case by (simp add: word_list_def)
next
  case (Cons c cs)
  define f where "f = (\<lambda>c ws. if is_space c then [] # ws else (c # hd ws) # tl ws)"
  obtain w ws where ws: "foldr f cs [[]] = w # ws"
    using foldr_words_nonempty [of cs] by (cases "foldr f cs [[]]") (auto simp: f_def)
  have w: "w \<noteq> [] \<longleftrightarrow> cs \<noteq> [] \<and> \<not> is_space (hd cs)"
    using ws by (cases cs) (auto simp: f_def split: if_splits)
  have c: "word_list (c # cs) = (if is_space c then word_list cs else (c # w) # filter (\<lambda>w. w \<noteq> []) ws)"
    "word_list cs = (if w = [] then [] else [w]) @ filter (\<lambda>w. w \<noteq> []) ws"
    using ws unfolding word_list_def f_def [symmetric] by (auto simp: f_def)
  show ?case using Cons [of "\<not> is_space c"] w c by auto
qed

lemma wc_chars:
  "fold wc_char cs k = \<lparr>wl = wl k + of_nat (length (filter (\<lambda>c. c = CHR 0x0A) cs)), ww = ww k + of_nat (word_starts (inword k) cs),
     wch = wch k + of_nat (length cs), inword = (if cs = [] then inword k else \<not> is_space (last cs))\<rparr>"
proof (induction cs arbitrary: k)
  case (Cons c cs)
  show ?case unfolding fold_Cons o_apply Cons
    by (cases k) (auto simp: wc_char_def Let_def)
qed simp

declare wc_loop.simps [simp del]

lemma wc_loop_run:
  assumes "\<forall>bs \<in> set chunks. bs \<noteq> [] \<and> length bs \<le> 512"
  shows "\<exists>t. wc_loop fd k \<lparr>replies = map (\<lambda>bs. RBytes (Some bs)) chunks @ RBytes (Some []) # rs, calls = cs\<rparr> =
     Done (Some (fold wc_char (concat chunks) k)) t \<and> replies t = rs"
  using assms
proof (induction chunks arbitrary: k cs)
  case Nil
  show ?case by (subst wc_loop.simps) (simp add: ask_read_def ask_def kmonad)
next
  case (Cons bs chunks)
  then show ?case
    using Cons.IH [of "fold wc_char bs k" "cs @ [Read fd 512]"]
    by (subst wc_loop.simps) (simp add: ask_read_def ask_def kmonad)
qed

text \<open>C26. \<open>wc\<close> does not depend on how the input is cut into reads: the counts are the lines, the words and the
  characters of the whole input, each modulo the size of a machine integer.\<close>

theorem wc_counts:
  assumes "\<forall>bs \<in> set chunks. bs \<noteq> [] \<and> length bs \<le> 512"
  defines "input \<equiv> concat chunks"
  shows "\<exists>k t. wc_loop fd \<lparr>wl = 0, ww = 0, wch = 0, inword = False\<rparr> \<lparr>replies = map (\<lambda>bs. RBytes (Some bs)) chunks @ [RBytes (Some [])], calls = []\<rparr> =
       Done (Some k) t \<and> wl k = of_nat (length (filter (\<lambda>c. c = CHR 0x0A) input)) \<and>
     ww k = of_nat (length (word_list input)) \<and> wch k = of_nat (length input)"
proof -
  let ?k = "\<lparr>wl = 0, ww = 0, wch = 0, inword = False\<rparr>"
  obtain t where "wc_loop fd ?k \<lparr>replies = map (\<lambda>bs. RBytes (Some bs)) chunks @ [RBytes (Some [])], calls = []\<rparr> =
     Done (Some (fold wc_char input ?k)) t"
    using wc_loop_run [OF assms(1), of fd ?k "[]" "[]"] by (auto simp: input_def)
  then show ?thesis by (simp add: wc_chars word_starts_words)
qed

theorem wc_counts_witness:
  "\<exists>k t. wc_loop 0 \<lparr>wl = 0, ww = 0, wch = 0, inword = False\<rparr> \<lparr>replies = [RBytes (Some ''ab c''), RBytes (Some ''d e''), RBytes (Some [])], calls = []\<rparr> =
       Done (Some k) t \<and> ww k = 3 \<and> wch k = 7"
  using wc_counts [of "[''ab c'', ''d e'']" 0] by (simp add: word_list_def is_space_def) blast

section \<open>Lines\<close>

text \<open>The terminated lines of a text and what follows the last of them.\<close>

fun split_lines :: "string \<Rightarrow> string list \<times> string" where
  "split_lines [] = ([], [])"
| "split_lines (c # cs) =
     (case split_lines cs of (lns, r) \<Rightarrow>
       if c = CHR 0x0A then ([] # lns, r)
       else case lns of [] \<Rightarrow> ([], c # r) | l # lns \<Rightarrow> ((c # l) # lns, r))"

abbreviation file_lines :: "string \<Rightarrow> string list" where
  "file_lines t \<equiv> fst (split_lines t)"

abbreviation file_tail :: "string \<Rightarrow> string" where
  "file_tail t \<equiv> snd (split_lines t)"

lemma split_lines_none: "CHR 0x0A \<notin> set p \<Longrightarrow> split_lines p = ([], p)"
  by (induction p) auto

lemma split_lines_append:
  "split_lines (p @ q) = (case split_lines p of (lns, r) \<Rightarrow> case split_lines (r @ q) of (lns', r') \<Rightarrow> (lns @ lns', r'))"
proof (induction p)
  case (Cons c p)
  obtain lns r where p: "split_lines p = (lns, r)" by fastforce
  obtain lns' r' where q: "split_lines (r @ q) = (lns', r')" by fastforce
  have pq: "split_lines (p @ q) = (lns @ lns', r')" using Cons p q by simp
  show ?case
  proof (cases "c = CHR 0x0A")
    case True
    then show ?thesis using p q pq by simp
  next
    case False
    then show ?thesis using p q pq by (cases lns) (auto split: list.splits)
  qed
qed simp

lemma next_line_split:
  assumes "CHR 0x00 \<notin> set p"
  shows "split_lines p = (case next_line p of None \<Rightarrow> ([], p) | Some (l, r) \<Rightarrow> (l # file_lines r, file_tail r))"
    and "next_line p = None \<longleftrightarrow> CHR 0x0A \<notin> set p"
  using assms by (induction p) (auto split: option.splits prod.splits)

lemma next_line_set: "next_line p = Some (l, r) \<Longrightarrow> set r \<subseteq> set p"
  by (induction p arbitrary: l r) (fastforce split: if_splits)+

lemma grep_lines_run:
  assumes "CHR 0x00 \<notin> set p"
  shows "grep_lines re p s = Done (file_tail p) (s\<lparr>calls := calls s @ map (\<lambda>l. Write 1 (l @ nl)) (filter (match re) (file_lines p))\<rparr>)"
  using assms
proof (induction re p arbitrary: s rule: grep_lines.induct)
  case (1 re p)
  show ?case
  proof (cases "next_line p")
    case None
    then show ?thesis using next_line_split(1) [OF 1(2)] by (subst grep_lines.simps) (simp add: kmonad)
  next
    case (Some lr)
    obtain l r where lr: "lr = (l, r)" by fastforce
    have r: "CHR 0x00 \<notin> set r" using next_line_set Some lr 1(2) by fastforce
    show ?thesis using 1(1) [OF Some lr [symmetric] r] Some lr next_line_split(1) [OF 1(2)]
      by (subst grep_lines.simps) (simp add: kmonad tell_def)
  qed
qed

lemma file_tail_length: "length (file_tail t) \<le> length t" "CHR 0x0A \<in> set t \<Longrightarrow> length (file_tail t) < length t"
    "CHR 0x0A \<notin> set (file_tail t)" "set (file_tail t) \<subseteq> set t"
  by (induction t) (auto split: prod.splits list.splits)

lemma file_tail_chunk: "CHR 0x0A \<in> set b \<Longrightarrow> file_tail (a @ b) = file_tail b"
proof (induction a)
  case (Cons c a)
  have "file_lines t \<noteq> []" if "CHR 0x0A \<in> set t" for t using that by (induction t) (auto split: prod.splits list.splits)
  then have "file_lines (a @ b) \<noteq> []" using Cons by simp
  then show ?case using Cons by (auto split: prod.splits list.splits)
qed simp

declare grep.simps [simp del]

text \<open>Reads that each bring the end of a line.\<close>

lemma grep_run:
  assumes "\<forall>bs \<in> set chunks. length bs \<le> 511 \<and> CHR 0x0A \<in> set bs \<and> CHR 0x00 \<notin> set bs" "length kept < 512" "CHR 0x00 \<notin> set kept"
    "CHR 0x0A \<notin> set kept"
  shows "\<exists>t. grep re fd kept \<lparr>replies = map (\<lambda>bs. RBytes (Some bs)) chunks @ RBytes (Some []) # rs, calls = cs\<rparr> = Done () t \<and>
     replies t = rs \<and> filter (\<lambda>c. \<exists>l. c = Write 1 l) (calls t) =
       filter (\<lambda>c. \<exists>l. c = Write 1 l) cs @ map (\<lambda>l. Write 1 (l @ nl)) (filter (match re) (file_lines (kept @ concat chunks)))"
  using assms
proof (induction chunks arbitrary: kept cs)
  case Nil
  then show ?case by (subst grep.simps) (simp add: ask_read_def ask_def kmonad split_lines_none)
next
  case (Cons bs chunks)
  let ?p = "kept @ bs"
  have bs: "length bs \<le> 511" "CHR 0x0A \<in> set bs" "CHR 0x00 \<notin> set ?p" "bs \<noteq> []" "length bs \<le> 1023 - length kept"
    using Cons.prems by auto
  have tl: "file_tail ?p = file_tail bs" by (rule file_tail_chunk [OF bs(2)])
  have "length (file_tail ?p) \<noteq> length kept + length bs" using file_tail_length(2) [of ?p] bs(2) by simp
  then have step: "grep re fd kept \<lparr>replies = map (\<lambda>bs. RBytes (Some bs)) (bs # chunks) @ RBytes (Some []) # rs, calls = cs\<rparr> =
      grep re fd (file_tail ?p) \<lparr>replies = map (\<lambda>bs. RBytes (Some bs)) chunks @ RBytes (Some []) # rs,
        calls = (cs @ [Read fd (1023 - length kept)]) @ map (\<lambda>l. Write 1 (l @ nl)) (filter (match re) (file_lines ?p))\<rparr>"
    using bs by (subst grep.simps) (simp add: ask_read_def ask_def kmonad grep_lines_run)
  have fl: "file_lines (kept @ concat (bs # chunks)) = file_lines ?p @ file_lines (file_tail ?p @ concat chunks)"
    using split_lines_append [of ?p "concat chunks"] by (simp split: prod.splits)
  have "length (file_tail ?p) < 512" "CHR 0x00 \<notin> set (file_tail ?p)" "CHR 0x0A \<notin> set (file_tail ?p)"
    using file_tail_length [of bs] bs tl by auto
  from Cons.IH [OF _ this] Cons.prems(1) show ?case
    unfolding step fl by (fastforce simp: filter_map o_def)
qed



end
