(* ===== verification/Shell.thy ===== *)
theory Shell
  imports User
begin

text \<open>
  The shell, sh.c. The parser reads a line; a pointer into the line is represented by the characters from
  there to the end of the line (\<open>ps\<close> is the state of a parser), and the two pointers of a token by the number
  of characters after each. \<open>panic\<close> of the shell is the outcome \<open>Panic\<close> of a parser. The recursive procedures have
  fuel for the depth of the recursion, \<open>Spin\<close> when it is used up; four units for each character of the line are
  always enough. \<open>runcmd\<close> and \<open>main\<close> make system calls, as the other user programs.
\<close>

datatype 't cmd =
    EXEC "'t list"
  | REDIR "'t cmd" 't int int
  | PIPE "'t cmd" "'t cmd"
  | LIST "'t cmd" "'t cmd"
  | BACK "'t cmd"

type_synonym token = "nat \<times> nat"

abbreviation (input) MAXARGS :: nat where "MAXARGS \<equiv> 10"
abbreviation (input) O_RDONLY :: int where "O_RDONLY \<equiv> 0"
abbreviation (input) O_WRCREATE :: int where "O_WRCREATE \<equiv> 0x201"

section \<open>Tokens\<close>

definition whitespace :: string where
  "whitespace = [CHR '' '', CHR 0x09, CHR 0x0D, CHR 0x0A, CHR 0x0B]"

definition symbols :: string where
  "symbols = ''<|>&;()''"

definition white :: "char \<Rightarrow> bool" where
  "white c \<longleftrightarrow> c \<in> set whitespace"

definition wordch :: "char \<Rightarrow> bool" where
  "wordch c \<longleftrightarrow> c \<notin> set whitespace \<and> c \<notin> set symbols"

definition skip :: "string \<Rightarrow> string" where
  "skip r = dropWhile white r"

text \<open>\<open>gettoken\<close>: the kind of the token, its two ends, and the rest of the line.\<close>

definition gettoken :: "string \<Rightarrow> char \<times> token \<times> string" where
  "gettoken r =
     (let s = skip r in
      case s of
        [] \<Rightarrow> (CHR 0x00, (0, 0), [])
      | c # s1 \<Rightarrow>
          if c \<in> set ''|();&<'' then (c, (length s, length s1), skip s1)
          else if c = CHR ''>'' then
            (if s1 \<noteq> [] \<and> hd s1 = CHR ''>'' then (CHR ''+'', (length s, length (tl s1)), skip (tl s1))
             else (c, (length s, length s1), skip s1))
          else (let s2 = dropWhile wordch s in (CHR ''a'', (length s, length s2), skip s2)))"

definition token :: "(char \<times> token, string) kop" where
  "token = (\<lambda>r. case gettoken r of (k, t, r') \<Rightarrow> Done (k, t) r')"

definition peek :: "string \<Rightarrow> (bool, string) kop" where
  "peek toks = (\<lambda>r. let s = skip r in Done (s \<noteq> [] \<and> hd s \<in> set toks) s)"

lemma skip_length: "length (skip r) \<le> length r"
  by (simp add: skip_def length_dropWhile_le)

lemma skip_hd: "skip r \<noteq> [] \<Longrightarrow> \<not> white (hd (skip r))"
  unfolding skip_def by (rule hd_dropWhile)

lemma skip_skip [simp]: "skip (skip r) = skip r"
  by (simp add: skip_def)

lemma gettoken_less:
  assumes "gettoken r = (k, t, r')" "skip r \<noteq> []"
  shows "length r' < length (skip r)"
proof (cases "skip r")
  case (Cons c s1)
  have sk: "length (skip s) \<le> length s1" if "length s \<le> length s1" for s using skip_length [of s] that by simp
  have "length (dropWhile wordch (c # s1)) \<le> length s1" if "c \<notin> set ''|();&<''" "c \<noteq> CHR ''>''"
    using that skip_hd [OF assms(2)] Cons by (auto simp: wordch_def white_def symbols_def length_dropWhile_le)
  then show ?thesis
    using assms(1) Cons sk [of s1] sk [of "tl s1"] sk [of "dropWhile wordch (c # s1)"]
    by (auto simp: gettoken_def Let_def less_Suc_eq_le split: if_splits)
qed (use assms in simp)

lemma gettoken_length: "gettoken r = (k, t, r') \<Longrightarrow> length r' \<le> length r"
  using gettoken_less [of r k t r'] skip_length [of r] by (cases "skip r = []") (auto simp: gettoken_def)

section \<open>The parser\<close>

function parseredirs :: "token cmd \<Rightarrow> (token cmd, string) kop" where
  "parseredirs c r =
     (let s = skip r in
      if \<not> (s \<noteq> [] \<and> hd s \<in> set ''<>'') then Done c s
      else case gettoken s of (tok, _, r1) \<Rightarrow>
        case gettoken r1 of (k, t, r2) \<Rightarrow>
          if k \<noteq> CHR ''a'' then Panic ''missing file for redirection''
          else parseredirs (if tok = CHR ''<'' then REDIR c t O_RDONLY 0 else REDIR c t O_WRCREATE 1) r2)"
  by pat_completeness auto
termination
proof (relation "measure (\<lambda>(c, r). length r)", goal_cases)
  case (2 c r s tok y t r1 k w u r2)
  then have "length r1 < length s" "length r2 \<le> length r1" "length s \<le> length r"
    using gettoken_less [of s tok t r1] gettoken_length [of r1 k u r2] skip_length [of r] by auto
  then show ?case by simp
qed simp


declare parseredirs.simps [simp del]

lemma parseredirs_length: "parseredirs c r = Done c' r' \<Longrightarrow> length r' \<le> length r"
proof (induction c r rule: parseredirs.induct)
  case (1 c r)
  show ?case
  proof (cases "skip r \<noteq> [] \<and> hd (skip r) \<in> set ''<>''")
    case False
    then show ?thesis using 1(2) skip_length [of r] by (subst (asm) parseredirs.simps) (auto simp: Let_def)
  next
    case True
    obtain tok t r1 where g: "gettoken (skip r) = (tok, t, r1)" using prod_cases3 by blast
    obtain k u r2 where h: "gettoken r1 = (k, u, r2)" using prod_cases3 by blast
    have len: "length r2 \<le> length r"
      using gettoken_length [OF g] gettoken_length [OF h] skip_length [of r] by simp
    show ?thesis
    proof (cases "k = CHR ''a''")
      case k: True
      have "length r' \<le> length r2"
        using 1(1) [OF refl _ g [symmetric] refl h [symmetric] refl] 1(2) True g h k
        by (subst (asm) (2) parseredirs.simps) (auto simp: Let_def)
      then show ?thesis using len by simp
    next
      case False
      then show ?thesis using 1(2) True g h by (subst (asm) parseredirs.simps) (auto simp: Let_def)
    qed
  qed
qed

text \<open>\<open>parseexec\<close> keeps a pointer to its command inside the redirections put around it: an argument is added to
  the command at the bottom.\<close>

fun add_arg :: "'t \<Rightarrow> 't cmd \<Rightarrow> 't cmd" where
  "add_arg a (EXEC as) = EXEC (as @ [a])"
| "add_arg a (REDIR c f m fd) = REDIR (add_arg a c) f m fd"
| "add_arg a c = c"

function parse_args :: "nat \<Rightarrow> token cmd \<Rightarrow> (token cmd, string) kop" where
  "parse_args argc c r =
     (let s = skip r in
      if s \<noteq> [] \<and> hd s \<in> set ''|)&;'' then Done c s
      else case gettoken s of (k, t, r1) \<Rightarrow>
        if k = CHR 0x00 then Done c r1
        else if k \<noteq> CHR ''a'' then Panic ''syntax''
        else if argc + 1 \<ge> MAXARGS then Panic ''too many args''
        else obind (parseredirs (add_arg t c) r1) (\<lambda>c r2. parse_args (argc + 1) c r2))"
  by pat_completeness auto
termination
proof (relation "measure (\<lambda>(n, c, r). length r)", goal_cases)
  case (2 argc c r s k y t r1 c' r2)
  then have g: "gettoken s = (k, t, r1)" and k: "k \<noteq> CHR 0x00" and s: "s = skip r" by auto
  then have "skip s \<noteq> []" by (auto simp: gettoken_def)
  then have "length r1 < length s" using gettoken_less [OF g] s by simp
  moreover have "length r2 \<le> length r1" using 2 parseredirs_length by blast
  ultimately show ?case using skip_length [of r] s by simp
qed simp

declare parse_args.simps [simp del]

function parse_backs :: "token cmd \<Rightarrow> (token cmd, string) kop" where
  "parse_backs c r =
     (let s = skip r in
      if s \<noteq> [] \<and> hd s = CHR ''&'' then (case gettoken s of (k, t, r1) \<Rightarrow> parse_backs (BACK c) r1) else Done c s)"
  by pat_completeness auto
termination
proof (relation "measure (\<lambda>(c, r). length r)", goal_cases)
  case (2 c r s k y t r1)
  then have "length r1 < length s" using gettoken_less [of s k t r1] by auto
  then show ?case using skip_length [of r] 2 by simp
qed simp

declare parse_backs.simps [simp del]

fun parseline :: "nat \<Rightarrow> (token cmd, string) kop" and
  parsepipe :: "nat \<Rightarrow> (token cmd, string) kop" and
  parseexec :: "nat \<Rightarrow> (token cmd, string) kop" and
  parseblock :: "nat \<Rightarrow> (token cmd, string) kop" where
  "parseline 0 = kspin"
| "parseline (Suc n) =
     kbind (parsepipe n) (\<lambda>c.
     kbind (parse_backs c) (\<lambda>c.
     kbind (peek '';'') (\<lambda>p.
     if p then kseq token (kbind (parseline n) (\<lambda>d. kret (LIST c d))) else kret c)))"
| "parsepipe 0 = kspin"
| "parsepipe (Suc n) =
     kbind (parseexec n) (\<lambda>c.
     kbind (peek ''|'') (\<lambda>p.
     if p then kseq token (kbind (parsepipe n) (\<lambda>d. kret (PIPE c d))) else kret c))"
| "parseexec 0 = kspin"
| "parseexec (Suc n) =
     kbind (peek ''('') (\<lambda>p.
     if p then parseblock n else kbind (parseredirs (EXEC [])) (\<lambda>c. parse_args 0 c))"
| "parseblock 0 = kspin"
| "parseblock (Suc n) =
     kbind (peek ''('') (\<lambda>p.
     if \<not> p then kpanic ''parseblock'' else
     kseq token (
     kbind (parseline n) (\<lambda>c.
     kbind (peek '')'') (\<lambda>p.
     if \<not> p then kpanic ''syntax - missing )'' else
     kseq token (parseredirs c)))))"

text \<open>\<open>nulterminate\<close> on the buffer, which holds the line and its terminating zero: a zero at the end of each token.\<close>

definition put_nul :: "nat \<Rightarrow> token \<Rightarrow> string \<Rightarrow> string" where
  "put_nul n t m = m[n - snd t := CHR 0x00]"

fun nulterminate :: "nat \<Rightarrow> token cmd \<Rightarrow> string \<Rightarrow> string" where
  "nulterminate n (EXEC as) m = fold (put_nul n) as m"
| "nulterminate n (REDIR c f md fd) m = put_nul n f (nulterminate n c m)"
| "nulterminate n (PIPE l r) m = nulterminate n r (nulterminate n l m)"
| "nulterminate n (LIST l r) m = nulterminate n r (nulterminate n l m)"
| "nulterminate n (BACK c) m = nulterminate n c m"

text \<open>The string at an address of the buffer.\<close>

definition cstring :: "string \<Rightarrow> nat \<Rightarrow> string" where
  "cstring m i = takeWhile (\<lambda>c. c \<noteq> CHR 0x00) (drop i m)"

text \<open>\<open>parsecmd\<close>: the command with the strings its pointers stand for after \<open>nulterminate\<close>.\<close>

definition parsecmd :: "string \<Rightarrow> (string cmd, string) outcome" where
  "parsecmd b =
     (let n = length b in
      obind (parseline (4 * n + 4) b) (\<lambda>c r.
      if skip r \<noteq> [] then Panic (''leftovers: '' @ skip r @ nl @ ''syntax'') else
      let m = nulterminate n c (b @ [CHR 0x00]) in Done (map_cmd (\<lambda>t. cstring m (n - fst t)) c) m))"

section \<open>Running commands\<close>

definition sh_panic :: "string \<Rightarrow> ('a, user) kop" where
  "sh_panic e = fail 2 (''%s'' @ nl) [Str (Some e)]"

definition fork1 :: "(int, user) kop" where
  "fork1 = kbind (ask_int Fork) (\<lambda>pid. if pid = - 1 then sh_panic ''fork'' else kret pid)"

definition ask_pipe :: "((int \<times> int) option, user) kop" where
  "ask_pipe = kbind (ask Pipe) (\<lambda>r. case r of RPair p \<Rightarrow> kret p | _ \<Rightarrow> kfault)"

text \<open>\<open>runcmd\<close> never returns. \<open>exec\<close> answers only when it fails.\<close>

fun runcmd :: "string cmd \<Rightarrow> (unit, user) kop" where
  "runcmd (EXEC as) =
     (case as of
        [] \<Rightarrow> uexit
      | a # _ \<Rightarrow> kseq (ask_int (Exec a as)) (fail 2 (''exec %s failed'' @ nl) [Str (Some a)]))"
| "runcmd (REDIR c f m fd) =
     kseq (tell (Close fd)) (
     kbind (ask_int (Open f m)) (\<lambda>r.
     if r < 0 then fail 2 (''open %s failed'' @ nl) [Str (Some f)] else kseq (runcmd c) uexit))"
| "runcmd (LIST l r) =
     kbind fork1 (\<lambda>pid.
     if pid = 0 then kseq (runcmd l) uexit else
     kseq (ask_int Wait) (kseq (runcmd r) uexit))"
| "runcmd (PIPE l r) =
     kbind ask_pipe (\<lambda>p. case p of
       None \<Rightarrow> sh_panic ''pipe''
     | Some (p0, p1) \<Rightarrow>
         kbind fork1 (\<lambda>pid.
         if pid = 0 then
           kseq (tell (Close 1)) (kseq (tell (Dup p1)) (kseq (tell (Close p0)) (kseq (tell (Close p1)) (kseq (runcmd l) uexit))))
         else
         kbind fork1 (\<lambda>pid.
         if pid = 0 then
           kseq (tell (Close 0)) (kseq (tell (Dup p0)) (kseq (tell (Close p0)) (kseq (tell (Close p1)) (kseq (runcmd r) uexit))))
         else
         kseq (tell (Close p0)) (
         kseq (tell (Close p1)) (
         kseq (ask_int Wait) (
         kseq (ask_int Wait) uexit))))))"
| "runcmd (BACK c) =
     kbind fork1 (\<lambda>pid. if pid = 0 then kseq (runcmd c) uexit else uexit)"

definition getcmd :: "nat \<Rightarrow> (string option, user) kop" where
  "getcmd nbuf =
     kseq (printf 2 ''$ '' []) (
     kbind (gets nbuf) (\<lambda>b.
     kret (let b = takeWhile (\<lambda>c. c \<noteq> CHR 0x00) b in if b = [] then None else Some b)))"


text \<open>The descriptors 0, 1 and 2 are opened first.\<close>

function sh_open :: "(unit, user) kop" where
  "sh_open s =
     obind (ask_int (Open ''console'' 2) s) (\<lambda>fd t.
     if fd < 0 then Done () t else if fd \<ge> 3 then tell (Close fd) t else sh_open t)"
  by pat_completeness auto
termination
  by (relation "measure (\<lambda>s. length (replies s))") (auto dest!: ask_int_Done)

lemma gets_loop_Done: "gets_loop mx got s = Done b t \<Longrightarrow> length (replies t) \<le> length (replies s)"
proof (induction mx got s arbitrary: b rule: gets_loop.induct)
  case (1 mx got s)
  show ?case
  proof (cases "length got + 1 < mx")
    case True
    show ?thesis
    proof (cases "ask_read 0 1 s")
      case (Done r u)
      note len = ask_read_Done [OF Done]
      show ?thesis
      proof (cases "\<exists>c. r = Some [c] \<and> c \<noteq> CHR 0x0A \<and> c \<noteq> CHR 0x0D")
        case c: True
        then obtain c where c: "r = Some [c]" "c \<noteq> CHR 0x0A" "c \<noteq> CHR 0x0D" by blast
        then have "gets_loop mx got s = gets_loop mx (got @ [c]) u" using True Done by (subst gets_loop.simps) simp
        then show ?thesis using 1(1) [of r u "[c]" c "[]" b] 1(2) True Done c len by simp
      next
        case False
        then have "gets_loop mx got s = Done b u \<or> (\<exists>b'. gets_loop mx got s = Done b' u)"
          using True Done by (subst (1 2) gets_loop.simps) (auto split: option.split list.split)
        then show ?thesis using 1(2) len by auto
      qed
    qed (use 1 True in \<open>simp_all add: gets_loop.simps [of mx got s]\<close>)
  next
    case False
    then show ?thesis using 1(2) by (simp add: gets_loop.simps [of mx got s])
  qed
qed


lemma fail_not_Done [simp]: "fail fd fmt args s \<noteq> Done r t"
  by (simp add: fail_def uexit_def kmonad tell_def del: printf.simps split: outcome.split)

lemma fork1_Done: "fork1 s = Done r t \<Longrightarrow> length (replies t) < length (replies s)"
  by (auto simp: fork1_def kmonad sh_panic_def dest: ask_int_Done split: outcome.splits if_splits)

lemma getcmd_Done: "getcmd n s = Done r t \<Longrightarrow> length (replies t) \<le> length (replies s)"
  by (auto simp: getcmd_def gets_def kmonad simp del: printf.simps gets_loop.simps dest!: printf_Done gets_loop_Done split: outcome.splits)

text \<open>The loop of \<open>main\<close>.\<close>

function sh_loop :: "(unit, user) kop" where
  "sh_loop s =
     obind (getcmd 100 s) (\<lambda>r t. case r of
       None \<Rightarrow> uexit t
     | Some b \<Rightarrow>
         if take 3 b = ''cd '' then
           (let dir = butlast (drop 3 b) in
            obind (ask_int (Chdir dir) t) (\<lambda>e u.
            obind (kwhen (e < 0) (printf 2 (''cannot cd %s'' @ nl) [Str (Some dir)]) u) (\<lambda>_ v. sh_loop v)))
         else
           obind (fork1 t) (\<lambda>pid u.
           if pid = 0 then
             (case parsecmd b of Done c _ \<Rightarrow> runcmd c u | Panic e \<Rightarrow> sh_panic e u | _ \<Rightarrow> Fault)
           else obind (ask_int Wait u) (\<lambda>_ v. sh_loop v)))"
  by pat_completeness auto
termination
  by (relation "measure (\<lambda>s. length (replies s))")
    (auto simp: kwhen_def kret_def simp del: printf.simps dest!: getcmd_Done ask_int_Done fork1_Done printf_Done split: if_splits)

definition sh_main :: "(unit, user) kop" where
  "sh_main = kseq sh_open sh_loop"

end
