(* ===== verification/ShellProps.thy ===== *)
theory ShellProps
  imports Shell "HOL-Library.Sublist"
begin

text \<open>
  The parser of the shell: it always comes to an end, its tokens are pieces of the line, and it reads back what a
  command prints as.
\<close>

section \<open>The parser always comes to an end\<close>

definition fine :: "nat \<Rightarrow> (token cmd, string) outcome \<Rightarrow> bool" where
  "fine n out = (case out of Done c r \<Rightarrow> length r \<le> n | Panic e \<Rightarrow> True | _ \<Rightarrow> False)"

lemma fine_simps [simp]:
  "fine n (Done c r) \<longleftrightarrow> length r \<le> n" "fine n (Panic e)" "\<not> fine n (Switch r)" "\<not> fine n Spin" "\<not> fine n Fault"
  by (simp_all add: fine_def)

lemma fine_mono: "fine n out \<Longrightarrow> n \<le> m \<Longrightarrow> fine m out"
  by (cases out) auto

lemma fine_less: "fine (length r) out \<Longrightarrow> length r < n \<Longrightarrow> fine n out"
  using fine_mono by fastforce

lemma fine_kbind:
  assumes "fine m (p r)" "\<And>c r'. p r = Done c r' \<Longrightarrow> length r' \<le> m \<Longrightarrow> fine n (f c r')"
  shows "fine n (kbind p f r)"
  using assms by (cases "p r") (auto simp: kbind_def)

lemma fine_peek:
  assumes "\<And>p s. s = skip r \<Longrightarrow> p = (s \<noteq> [] \<and> hd s \<in> set toks) \<Longrightarrow> length s \<le> length r \<Longrightarrow> fine n (f p s)"
  shows "fine n (kbind (peek toks) f r)"
  using assms skip_length [of r] by (simp add: peek_def kbind_def Let_def)

lemma fine_token:
  assumes "skip s \<noteq> []" "\<And>r. length r < length (skip s) \<Longrightarrow> fine n (f r)"
  shows "fine n (kseq token f s)"
proof -
  obtain k t r where g: "gettoken s = (k, t, r)" using prod_cases3 by blast
  then show ?thesis using assms(2) [OF gettoken_less [OF g assms(1)]] by (simp add: token_def kseq_def kbind_def)
qed

lemma fine_parseredirs: "fine (length r) (parseredirs c r)"
proof (induction c r rule: parseredirs.induct)
  case (1 c r)
  show ?case
  proof (cases "skip r \<noteq> [] \<and> hd (skip r) \<in> set ''<>''")
    case True
    obtain tok t r1 where g: "gettoken (skip r) = (tok, t, r1)" using prod_cases3 by blast
    obtain k u r2 where h: "gettoken r1 = (k, u, r2)" using prod_cases3 by blast
    have len: "length r2 \<le> length r" using gettoken_length [OF g] gettoken_length [OF h] skip_length [of r] by simp
    have "\<not> \<not> (skip r \<noteq> [] \<and> hd (skip r) \<in> set ''<>'')" using True by blast
    from 1 [OF refl this g [symmetric] refl h [symmetric] refl] show ?thesis
      using True g h len by (subst parseredirs.simps) (auto simp: Let_def intro: fine_mono)
  next
    case False
    then show ?thesis by (subst parseredirs.simps) (auto simp: Let_def skip_length)
  qed
qed

lemma fine_parse_args: "fine (length r) (parse_args argc c r)"
proof (induction argc c r rule: parse_args.induct)
  case (1 argc c r)
  obtain k t r1 where g: "gettoken (skip r) = (k, t, r1)" using prod_cases3 by blast
  have len: "length r1 \<le> length r" using gettoken_length [OF g] skip_length [of r] by simp
  show ?case
  proof (cases "(skip r \<noteq> [] \<and> hd (skip r) \<in> set ''|)&;'') \<or> k = CHR 0x00 \<or> k \<noteq> CHR ''a'' \<or> argc + 1 \<ge> MAXARGS")
    case True
    then show ?thesis using g len skip_length [of r] by (subst parse_args.simps) (auto simp: Let_def)
  next
    case False
    have "fine (length r2) (parse_args (argc + 1) c' r2)" if "parseredirs (add_arg t c) r1 = Done c' r2" for c' r2
      using 1 [OF refl _ g [symmetric] refl _ _ _ that] False by blast
    then show ?thesis
      using False g len fine_parseredirs [of r1 "add_arg t c"]
      by (subst parse_args.simps, cases "parseredirs (add_arg t c) r1") (auto simp: Let_def intro: fine_mono)
  qed
qed

lemma fine_parse_backs: "fine (length r) (parse_backs c r)"
proof (induction c r rule: parse_backs.induct)
  case (1 c r)
  obtain k t r1 where g: "gettoken (skip r) = (k, t, r1)" using prod_cases3 by blast
  have len: "length r1 \<le> length r" using gettoken_length [OF g] skip_length [of r] by simp
  show ?case
  proof (cases "skip r \<noteq> [] \<and> hd (skip r) = CHR ''&''")
    case True
    then show ?thesis using 1 [OF refl True g [symmetric] refl] g len by (subst parse_backs.simps) (auto simp: Let_def intro: fine_mono)
  next
    case False
    then show ?thesis by (subst parse_backs.simps) (auto simp: Let_def skip_length)
  qed
qed

text \<open>A token that continues the command, and what follows it.\<close>

lemma fine_follow:
  assumes "length r \<le> m" "\<And>r'. length r' < m \<Longrightarrow> fine m (q r')"
  shows "fine m (kbind (peek toks) (\<lambda>p. if p then kseq token (kbind q (\<lambda>d. kret (h d))) else kret c) r)"
proof (rule fine_peek)
  fix p and s :: string assume s: "s = skip r" "p = (s \<noteq> [] \<and> hd s \<in> set toks)" "length s \<le> length r"
  have "fine m (kseq token (kbind q (\<lambda>d. kret (h d))) s)" if p
  proof (rule fine_token)
    fix r' :: string assume "length r' < length (skip s)"
    then have "fine m (q r')" using s assms by simp
    then show "fine m (kbind q (\<lambda>d. kret (h d)) r')" by (rule fine_kbind) (simp add: kret_def)
  qed (use s that in simp)
  then show "fine m ((if p then kseq token (kbind q (\<lambda>d. kret (h d))) else kret c) s)"
    using s(3) assms(1) by (simp add: kret_def)
qed

lemma fine_parseline:
  assumes "fine (length r) (parsepipe n r)" "\<And>r'. length r' < length r \<Longrightarrow> fine (length r') (parseline n r')"
  shows "fine (length r) (parseline (Suc n) r)"
  unfolding parseline.simps using assms(1)
proof (rule fine_kbind)
  fix c and r1 :: string assume "length r1 \<le> length r"
  then have "fine (length r) (parse_backs c r1)" using fine_parse_backs fine_mono by blast
  then show "fine (length r) (kbind (parse_backs c) (\<lambda>c. kbind (peek '';'') (\<lambda>p.
      if p then kseq token (kbind (parseline n) (\<lambda>d. kret (LIST c d))) else kret c)) r1)"
    by (rule fine_kbind) (use assms(2) in \<open>auto intro!: fine_follow intro: fine_less\<close>)
qed

lemma fine_parsepipe:
  assumes "fine (length r) (parseexec n r)" "\<And>r'. length r' < length r \<Longrightarrow> fine (length r') (parsepipe n r')"
  shows "fine (length r) (parsepipe (Suc n) r)"
  unfolding parsepipe.simps using assms(1)
  by (rule fine_kbind) (use assms(2) in \<open>auto intro!: fine_follow intro: fine_less\<close>)

lemma fine_parseexec:
  assumes "\<And>r'. length r' \<le> length r \<Longrightarrow> fine (length r') (parseblock n r')"
  shows "fine (length r) (parseexec (Suc n) r)"
  unfolding parseexec.simps
proof (rule fine_peek)
  fix p and s :: string assume s: "length s \<le> length r"
  have "fine (length s) (kbind (parseredirs (EXEC [])) (\<lambda>c. parse_args 0 c) s)"
    by (rule fine_kbind [OF fine_parseredirs]) (use fine_parse_args fine_mono in blast)
  then show "fine (length r) ((if p then parseblock n else kbind (parseredirs (EXEC [])) (\<lambda>c. parse_args 0 c)) s)"
    using assms s by (auto intro: fine_mono)
qed

lemma fine_close:
  assumes "length r < m"
  shows "fine m (kbind (peek '')'') (\<lambda>p. if \<not> p then kpanic ''syntax - missing )'' else kseq token (parseredirs c)) r)"
proof (rule fine_peek)
  fix p and s :: string assume s: "s = skip r" "p = (s \<noteq> [] \<and> hd s \<in> set '')'')" "length s \<le> length r"
  have "fine m (kseq token (parseredirs c) s)" if p
  proof (rule fine_token)
    fix r' :: string assume "length r' < length (skip s)"
    then show "fine m (parseredirs c r')" using fine_parseredirs [of r' c] s assms by (auto intro: fine_mono)
  qed (use s that in simp)
  then show "fine m ((if \<not> p then kpanic ''syntax - missing )'' else kseq token (parseredirs c)) s)" by (simp add: kpanic_def)
qed

lemma fine_parseblock:
  assumes "\<And>r'. length r' < length r \<Longrightarrow> fine (length r') (parseline n r')"
  shows "fine (length r) (parseblock (Suc n) r)"
  unfolding parseblock.simps
proof (rule fine_peek)
  let ?g = "\<lambda>c. kbind (peek '')'') (\<lambda>p. if \<not> p then kpanic ''syntax - missing )'' else kseq token (parseredirs c))"
  fix p and s :: string assume s: "s = skip r" "p = (s \<noteq> [] \<and> hd s \<in> set ''('')" "length s \<le> length r"
  have "fine (length r) (kseq token (kbind (parseline n) ?g) s)" if p
  proof (rule fine_token)
    fix r' :: string assume "length r' < length (skip s)"
    then have r': "length r' < length r" using s by simp
    have "fine (length r') (parseline n r')" by (rule assms [OF r'])
    then show "fine (length r) (kbind (parseline n) ?g r')"
      by (rule fine_kbind) (use r' in \<open>auto intro: fine_close\<close>)
  qed (use s that in simp)
  then show "fine (length r) ((if \<not> p then kpanic ''parseblock'' else kseq token (kbind (parseline n) ?g)) s)" by (simp add: kpanic_def)
qed

lemma parse_fine:
  "(4 * length r + 4 \<le> n \<longrightarrow> fine (length r) (parseline n r)) \<and> (4 * length r + 3 \<le> n \<longrightarrow> fine (length r) (parsepipe n r)) \<and>
   (4 * length r + 2 \<le> n \<longrightarrow> fine (length r) (parseexec n r)) \<and> (4 * length r + 1 \<le> n \<longrightarrow> fine (length r) (parseblock n r))"
proof (induction n arbitrary: r)
  case (Suc n)
  show ?case
    by (intro conjI impI fine_parseline fine_parsepipe fine_parseexec fine_parseblock) (use Suc in auto)
qed simp

text \<open>C27. Parsing terminates: the fuel of \<open>parsecmd\<close> is enough for every line, so it gives a command or one of its
  error messages, and all its recursive procedures only go forward in the line.\<close>

theorem parsecmd_terminates:
  "case parsecmd b of Done c m \<Rightarrow> length m = length b + 1 | Panic e \<Rightarrow> True | _ \<Rightarrow> False"
proof -
  have len: "length (nulterminate n c m) = length m" for n c m
  proof (induction n c m rule: nulterminate.induct)
    case (1 n as m)
    then show ?case by (induction as arbitrary: m) (simp_all add: put_nul_def)
  qed (simp_all add: put_nul_def)
  have "fine (length b) (parseline (4 * length b + 4) b)" using parse_fine by blast
  then show ?thesis
    unfolding parsecmd_def Let_def by (cases "parseline (4 * length b + 4) b") (simp_all add: len)
qed

section \<open>Tokens lie in the line\<close>

text \<open>A token is a maximal piece of the line without white space and symbols.\<close>

definition tok_ok :: "string \<Rightarrow> token \<Rightarrow> bool" where
  "tok_ok b t \<longleftrightarrow> (\<exists>p w r. b = p @ w @ r \<and> t = (length (w @ r), length r) \<and> w \<noteq> [] \<and> (\<forall>c \<in> set w. wordch c) \<and>
     (r = [] \<or> \<not> wordch (hd r)))"

definition toks_ok :: "string \<Rightarrow> token cmd \<Rightarrow> bool" where
  "toks_ok b c \<longleftrightarrow> (\<forall>t \<in> set_cmd c. tok_ok b t)"

lemma toks_ok_simps [simp]:
  "toks_ok b (EXEC as) \<longleftrightarrow> (\<forall>t \<in> set as. tok_ok b t)" "toks_ok b (REDIR c f m fd) \<longleftrightarrow> toks_ok b c \<and> tok_ok b f"
  "toks_ok b (PIPE l r) \<longleftrightarrow> toks_ok b l \<and> toks_ok b r" "toks_ok b (LIST l r) \<longleftrightarrow> toks_ok b l \<and> toks_ok b r"
  "toks_ok b (BACK c) \<longleftrightarrow> toks_ok b c"
  by (auto simp: toks_ok_def)

lemma toks_ok_add_arg: "toks_ok b c \<Longrightarrow> tok_ok b t \<Longrightarrow> toks_ok b (add_arg t c)"
  by (induction t c rule: add_arg.induct) auto

lemma suffix_skip: "suffix (skip r) r"
  by (simp add: skip_def suffix_dropWhile)

lemma gettoken_ok:
  assumes "gettoken r = (k, t, r')" "suffix r b"
  shows "suffix r' b" and "k = CHR ''a'' \<Longrightarrow> tok_ok b t"
proof -
  have skip: "suffix (skip r) b" using suffix_skip assms(2) suffix_order.trans by blast
  have tl: "suffix (skip s) b" if "suffix s (skip r)" for s
    using that skip suffix_skip [of s] suffix_order.trans by blast
  have "suffix r' b \<and> (k = CHR ''a'' \<longrightarrow> tok_ok b t)"
  proof (cases "skip r")
    case Nil
    then show ?thesis using assms(1) by (auto simp: gettoken_def)
  next
    case (Cons c s1)
    have s: "suffix s1 (skip r)" "suffix (tl s1) (skip r)" "suffix (dropWhile wordch (skip r)) (skip r)"
      using Cons by (auto simp: suffix_ConsI suffix_tl suffix_order.trans suffix_dropWhile)
    consider "c \<in> set ''|();&<''" | "c = CHR ''>''" | "c \<notin> set ''|();&<''" "c \<noteq> CHR ''>''" by blast
    then show ?thesis
    proof cases
      case 1
      then show ?thesis using assms(1) Cons tl [OF s(1)] by (auto simp: gettoken_def Let_def)
    next
      case 2
      then show ?thesis using assms(1) Cons tl [OF s(1)] tl [OF s(2)] by (auto simp: gettoken_def Let_def split: if_splits)
    next
      case 3
      let ?w = "takeWhile wordch (skip r)" and ?e = "dropWhile wordch (skip r)"
      have c: "wordch c" using 3 skip_hd [of r] Cons by (auto simp: wordch_def white_def symbols_def)
      obtain p where p: "b = p @ skip r" using skip by (auto simp: suffix_def)
      then have b: "b = p @ ?w @ ?e" by simp
      have g: "k = CHR ''a''" "t = (length (skip r), length ?e)" "r' = skip ?e"
        using assms(1) 3 Cons by (auto simp: gettoken_def Let_def)
      moreover have "length (skip r) = length (?w @ ?e)" by simp
      moreover have "?w \<noteq> []" using c Cons by simp
      moreover have "\<forall>c \<in> set ?w. wordch c" using set_takeWhileD by fast
      moreover have "?e = [] \<or> \<not> wordch (hd ?e)" using hd_dropWhile by blast
      ultimately have "tok_ok b t" unfolding tok_ok_def using b by blast
      then show ?thesis using g tl [OF s(3)] by simp
    qed
  qed
  then show "suffix r' b" "k = CHR ''a'' \<Longrightarrow> tok_ok b t" by blast+
qed

text \<open>The commands a parser returns have such tokens, and it stays in the line.\<close>

definition tok_parser :: "string \<Rightarrow> (token cmd, string) kop \<Rightarrow> bool" where
  "tok_parser b p \<longleftrightarrow> (\<forall>r c r'. suffix r b \<longrightarrow> p r = Done c r' \<longrightarrow> suffix r' b \<and> toks_ok b c)"

lemma tok_parserD: "tok_parser b p \<Longrightarrow> suffix r b \<Longrightarrow> p r = Done c r' \<Longrightarrow> suffix r' b \<and> toks_ok b c"
  by (simp add: tok_parser_def)

lemma tok_parser_basic [simp]: "toks_ok b c \<Longrightarrow> tok_parser b (kret c)" "tok_parser b (kpanic e)" "tok_parser b kspin" "tok_parser b (\<lambda>a. Spin)"
  by (simp_all add: tok_parser_def kmonad)

lemma tok_parser_kbind:
  assumes "tok_parser b p" "\<And>c. toks_ok b c \<Longrightarrow> tok_parser b (f c)"
  shows "tok_parser b (kbind p f)"
  unfolding tok_parser_def
proof (intro allI impI)
  fix r c r' assume *: "suffix r b" "kbind p f r = Done c r'"
  then obtain d s where d: "p r = Done d s" "f d s = Done c r'" by (cases "p r") (auto simp: kbind_def)
  then show "suffix r' b \<and> toks_ok b c" using tok_parserD [OF assms(1) *(1) d(1)] tok_parserD [OF assms(2)] by blast
qed

lemma tok_parser_peek:
  assumes "\<And>p. tok_parser b (f p)"
  shows "tok_parser b (kbind (peek toks) f)"
  unfolding tok_parser_def
proof (intro allI impI)
  fix r c r' assume "suffix r b" "kbind (peek toks) f r = Done c r'"
  then show "suffix r' b \<and> toks_ok b c"
    using tok_parserD [OF assms] suffix_skip [of r] suffix_order.trans by (simp add: peek_def kbind_def Let_def) blast
qed

lemma tok_parser_token:
  assumes "tok_parser b p"
  shows "tok_parser b (kseq token p)"
  unfolding tok_parser_def
proof (intro allI impI)
  fix r c r' assume *: "suffix r b" "kseq token p r = Done c r'"
  obtain k t r1 where g: "gettoken r = (k, t, r1)" using prod_cases3 by blast
  show "suffix r' b \<and> toks_ok b c"
    using tok_parserD [OF assms gettoken_ok(1) [OF g *(1)]] * g by (simp add: token_def kseq_def kbind_def)
qed

lemma tok_parser_redirs: "parseredirs c r = Done c' r' \<Longrightarrow> suffix r b \<Longrightarrow> toks_ok b c \<Longrightarrow> suffix r' b \<and> toks_ok b c'"
proof (induction c r rule: parseredirs.induct)
  case (1 c r)
  have skip: "suffix (skip r) b" using 1(3) suffix_skip suffix_order.trans by blast
  show ?case
  proof (cases "skip r \<noteq> [] \<and> hd (skip r) \<in> set ''<>''")
    case True
    obtain tok t r1 where g: "gettoken (skip r) = (tok, t, r1)" using prod_cases3 by blast
    obtain k u r2 where h: "gettoken r1 = (k, u, r2)" using prod_cases3 by blast
    have r1: "suffix r1 b" using gettoken_ok(1) [OF g skip] .
    have nn: "\<not> \<not> (skip r \<noteq> [] \<and> hd (skip r) \<in> set ''<>'')" using True by blast
    let ?c = "if tok = CHR ''<'' then REDIR c u O_RDONLY 0 else REDIR c u O_WRCREATE 1"
    have eq: "parseredirs c r = (if k \<noteq> CHR ''a'' then Panic ''missing file for redirection'' else parseredirs ?c r2)"
      using True g h by (subst parseredirs.simps) (auto simp: Let_def)
    then have k: "k = CHR ''a''" using 1(2) by (auto split: if_splits)
    have "toks_ok b ?c" using 1(4) gettoken_ok(2) [OF h r1 k] by simp
    then show ?thesis
      using 1(1) [OF refl nn g [symmetric] refl h [symmetric] refl] k 1(2) eq gettoken_ok(1) [OF h r1] by simp
  next
    case False
    then have "parseredirs c r = Done c (skip r)" by (subst parseredirs.simps) (auto simp: Let_def)
    then show ?thesis using 1(2,4) skip by simp
  qed
qed

lemma tok_parser_args: "parse_args n c r = Done c' r' \<Longrightarrow> suffix r b \<Longrightarrow> toks_ok b c \<Longrightarrow> suffix r' b \<and> toks_ok b c'"
proof (induction n c r rule: parse_args.induct)
  case (1 n c r)
  have skip: "suffix (skip r) b" using 1(3) suffix_skip suffix_order.trans by blast
  obtain k t r1 where g: "gettoken (skip r) = (k, t, r1)" using prod_cases3 by blast
  show ?case
  proof (cases "(skip r \<noteq> [] \<and> hd (skip r) \<in> set ''|)&;'') \<or> k = CHR 0x00")
    case True
    then have "parse_args n c r = Done c (skip r) \<or> parse_args n c r = Done c r1"
      using g by (subst (1 2) parse_args.simps) (auto simp: Let_def)
    then show ?thesis using 1(2,4) skip gettoken_ok(1) [OF g skip] by auto
  next
    case False
    have eq: "parse_args n c r = (if k \<noteq> CHR ''a'' then Panic ''syntax'' else if n + 1 \<ge> MAXARGS then Panic ''too many args''
        else obind (parseredirs (add_arg t c) r1) (\<lambda>c r2. parse_args (n + 1) c r2))"
      using False g by (subst parse_args.simps) (auto simp: Let_def)
    then have k: "k = CHR ''a''" "\<not> n + 1 \<ge> MAXARGS" using 1(2) by (auto split: if_splits)
    then obtain d r2 where d: "parseredirs (add_arg t c) r1 = Done d r2" "parse_args (n + 1) d r2 = Done c' r'"
      using eq 1(2) by (cases "parseredirs (add_arg t c) r1") auto
    have "suffix r2 b \<and> toks_ok b d"
      using tok_parser_redirs [OF d(1) gettoken_ok(1) [OF g skip]] toks_ok_add_arg [OF 1(4) gettoken_ok(2) [OF g skip k(1)]] by blast
    then show ?thesis using 1(1) [OF refl _ g [symmetric] refl _ _ _ d(1) d(2)] False k by blast
  qed
qed

lemma tok_parser_backs: "parse_backs c r = Done c' r' \<Longrightarrow> suffix r b \<Longrightarrow> toks_ok b c \<Longrightarrow> suffix r' b \<and> toks_ok b c'"
proof (induction c r rule: parse_backs.induct)
  case (1 c r)
  have skip: "suffix (skip r) b" using 1(3) suffix_skip suffix_order.trans by blast
  obtain k t r1 where g: "gettoken (skip r) = (k, t, r1)" using prod_cases3 by blast
  show ?case
  proof (cases "skip r \<noteq> [] \<and> hd (skip r) = CHR ''&''")
    case True
    then have "parse_backs c r = parse_backs (BACK c) r1" using g by (subst parse_backs.simps) (auto simp: Let_def)
    then show ?thesis using 1(1) [OF refl True g [symmetric] refl] 1(2,4) gettoken_ok(1) [OF g skip] by simp
  next
    case False
    then have "parse_backs c r = Done c (skip r)" by (subst parse_backs.simps) (auto simp: Let_def)
    then show ?thesis using 1(2,4) skip by simp
  qed
qed

lemma tok_parser_loops [simp]:
  "toks_ok b c \<Longrightarrow> tok_parser b (parseredirs c)" "toks_ok b c \<Longrightarrow> tok_parser b (parse_args n c)" "toks_ok b c \<Longrightarrow> tok_parser b (parse_backs c)"
  unfolding tok_parser_def using tok_parser_redirs tok_parser_args tok_parser_backs by blast+

lemma tok_parser_all: "tok_parser b (parseline n) \<and> tok_parser b (parsepipe n) \<and> tok_parser b (parseexec n) \<and> tok_parser b (parseblock n)"
proof (induction n)
  case (Suc n)
  then show ?case
    by (auto intro!: tok_parser_kbind tok_parser_peek tok_parser_token)
qed simp

section \<open>Terminated strings\<close>

definition tok_text :: "string \<Rightarrow> token \<Rightarrow> string" where
  "tok_text b t = take (fst t - snd t) (drop (length b - fst t) b)"

lemma tok_text_split: "tok_text (p @ w @ r) (length (w @ r), length r) = w"
  by (simp add: tok_text_def)

lemma toks_okE:
  assumes "toks_ok b c" "t \<in> set_cmd c"
  obtains p w r where "b = p @ w @ r" "t = (length (w @ r), length r)" "\<forall>x \<in> set w. wordch x" "r = [] \<or> \<not> wordch (hd r)"
proof -
  have "tok_ok b t" using assms by (simp add: toks_ok_def)
  then show ?thesis unfolding tok_ok_def by (elim exE conjE) (rule that)
qed

lemma put_nuls_nth:
  assumes "i < length m"
  shows "fold (put_nul n) as m ! i = (if \<exists>t \<in> set as. i = n - snd t then CHR 0x00 else m ! i)"
  using assms by (induction as arbitrary: m) (auto simp: put_nul_def nth_list_update)

lemma length_put_nuls [simp]: "length (fold (put_nul n) as m) = length m"
  by (induction as arbitrary: m) (simp_all add: put_nul_def)

lemma length_nulterminate [simp]: "length (nulterminate n c m) = length m"
  by (induction n c m rule: nulterminate.induct) (simp_all add: put_nul_def)

lemma nulterminate_nth:
  assumes "i < length m"
  shows "nulterminate n c m ! i = (if \<exists>t \<in> set_cmd c. i = n - snd t then CHR 0x00 else m ! i)"
  using assms
proof (induction n c m rule: nulterminate.induct)
  case (2 n c f md fd m)
  then show ?case by (cases "i = n - snd f") (auto simp: put_nul_def nth_list_update)
qed (auto simp: put_nuls_nth)

text \<open>The zeros go where no token is, so each argument is the text of its token.\<close>

lemma cstring_token:
  assumes c: "toks_ok b c" "CHR 0x00 \<notin> set b" and t: "t \<in> set_cmd c"
  shows "cstring (nulterminate (length b) c (b @ [CHR 0x00])) (length b - fst t) = tok_text b t"
proof -
  let ?m = "nulterminate (length b) c (b @ [CHR 0x00])"
  obtain p w r where b: "b = p @ w @ r" "t = (length (w @ r), length r)" "\<forall>x \<in> set w. wordch x" "r = [] \<or> \<not> wordch (hd r)"
    by (rule toks_okE [OF c(1) t])
  have n: "?m ! i = (if \<exists>t \<in> set_cmd c. i = length b - snd t then CHR 0x00 else (b @ [CHR 0x00]) ! i)" if "i < Suc (length b)" for i
    using nulterminate_nth [of i "b @ [CHR 0x00]"] that by simp
  have w: "?m ! (length p + k) = w ! k" if k: "k < length w" for k
  proof -
    have "length p + k \<noteq> length b - snd u" if u: "u \<in> set_cmd c" for u
    proof
      assume eq: "length p + k = length b - snd u"
      obtain p' w' r' where b': "b = p' @ w' @ r'" "u = (length (w' @ r'), length r')" "\<forall>x \<in> set w'. wordch x" "r' = [] \<or> \<not> wordch (hd r')"
        by (rule toks_okE [OF c(1) u])
      have "length b = length (p' @ w') + length r'" using b'(1) by simp
      then have len: "length p + k = length (p' @ w')" using eq b'(2) by simp
      have lt: "length p + k < length b" using b(1) k by simp
      have "b ! (length p + k) = w ! k" using b(1) k by (simp add: nth_append)
      moreover have "r' \<noteq> []" using len lt b'(1) by auto
      then have "b ! (length p + k) = hd r'" unfolding len b'(1) by (simp add: nth_append hd_conv_nth)
      moreover have "w ! k \<in> set w" using k by simp
      ultimately show False using b(3) b'(4) \<open>r' \<noteq> []\<close> by metis
    qed
    then show ?thesis using n [of "length p + k"] k b(1) by (auto simp: nth_append)
  qed
  have end0: "?m ! (length p + length w) = CHR 0x00"
    using n [of "length p + length w"] t b by (auto intro: bexI [of _ t])
  have "take (length w) (drop (length p) ?m) = w"
    using w b(1) by (intro nth_equalityI) simp_all
  then have d: "drop (length p) ?m = w @ drop (length p + length w) ?m"
    using append_take_drop_id [of "length w" "drop (length p) ?m"] by (simp add: add.commute)
  have e: "drop (length p + length w) ?m = CHR 0x00 # drop (Suc (length p + length w)) ?m"
    using end0 b(1) by (subst Cons_nth_drop_Suc [symmetric]) simp_all
  have "\<And>x. x \<in> set w \<Longrightarrow> x \<noteq> CHR 0x00" using c(2) b(1) by auto
  then have "cstring ?m (length p) = w"
    unfolding cstring_def d e by (subst takeWhile_append2) auto
  then show ?thesis using b tok_text_split [of p w r] by simp
qed

lemma parsecmd_text:
  assumes "CHR 0x00 \<notin> set b" "parseline (4 * length b + 4) b = Done c r" "skip r = []"
  shows "\<exists>m. parsecmd b = Done (map_cmd (tok_text b) c) m"
proof -
  have "tok_parser b (parseline (4 * length b + 4))" using tok_parser_all by blast
  from tok_parserD [OF this, of b c r] assms(2) have toks: "toks_ok b c" by simp
  have "map_cmd (\<lambda>t. cstring (nulterminate (length b) c (b @ [CHR 0x00])) (length b - fst t)) c = map_cmd (tok_text b) c"
    by (rule cmd.map_cong [OF refl]) (rule cstring_token [OF toks assms(1)])
  then show ?thesis using assms(2,3) by (simp add: parsecmd_def Let_def)
qed

section \<open>Printing commands\<close>

text \<open>A command as a line of text: at level 3 it stands between bars, at level 2 it may be a pipeline, at level 1 end
  with an ampersand, at level 0 be a list; a command that does not fit its level is put in parentheses.\<close>

definition paren :: "bool \<Rightarrow> string \<Rightarrow> string" where
  "paren p s = (if p then ''('' @ s @ '')'' else s)"

definition words :: "string list \<Rightarrow> string" where
  "words ws = concat (map (\<lambda>w. w @ '' '') ws)"

definition redir :: "string \<times> int \<times> int \<Rightarrow> string" where
  "redir x = (case x of (f, m, fd) \<Rightarrow> (if fd = 0 then CHR ''<'' else CHR ''>'') # f @ '' '')"

fun show_cmd :: "nat \<Rightarrow> string cmd \<Rightarrow> string" where
  "show_cmd k (EXEC ws) = words ws"
| "show_cmd k (REDIR c f m fd) = show_cmd 3 c @ redir (f, m, fd)"
| "show_cmd k (PIPE l r) = paren (2 < k) (show_cmd 3 l @ ''|'' @ show_cmd 2 r)"
| "show_cmd k (BACK c) = paren (1 < k) (show_cmd 1 c @ ''&'')"
| "show_cmd k (LIST l r) = paren (0 < k) (show_cmd 1 l @ '';'' @ show_cmd 0 r)"

definition is_word :: "string \<Rightarrow> bool" where
  "is_word w \<longleftrightarrow> w \<noteq> [] \<and> (\<forall>c \<in> set w. wordch c \<and> c \<noteq> CHR 0x00)"

definition redir_ok :: "string \<times> int \<times> int \<Rightarrow> bool" where
  "redir_ok x = (case x of (f, m, fd) \<Rightarrow> is_word f \<and> (m, fd) \<in> {(O_RDONLY, 0), (O_WRCREATE, 1)})"

text \<open>The commands that can be written: at most nine words, and the two kinds of redirection.\<close>

fun can_write :: "string cmd \<Rightarrow> bool" where
  "can_write (EXEC ws) \<longleftrightarrow> length ws < MAXARGS \<and> list_all is_word ws"
| "can_write (REDIR c f m fd) \<longleftrightarrow> can_write c \<and> redir_ok (f, m, fd)"
| "can_write (PIPE l r) \<longleftrightarrow> can_write l \<and> can_write r"
| "can_write (BACK c) \<longleftrightarrow> can_write c"
| "can_write (LIST l r) \<longleftrightarrow> can_write l \<and> can_write r"

section \<open>Reading them back\<close>

definition starts :: "string \<Rightarrow> string \<Rightarrow> bool" where
  "starts cs r \<longleftrightarrow> r = [] \<or> hd r \<in> set cs"

lemma wordch_not: "wordch c \<Longrightarrow> \<not> white c" "wordch c \<Longrightarrow> c \<notin> set ''<|>&;()''"
  by (simp_all add: wordch_def white_def symbols_def)

lemma symbol_not_white: "c \<in> set ''<|>&;()'' \<Longrightarrow> \<not> white c"
  by (auto simp: white_def whitespace_def)

lemma skip_starts: "starts cs r \<Longrightarrow> set cs \<subseteq> set ''<|>&;()'' \<Longrightarrow> skip r = r"
  by (cases r) (auto simp: starts_def skip_def symbol_not_white)

lemma skip_word: "is_word w \<Longrightarrow> skip (w @ r) = w @ r"
  by (cases w) (auto simp: is_word_def skip_def wordch_not)

lemma skip_symbol: "c \<in> set ''<|>&;()'' \<Longrightarrow> skip (c # r) = c # r"
  using symbol_not_white [of c] by (simp add: skip_def)

lemma gettoken_symbol: "c \<in> set ''|();&<'' \<Longrightarrow> gettoken (c # r) = (c, (Suc (length r), length r), skip r)"
  by (auto simp: gettoken_def Let_def skip_symbol)

lemma gettoken_gt: "r \<noteq> [] \<Longrightarrow> hd r \<noteq> CHR ''>'' \<Longrightarrow> gettoken (CHR ''>'' # r) = (CHR ''>'', (Suc (length r), length r), skip r)"
  by (auto simp: gettoken_def Let_def skip_symbol)

lemma skip_space: "skip (CHR '' '' # r) = skip r"
  by (simp add: skip_def white_def whitespace_def)

lemma gettoken_word:
  assumes "is_word w"
  shows "gettoken (w @ CHR '' '' # r) = (CHR ''a'', (length w + Suc (length r), Suc (length r)), skip r)"
proof -
  obtain c s where w: "w = c # s" using assms by (cases w) (auto simp: is_word_def)
  have c: "wordch c" "\<forall>x \<in> set s. wordch x" using assms w by (auto simp: is_word_def)
  have "\<not> wordch (CHR '' '')" by (simp add: wordch_def whitespace_def)
  then have d: "dropWhile wordch (w @ CHR '' '' # r) = CHR '' '' # r"
    using c w by (simp add: dropWhile_append)
  show ?thesis
    using d c(1) wordch_not(2) [OF c(1)] skip_word [OF assms, of "CHR '' '' # r"] w
    by (auto simp: gettoken_def Let_def skip_space)
qed

text \<open>The redirections of a command.\<close>

fun wraps :: "('t \<times> int \<times> int) list \<Rightarrow> 't cmd \<Rightarrow> 't cmd" where
  "wraps [] c = c"
| "wraps ((f, m, fd) # rs) c = wraps rs (REDIR c f m fd)"

definition redirs :: "(string \<times> int \<times> int) list \<Rightarrow> string" where
  "redirs rs = concat (map redir rs)"

abbreviation texts :: "string \<Rightarrow> token cmd \<Rightarrow> string cmd" where
  "texts b c \<equiv> map_cmd (tok_text b) c"

lemma redirs_starts: "starts cs r \<Longrightarrow> starts (''<>'' @ cs) (redirs rs @ r)"
  by (cases rs) (auto simp: redirs_def redir_def starts_def split: prod.splits)

lemma parseredirs_none: "starts cs r \<Longrightarrow> set cs \<subseteq> set ''|&;()'' \<Longrightarrow> parseredirs c r = Done c r"
proof -
  assume *: "starts cs r" "set cs \<subseteq> set ''|&;()''"
  have "set ''|&;()'' \<subseteq> set ''<|>&;()''" "set ''|&;()'' \<inter> set ''<>'' = {}" by simp_all
  then have "skip r = r" "\<not> (r \<noteq> [] \<and> hd r \<in> set ''<>'')" using * skip_starts [of cs r] unfolding starts_def by blast+
  then show ?thesis by (subst parseredirs.simps) (simp add: Let_def)
qed

lemma parseredirs_word: "is_word w \<Longrightarrow> parseredirs c (w @ r) = Done c (w @ r)"
proof -
  assume w: "is_word w"
  then have "\<not> (w @ r \<noteq> [] \<and> hd (w @ r) \<in> set ''<>'')" by (cases w) (auto simp: is_word_def wordch_def symbols_def)
  then show ?thesis using skip_word [OF w, of r] by (subst parseredirs.simps) (simp add: Let_def)
qed

lemma parseredirs_redirs:
  assumes "list_all redir_ok rs" "starts ''|)&;'' r"
  shows "\<exists>c'. parseredirs c (redirs rs @ r) = Done c' r \<and> texts (p @ redirs rs @ r) c' = wraps rs (texts (p @ redirs rs @ r) c)"
  using assms(1)
proof (induction rs arbitrary: c p)
  case Nil
  then show ?case using parseredirs_none [OF assms(2)] by (simp add: redirs_def)
next
  case (Cons x rs)
  obtain f m fd where x: "x = (f, m, fd)" by (cases x)
  have f: "is_word f" "(m, fd) \<in> {(O_RDONLY, 0), (O_WRCREATE, 1)}" using Cons.prems x by (auto simp: redir_ok_def)
  let ?rest = "redirs rs @ r" and ?c = "if fd = 0 then CHR ''<'' else CHR ''>''"
  have s: "redirs (x # rs) @ r = ?c # f @ CHR '' '' # ?rest" using x by (simp add: redirs_def redir_def)
  have rest: "skip ?rest = ?rest" using skip_starts [OF redirs_starts [OF assms(2)]] by simp
  have hf: "f \<noteq> []" "hd f \<noteq> CHR ''>''" using f(1) by (cases f; auto simp: is_word_def wordch_def symbols_def)+
  define t where "t = (length f + Suc (length ?rest), Suc (length ?rest))"
  let ?b = "p @ redirs (x # rs) @ r"
  have tt: "tok_text ?b t = f"
    using tok_text_split [of "p @ [?c]" f "CHR '' '' # ?rest"] unfolding s t_def by simp
  have g1: "gettoken (?c # f @ CHR '' '' # ?rest) = (?c, (Suc (length (f @ CHR '' '' # ?rest)), length (f @ CHR '' '' # ?rest)), f @ CHR '' '' # ?rest)"
    using f(2) hf gettoken_symbol [of "CHR ''<''"] gettoken_gt [of "f @ CHR '' '' # ?rest"] skip_word [OF f(1), of "CHR '' '' # ?rest"] by auto
  have g2: "gettoken (f @ CHR '' '' # ?rest) = (CHR ''a'', t, ?rest)" using gettoken_word [OF f(1)] rest by (simp add: t_def)
  have "parseredirs c (redirs (x # rs) @ r) = parseredirs (REDIR c t m fd) ?rest"
    unfolding s using f(2) g1 g2 skip_symbol [of ?c] by (subst parseredirs.simps) (auto simp: Let_def)
  moreover have b: "(p @ ?c # f @ '' '') @ ?rest = ?b" unfolding s by simp
  obtain c' where "parseredirs (REDIR c t m fd) ?rest = Done c' r" "texts ?b c' = wraps rs (texts ?b (REDIR c t m fd))"
    using Cons.IH [of "REDIR c t m fd" "p @ ?c # f @ '' ''", unfolded b] Cons.prems by auto
  ultimately show ?case using tt x by (intro exI [of _ c']) simp
qed

lemma parse_args_none: "starts ''|)&;'' r \<Longrightarrow> parse_args n c r = Done c r"
proof -
  assume r: "starts ''|)&;'' r"
  have "set ''|)&;'' \<subseteq> set ''<|>&;()''" by simp
  then have "skip r = r" using skip_starts [OF r] by blast
  then show ?thesis
    using r by (subst parse_args.simps, cases "r = []") (simp_all add: Let_def starts_def gettoken_def)
qed

lemma parse_args_word:
  assumes "is_word w" "n + 1 < MAXARGS"
  shows "parse_args n c (w @ CHR '' '' # r) =
    obind (parseredirs (add_arg (length w + Suc (length r), Suc (length r)) c) (skip r)) (\<lambda>c r. parse_args (n + 1) c r)"
proof -
  have "hd (w @ CHR '' '' # r) \<notin> set ''|)&;''" using assms(1) by (cases w) (auto simp: is_word_def wordch_def symbols_def)
  then show ?thesis
    using assms skip_word [OF assms(1), of "CHR '' '' # r"] gettoken_word [OF assms(1), of r]
    by (subst parse_args.simps) (simp add: Let_def)
qed

lemma words_Cons: "words (w # ws) @ r = w @ CHR '' '' # words ws @ r"
  by (simp add: words_def)

lemma parse_args_words:
  assumes "list_all is_word ws" "n + length ws < MAXARGS" "list_all redir_ok rs" "starts ''|)&;'' r" "ws = [] \<Longrightarrow> rs = []"
  shows "\<exists>c'. parse_args n (EXEC ts) (words ws @ redirs rs @ r) = Done c' r \<and>
     texts (p @ words ws @ redirs rs @ r) c' = wraps rs (EXEC (map (tok_text (p @ words ws @ redirs rs @ r)) ts @ ws))"
  using assms(1,2,5)
proof (induction ws arbitrary: n ts p)
  case Nil
  then show ?case using parse_args_none [OF assms(4)] by (simp add: words_def redirs_def)
next
  case (Cons w ws)
  let ?rest = "words ws @ redirs rs @ r"
  let ?b = "p @ words (w # ws) @ redirs rs @ r" and ?t = "(length w + Suc (length ?rest), Suc (length ?rest))"
  have w: "is_word w" "n + 1 < MAXARGS" using Cons.prems by simp_all
  have b: "(p @ w @ '' '') @ ?rest = ?b" by (simp add: words_def)
  have tt: "tok_text ?b ?t = w" using tok_text_split [of p w "CHR '' '' # ?rest"] by (simp add: words_def)
  have step: "parse_args n (EXEC ts) (words (w # ws) @ redirs rs @ r) =
      obind (parseredirs (EXEC (ts @ [?t])) (skip ?rest)) (\<lambda>c r. parse_args (n + 1) c r)"
    unfolding words_Cons using parse_args_word [OF w, of "EXEC ts" ?rest] by simp
  show ?case
  proof (cases ws)
    case Nil
    have "set (''<>'' @ ''|)&;'') \<subseteq> set ''<|>&;()''" by simp
    then have "skip ?rest = redirs rs @ r" using Nil skip_starts [OF redirs_starts [OF assms(4), of rs]] by (simp add: words_def)
    moreover obtain c' where "parseredirs (EXEC (ts @ [?t])) (redirs rs @ r) = Done c' r"
        "texts ?b c' = wraps rs (texts ?b (EXEC (ts @ [?t])))"
      using parseredirs_redirs [OF assms(3,4), of "EXEC (ts @ [?t])" "p @ w @ '' ''"] b Nil by (auto simp: words_def)
    ultimately show ?thesis using step parse_args_none [OF assms(4)] tt Nil by (intro exI [of _ c']) simp
  next
    case (Cons w' ws')
    then have w': "is_word w'" using Cons.prems by simp
    have "parseredirs (EXEC (ts @ [?t])) (skip ?rest) = Done (EXEC (ts @ [?t])) ?rest"
      using skip_word [OF w'] parseredirs_word [OF w'] unfolding Cons words_Cons by simp
    moreover obtain c' where "parse_args (n + 1) (EXEC (ts @ [?t])) ?rest = Done c' r"
        "texts ?b c' = wraps rs (EXEC (map (tok_text ?b) (ts @ [?t]) @ ws))"
      using Cons.IH [of "n + 1" "ts @ [?t]" "p @ w @ '' ''", unfolded b] Cons.prems Cons by auto
    ultimately show ?thesis using step tt by (intro exI [of _ c']) simp
  qed
qed

text \<open>A parser that needs no more fuel gives the same result with more.\<close>

definition extends :: "('b, 's) kop \<Rightarrow> ('b, 's) kop \<Rightarrow> bool" where
  "extends p q \<longleftrightarrow> (\<forall>r. p r \<noteq> Spin \<longrightarrow> q r = p r)"

lemma extendsD: "extends p q \<Longrightarrow> p r = x \<Longrightarrow> x \<noteq> Spin \<Longrightarrow> q r = x"
  by (auto simp: extends_def)

lemma extends_refl [simp]: "extends p p"
  by (simp add: extends_def)

lemma extends_kspin [simp]: "extends kspin q"
  by (simp add: extends_def kspin_def)

lemma extends_kbind:
  assumes "extends p q" "\<And>c. extends (f c) (g c)"
  shows "extends (kbind p f) (kbind q g)"
  unfolding extends_def
proof (intro allI impI)
  fix r assume "kbind p f r \<noteq> Spin"
  moreover from this have "p r \<noteq> Spin" by (auto simp: kbind_def)
  ultimately show "kbind q g r = kbind p f r"
    using assms unfolding extends_def by (cases "p r") (auto simp: kbind_def)
qed

lemma extends_if: "extends p q \<Longrightarrow> extends p' q' \<Longrightarrow> extends (if b then p else p') (if b then q else q')"
  by simp

lemma extends_kseq: "extends p q \<Longrightarrow> extends p' q' \<Longrightarrow> extends (kseq p p') (kseq q q')"
  unfolding kseq_def by (rule extends_kbind)

lemma parse_extends:
  "extends (parseline n) (parseline (Suc n)) \<and> extends (parsepipe n) (parsepipe (Suc n)) \<and>
   extends (parseexec n) (parseexec (Suc n)) \<and> extends (parseblock n) (parseblock (Suc n))"
proof (induction n)
  case (Suc n)
  then show ?case
    unfolding parseline.simps(2) [of "Suc n"] parsepipe.simps(2) [of "Suc n"] parseexec.simps(2) [of "Suc n"] parseblock.simps(2) [of "Suc n"]
    unfolding parseline.simps(2) [of n] parsepipe.simps(2) [of n] parseexec.simps(2) [of n] parseblock.simps(2) [of n]
    by (intro conjI extends_kbind extends_if extends_kseq extends_refl) blast+
qed (simp only: parseline.simps(1) parsepipe.simps(1) parseexec.simps(1) parseblock.simps(1) extends_kspin simp_thms)

text \<open>A parser reads a command back from its text, with enough fuel and before a token that ends it.\<close>

definition reads_back :: "(nat \<Rightarrow> (token cmd, string) kop) \<Rightarrow> nat \<Rightarrow> string \<Rightarrow> string cmd \<Rightarrow> bool" where
  "reads_back f k stops c \<longleftrightarrow> (\<exists>N. \<forall>n \<ge> N. \<forall>p r. starts stops r \<longrightarrow>
     (\<exists>c'. f n (show_cmd k c @ r) = Done c' r \<and> texts (p @ show_cmd k c @ r) c' = c))"

lemma reads_backE:
  assumes "reads_back f k stops c"
  obtains N where "\<forall>n \<ge> N. \<forall>p r. starts stops r \<longrightarrow> (\<exists>c'. f n (show_cmd k c @ r) = Done c' r \<and> texts (p @ show_cmd k c @ r) c' = c)"
  using assms unfolding reads_back_def by (rule exE)

lemma reads_backI:
  assumes "\<And>n p r. n \<ge> N \<Longrightarrow> starts stops r \<Longrightarrow> \<exists>c'. f n (show_cmd k c @ r) = Done c' r \<and> texts (p @ show_cmd k c @ r) c' = c"
  shows "reads_back f k stops c"
  unfolding reads_back_def by (intro exI [of _ N] allI impI assms)

text \<open>The part of \<open>parseline\<close> after the first pipeline.\<close>

definition line_tail :: "nat \<Rightarrow> token cmd \<Rightarrow> (token cmd, string) kop" where
  "line_tail n c =
     kbind (parse_backs c) (\<lambda>c.
     kbind (peek '';'') (\<lambda>p. if p then kseq token (kbind (parseline n) (\<lambda>d. kret (LIST c d))) else kret c))"

definition reads_line :: "string cmd \<Rightarrow> bool" where
  "reads_line c \<longleftrightarrow> (\<exists>N. \<forall>n \<ge> N. \<forall>p r. starts '')&;'' r \<longrightarrow>
     (\<exists>c'. parseline (Suc n) (show_cmd 1 c @ r) = line_tail n c' r \<and> texts (p @ show_cmd 1 c @ r) c' = c))"

lemma reads_lineE:
  assumes "reads_line c"
  obtains N where "\<forall>n \<ge> N. \<forall>p r. starts '')&;'' r \<longrightarrow>
    (\<exists>c'. parseline (Suc n) (show_cmd 1 c @ r) = line_tail n c' r \<and> texts (p @ show_cmd 1 c @ r) c' = c)"
  using assms unfolding reads_line_def by (rule exE)

lemma reads_lineI:
  assumes "\<And>n p r. n \<ge> N \<Longrightarrow> starts '')&;'' r \<Longrightarrow>
    \<exists>c'. parseline (Suc n) (show_cmd 1 c @ r) = line_tail n c' r \<and> texts (p @ show_cmd 1 c @ r) c' = c"
  shows "reads_line c"
  unfolding reads_line_def by (intro exI [of _ N] allI impI assms)

lemma starts_mono: "starts cs r \<Longrightarrow> set cs \<subseteq> set ds \<Longrightarrow> starts ds r"
  by (auto simp: starts_def)

lemma starts_Cons [simp]: "starts cs (c # r) \<longleftrightarrow> c \<in> set cs"
  by (simp add: starts_def)

lemma peek_starts:
  assumes "starts cs r" "set cs \<subseteq> set ''<|>&;()''" "set cs \<inter> set toks = {}"
  shows "peek toks r = Done False r"
  using assms skip_starts [of cs r] by (auto simp: peek_def Let_def starts_def)

lemma peek_symbol: "c \<in> set ''<|>&;()'' \<Longrightarrow> peek toks (c # r) = Done (c \<in> set toks) (c # r)"
  using skip_symbol [of c r] by (simp add: peek_def Let_def)

lemma token_symbol: "c \<in> set ''|();&<'' \<Longrightarrow> skip r = r \<Longrightarrow> \<exists>t. token (c # r) = Done (c, t) r"
  using gettoken_symbol [of c r] by (simp add: token_def)

lemma show_no_white:
  assumes "can_write c" "starts cs r" "set cs \<subseteq> set ''<|>&;()''"
  shows "skip (show_cmd k c @ r) = show_cmd k c @ r"
proof -
  have "show_cmd k c = [] \<or> \<not> white (hd (show_cmd k c))" using assms(1)
  proof (induction k c rule: show_cmd.induct)
    case (1 k ws)
    then show ?case by (cases ws) (auto simp: words_def is_word_def wordch_not neq_Nil_conv)
  qed (auto simp: redir_def redir_ok_def paren_def symbol_not_white hd_append)
  then show ?thesis
    using skip_starts [OF assms(2,3)] by (cases "show_cmd k c") (auto simp: skip_def)
qed

lemma exec_words:
  assumes "length ws < MAXARGS" "list_all is_word ws" "list_all redir_ok rs" "starts ''|)&;'' r"
  shows "\<exists>c'. parseexec (Suc n) (words ws @ redirs rs @ r) = Done c' r \<and>
     texts (p @ words ws @ redirs rs @ r) c' = wraps rs (EXEC ws)"
proof -
  let ?s = "words ws @ redirs rs @ r"
  have sub: "set (''<>'' @ ''|)&;'') \<subseteq> set ''<|>&;()''" "set (''<>'' @ ''|)&;'') \<inter> set ''('' = {}" by simp_all
  show ?thesis
  proof (cases ws)
    case Nil
    have s: "starts (''<>'' @ ''|)&;'') ?s" using redirs_starts [OF assms(4)] Nil by (simp add: words_def)
    obtain c' where "parseredirs (EXEC []) ?s = Done c' r" "texts (p @ ?s) c' = wraps rs (EXEC [])"
      using parseredirs_redirs [OF assms(3,4), of "EXEC []" p] Nil by (auto simp: words_def)
    then show ?thesis
      using peek_starts [OF s sub] parse_args_none [OF assms(4)] Nil by (intro exI [of _ c']) (simp add: kbind_def)
  next
    case (Cons w ws')
    then have w: "is_word w" and s: "?s = w @ CHR '' '' # words ws' @ redirs rs @ r" using assms(2) by (simp_all add: words_def)
    have "peek ''('' ?s = Done False ?s"
      using w skip_word [OF w] unfolding s by (cases w) (auto simp: peek_def Let_def is_word_def wordch_def symbols_def)
    moreover obtain c' where "parse_args 0 (EXEC []) ?s = Done c' r" "texts (p @ ?s) c' = wraps rs (EXEC ws)"
      using parse_args_words [OF assms(2) _ assms(3,4), of 0 "[]" p] assms(1) Cons by auto
    ultimately show ?thesis
      using parseredirs_word [OF w] s by (intro exI [of _ c']) (simp add: kbind_def)
  qed
qed

lemma show_wraps: "show_cmd 3 (wraps rs c) = show_cmd 3 c @ redirs rs"
  by (induction rs c rule: wraps.induct) (simp_all add: redirs_def)

lemma exec_block:
  assumes "reads_back parseline 0 '')'' c" "show_cmd 3 c = ''('' @ show_cmd 0 c @ '')''" "can_write c" "list_all redir_ok rs"
  shows "reads_back parseexec 3 ''|)&;'' (wraps rs c)"
proof -
  obtain N where N: "\<forall>n \<ge> N. \<forall>p r. starts '')'' r \<longrightarrow>
      (\<exists>c'. parseline n (show_cmd 0 c @ r) = Done c' r \<and> texts (p @ show_cmd 0 c @ r) c' = c)"
    by (rule reads_backE [OF assms(1)])
  have "\<exists>c'. parseexec n (show_cmd 3 (wraps rs c) @ r) = Done c' r \<and> texts (p @ show_cmd 3 (wraps rs c) @ r) c' = wraps rs c"
    if n: "n \<ge> Suc (Suc N)" and r: "starts ''|)&;'' r" for n p r
  proof -
    obtain m where m: "n = Suc (Suc m)" "m \<ge> N" using n by (metis Suc_le_D Suc_le_mono)
    let ?q = "redirs rs @ r" and ?c = "CHR '')'' # redirs rs @ r"
    have s: "show_cmd 3 (wraps rs c) @ r = CHR ''('' # show_cmd 0 c @ ?c" using assms(2) show_wraps by simp
    have skip1: "skip (show_cmd 0 c @ ?c) = show_cmd 0 c @ ?c" using show_no_white [OF assms(3), of "'')''" ?c 0] by simp
    have sub: "set (''<>'' @ ''|)&;'') \<subseteq> set ''<|>&;()''" by simp
    have skip2: "skip ?q = ?q" using skip_starts [OF redirs_starts [OF r] sub] .
    obtain c1 where c1: "parseline m (show_cmd 0 c @ ?c) = Done c1 ?c" "texts ((p @ ''('') @ show_cmd 0 c @ ?c) c1 = c"
      using N [rule_format, OF m(2), of ?c "p @ ''(''"] by auto
    obtain t1 where t1: "token (CHR ''('' # show_cmd 0 c @ ?c) = Done (CHR ''('', t1) (show_cmd 0 c @ ?c)"
      using token_symbol [of "CHR ''(''", OF _ skip1] by auto
    obtain t2 where t2: "token ?c = Done (CHR '')'', t2) ?q" using token_symbol [of "CHR '')''", OF _ skip2] by auto
    let ?p = "p @ CHR ''('' # show_cmd 0 c @ '')''"
    obtain c' where c': "parseredirs c1 ?q = Done c' r" "texts (?p @ ?q) c' = wraps rs (texts (?p @ ?q) c1)"
      using parseredirs_redirs [OF assms(4) r] by blast
    have b: "?p @ ?q = p @ show_cmd 3 (wraps rs c) @ r" "(p @ ''('') @ show_cmd 0 c @ ?c = p @ show_cmd 3 (wraps rs c) @ r"
      unfolding s by simp_all
    have "parseexec n (show_cmd 3 (wraps rs c) @ r) = Done c' r"
      unfolding m s using c1(1) t1 t2 c'(1) by (simp add: peek_symbol kbind_def kseq_def)
    then show ?thesis using c'(2) c1(2) unfolding b by auto
  qed
  then show ?thesis by (rule reads_backI)
qed

lemma pipe_from_exec:
  assumes "reads_back parseexec 3 ''|)&;'' c" "show_cmd 2 c = show_cmd 3 c"
  shows "reads_back parsepipe 2 '')&;'' c"
proof -
  obtain N where N: "\<forall>n \<ge> N. \<forall>p r. starts ''|)&;'' r \<longrightarrow>
      (\<exists>c'. parseexec n (show_cmd 3 c @ r) = Done c' r \<and> texts (p @ show_cmd 3 c @ r) c' = c)"
    by (rule reads_backE [OF assms(1)])
  have "\<exists>c'. parsepipe n (show_cmd 2 c @ r) = Done c' r \<and> texts (p @ show_cmd 2 c @ r) c' = c"
    if n: "n \<ge> Suc N" and r: "starts '')&;'' r" for n p r
  proof -
    obtain m where m: "n = Suc m" "m \<ge> N" using n by (cases n) auto
    have "starts ''|)&;'' r" using r by (rule starts_mono) simp
    then obtain c' where "parseexec m (show_cmd 3 c @ r) = Done c' r" "texts (p @ show_cmd 3 c @ r) c' = c" using N [THEN spec, THEN mp, OF m(2), THEN spec, THEN spec, THEN mp] by blast
    moreover have "peek ''|'' r = Done False r" using r by (rule peek_starts) simp_all
    ultimately show ?thesis unfolding m assms(2) by (simp add: kbind_def kret_def)
  qed
  then show ?thesis by (rule reads_backI)
qed

lemma line_from_pipe:
  assumes "reads_back parsepipe 2 '')&;'' c" "show_cmd 1 c = show_cmd 2 c"
  shows "reads_line c"
proof -
  obtain N where N: "\<forall>n \<ge> N. \<forall>p r. starts '')&;'' r \<longrightarrow>
      (\<exists>c'. parsepipe n (show_cmd 2 c @ r) = Done c' r \<and> texts (p @ show_cmd 2 c @ r) c' = c)"
    by (rule reads_backE [OF assms(1)])
  have "\<exists>c'. parseline (Suc n) (show_cmd 1 c @ r) = line_tail n c' r \<and> texts (p @ show_cmd 1 c @ r) c' = c"
    if n: "n \<ge> N" and r: "starts '')&;'' r" for n p r
  proof -
    obtain c' where "parsepipe n (show_cmd 2 c @ r) = Done c' r" "texts (p @ show_cmd 2 c @ r) c' = c" using N [rule_format, OF n r] by blast
    then show ?thesis unfolding assms(2) line_tail_def by (auto simp: kbind_def)
  qed
  then show ?thesis by (rule reads_lineI)
qed

lemma backs_none: "starts '');'' r \<Longrightarrow> parse_backs c r = Done c r"
proof -
  assume r: "starts '');'' r"
  then have "skip r = r" by (rule skip_starts) simp
  then show ?thesis using r by (subst parse_backs.simps) (auto simp: Let_def starts_def)
qed

lemma line_from_tail:
  assumes "reads_line c" "show_cmd 0 c = show_cmd 1 c"
  shows "reads_back parseline 0 '')'' c"
proof -
  obtain N where N: "\<forall>n \<ge> N. \<forall>p r. starts '')&;'' r \<longrightarrow>
      (\<exists>c'. parseline (Suc n) (show_cmd 1 c @ r) = line_tail n c' r \<and> texts (p @ show_cmd 1 c @ r) c' = c)"
    by (rule reads_lineE [OF assms(1)])
  have "\<exists>c'. parseline n (show_cmd 0 c @ r) = Done c' r \<and> texts (p @ show_cmd 0 c @ r) c' = c"
    if n: "n \<ge> Suc N" and r: "starts '')'' r" for n p r
  proof -
    obtain m where m: "n = Suc m" "m \<ge> N" using n by (cases n) auto
    have "starts '')&;'' r" "starts '');'' r" using r by (auto intro: starts_mono)
    then obtain c' where c': "parseline (Suc m) (show_cmd 1 c @ r) = line_tail m c' r" "texts (p @ show_cmd 1 c @ r) c' = c"
      using N [THEN spec, THEN mp, OF m(2), THEN spec, THEN spec, THEN mp] by blast
    have "peek '';'' r = Done False r" using r by (rule peek_starts) simp_all
    then have "line_tail m c' r = Done c' r"
      using backs_none [OF \<open>starts '');'' r\<close>] by (simp add: line_tail_def kbind_def kret_def)
    then show ?thesis using c' unfolding m assms(2) by auto
  qed
  then show ?thesis by (rule reads_backI)
qed

lemma pipe_of_pipe:
  assumes l: "reads_back parseexec 3 ''|)&;'' l" and r: "reads_back parsepipe 2 '')&;'' r" and w: "can_write r"
  shows "reads_back parsepipe 2 '')&;'' (PIPE l r)"
proof -
  obtain N where N: "\<forall>n \<ge> N. \<forall>p q. starts ''|)&;'' q \<longrightarrow>
      (\<exists>c'. parseexec n (show_cmd 3 l @ q) = Done c' q \<and> texts (p @ show_cmd 3 l @ q) c' = l)"
    by (rule reads_backE [OF l])
  obtain M where M: "\<forall>n \<ge> M. \<forall>p q. starts '')&;'' q \<longrightarrow>
      (\<exists>c'. parsepipe n (show_cmd 2 r @ q) = Done c' q \<and> texts (p @ show_cmd 2 r @ q) c' = r)"
    by (rule reads_backE [OF r])
  have "\<exists>c'. parsepipe n (show_cmd 2 (PIPE l r) @ q) = Done c' q \<and> texts (p @ show_cmd 2 (PIPE l r) @ q) c' = PIPE l r"
    if n: "n \<ge> Suc (max N M)" and q: "starts '')&;'' q" for n p q
  proof -
    obtain m where m: "n = Suc m" "m \<ge> N" "m \<ge> M" using n by (cases n) auto
    let ?q = "show_cmd 2 r @ q" and ?b = "p @ show_cmd 2 (PIPE l r) @ q"
    have s: "show_cmd 2 (PIPE l r) @ q = show_cmd 3 l @ CHR ''|'' # ?q" by (simp add: paren_def)
    have skip: "skip ?q = ?q" using show_no_white [OF w q] by simp
    obtain c1 where c1: "parseexec m (show_cmd 3 l @ CHR ''|'' # ?q) = Done c1 (CHR ''|'' # ?q)" "texts ?b c1 = l"
      using N [rule_format, OF m(2), of "CHR ''|'' # ?q" p] unfolding s by auto
    obtain t where t: "token (CHR ''|'' # ?q) = Done (CHR ''|'', t) ?q" using token_symbol [of "CHR ''|''", OF _ skip] by auto
    have b: "(p @ show_cmd 3 l @ ''|'') @ ?q = ?b" unfolding s by simp
    obtain c2 where c2: "parsepipe m ?q = Done c2 q" "texts ?b c2 = r"
      using M [rule_format, OF m(3) q, of "p @ show_cmd 3 l @ ''|''"] unfolding b by auto
    have "parsepipe n (show_cmd 2 (PIPE l r) @ q) = Done (PIPE c1 c2) q"
      unfolding m s using c1(1) t c2(1) by (simp add: kbind_def kseq_def kret_def peek_symbol)
    then show ?thesis using c1(2) c2(2) by auto
  qed
  then show ?thesis by (rule reads_backI)
qed

lemma line_of_back:
  assumes "reads_line c"
  shows "reads_line (BACK c)"
proof -
  obtain N where N: "\<forall>n \<ge> N. \<forall>p q. starts '')&;'' q \<longrightarrow>
      (\<exists>c'. parseline (Suc n) (show_cmd 1 c @ q) = line_tail n c' q \<and> texts (p @ show_cmd 1 c @ q) c' = c)"
    by (rule reads_lineE [OF assms])
  have "\<exists>c'. parseline (Suc n) (show_cmd 1 (BACK c) @ q) = line_tail n c' q \<and> texts (p @ show_cmd 1 (BACK c) @ q) c' = BACK c"
    if n: "n \<ge> N" and q: "starts '')&;'' q" for n p q
  proof -
    have s: "show_cmd 1 (BACK c) @ q = show_cmd 1 c @ CHR ''&'' # q" by (simp add: paren_def)
    obtain c1 where c1: "parseline (Suc n) (show_cmd 1 c @ CHR ''&'' # q) = line_tail n c1 (CHR ''&'' # q)"
        "texts (p @ show_cmd 1 c @ CHR ''&'' # q) c1 = c"
      using N [rule_format, OF n, of "CHR ''&'' # q" p] by auto
    have "skip q = q" using q by (rule skip_starts) simp
    then have "parse_backs c1 (CHR ''&'' # q) = parse_backs (BACK c1) q"
      by (subst parse_backs.simps) (simp add: Let_def skip_symbol gettoken_symbol)
    then have "line_tail n c1 (CHR ''&'' # q) = line_tail n (BACK c1) q" by (simp add: line_tail_def kbind_def)
    then show ?thesis using c1 unfolding s by (intro exI [of _ "BACK c1"]) (simp del: parseline.simps)
  qed
  then show ?thesis by (rule reads_lineI)
qed

lemma line_of_list:
  assumes l: "reads_line l" and r: "reads_back parseline 0 '')'' r" and w: "can_write r"
  shows "reads_back parseline 0 '')'' (LIST l r)"
proof -
  obtain N where N: "\<forall>n \<ge> N. \<forall>p q. starts '')&;'' q \<longrightarrow>
      (\<exists>c'. parseline (Suc n) (show_cmd 1 l @ q) = line_tail n c' q \<and> texts (p @ show_cmd 1 l @ q) c' = l)"
    by (rule reads_lineE [OF l])
  obtain M where M: "\<forall>n \<ge> M. \<forall>p q. starts '')'' q \<longrightarrow>
      (\<exists>c'. parseline n (show_cmd 0 r @ q) = Done c' q \<and> texts (p @ show_cmd 0 r @ q) c' = r)"
    by (rule reads_backE [OF r])
  have "\<exists>c'. parseline n (show_cmd 0 (LIST l r) @ q) = Done c' q \<and> texts (p @ show_cmd 0 (LIST l r) @ q) c' = LIST l r"
    if n: "n \<ge> Suc (max N M)" and q: "starts '')'' q" for n p q
  proof -
    obtain m where m: "n = Suc m" "m \<ge> N" "m \<ge> M" using n by (cases n) auto
    let ?q = "show_cmd 0 r @ q" and ?b = "p @ show_cmd 0 (LIST l r) @ q"
    have s: "show_cmd 0 (LIST l r) @ q = show_cmd 1 l @ CHR '';'' # ?q" by (simp add: paren_def)
    have skip: "skip ?q = ?q" using show_no_white [OF w q] by simp
    obtain c1 where c1: "parseline (Suc m) (show_cmd 1 l @ CHR '';'' # ?q) = line_tail m c1 (CHR '';'' # ?q)" "texts ?b c1 = l"
      using N [rule_format, OF m(2), of "CHR '';'' # ?q" p] unfolding s by auto
    obtain t where t: "token (CHR '';'' # ?q) = Done (CHR '';'', t) ?q" using token_symbol [of "CHR '';''", OF _ skip] by auto
    have b: "(p @ show_cmd 1 l @ '';'') @ ?q = ?b" unfolding s by simp
    obtain c2 where c2: "parseline m ?q = Done c2 q" "texts ?b c2 = r"
      using M [rule_format, OF m(3) q, of "p @ show_cmd 1 l @ '';''"] unfolding b by auto
    have "line_tail m c1 (CHR '';'' # ?q) = Done (LIST c1 c2) q"
      using backs_none [of "CHR '';'' # ?q" c1] t c2(1) by (simp add: line_tail_def kbind_def kseq_def kret_def peek_symbol del: parseline.simps)
    then show ?thesis using c1 c2(2) unfolding m s by (intro exI [of _ "LIST c1 c2"]) (simp del: parseline.simps)
  qed
  then show ?thesis by (rule reads_backI)
qed

lemma read_all:
  assumes "can_write c"
  shows "(\<forall>rs. list_all redir_ok rs \<longrightarrow> reads_back parseexec 3 ''|)&;'' (wraps rs c)) \<and>
    reads_back parsepipe 2 '')&;'' c \<and> reads_line c \<and> reads_back parseline 0 '')'' c"
  using assms
proof (induction c)
  case (EXEC ws)
  have e: "reads_back parseexec 3 ''|)&;'' (wraps rs (EXEC ws))" if "list_all redir_ok rs" for rs
  proof (rule reads_backI [of 1])
    fix n :: nat and p r assume "1 \<le> n" "starts ''|)&;'' r"
    then show "\<exists>c'. parseexec n (show_cmd 3 (wraps rs (EXEC ws)) @ r) = Done c' r \<and>
        texts (p @ show_cmd 3 (wraps rs (EXEC ws)) @ r) c' = wraps rs (EXEC ws)"
      using exec_words [of ws rs r "n - 1" p] EXEC that by (simp add: show_wraps del: parseexec.simps)
  qed
  then have "reads_back parsepipe 2 '')&;'' (EXEC ws)" using e [of "[]"] by (intro pipe_from_exec) simp_all
  moreover from this have "reads_line (EXEC ws)" by (rule line_from_pipe) simp
  moreover from this have "reads_back parseline 0 '')'' (EXEC ws)" by (rule line_from_tail) simp
  ultimately show ?case using e by blast
next
  case (REDIR c f m fd)
  have e: "reads_back parseexec 3 ''|)&;'' (wraps rs (REDIR c f m fd))" if "list_all redir_ok rs" for rs
    using REDIR.IH [THEN conjunct1, THEN spec, of "(f, m, fd) # rs"] REDIR.prems that by simp
  then have "reads_back parsepipe 2 '')&;'' (REDIR c f m fd)" using e [of "[]"] by (intro pipe_from_exec) simp_all
  moreover from this have "reads_line (REDIR c f m fd)" by (rule line_from_pipe) simp
  moreover from this have "reads_back parseline 0 '')'' (REDIR c f m fd)" by (rule line_from_tail) simp
  ultimately show ?case using e by blast
next
  case (PIPE l r)
  have p: "reads_back parsepipe 2 '')&;'' (PIPE l r)"
    using PIPE.IH(1) [THEN conjunct1, THEN spec, of "[]"] PIPE by (intro pipe_of_pipe) auto
  then have l: "reads_line (PIPE l r)" by (rule line_from_pipe) (simp add: paren_def)
  then have z: "reads_back parseline 0 '')'' (PIPE l r)" by (rule line_from_tail) (simp add: paren_def)
  have "reads_back parseexec 3 ''|)&;'' (wraps rs (PIPE l r))" if "list_all redir_ok rs" for rs
    using z that PIPE.prems by (intro exec_block) (simp_all add: paren_def)
  then show ?case using p l z by blast
next
  case (LIST l r)
  have z: "reads_back parseline 0 '')'' (LIST l r)" using LIST by (intro line_of_list) auto
  have e: "reads_back parseexec 3 ''|)&;'' (wraps rs (LIST l r))" if "list_all redir_ok rs" for rs
    using z that LIST.prems by (intro exec_block) (simp_all add: paren_def)
  then have p: "reads_back parsepipe 2 '')&;'' (LIST l r)" using e [of "[]"] by (intro pipe_from_exec) (simp_all add: paren_def)
  then have "reads_line (LIST l r)" by (rule line_from_pipe) (simp add: paren_def)
  then show ?case using p e z by blast
next
  case (BACK c)
  have l: "reads_line (BACK c)" using BACK by (intro line_of_back) auto
  then have z: "reads_back parseline 0 '')'' (BACK c)" by (rule line_from_tail) (simp add: paren_def)
  have e: "reads_back parseexec 3 ''|)&;'' (wraps rs (BACK c))" if "list_all redir_ok rs" for rs
    using z that BACK.prems by (intro exec_block) (simp_all add: paren_def)
  then have "reads_back parsepipe 2 '')&;'' (BACK c)" using e [of "[]"] by (intro pipe_from_exec) (simp_all add: paren_def)
  then show ?case using l e z by blast
qed

lemma show_no_nul: "can_write c \<Longrightarrow> CHR 0x00 \<notin> set (show_cmd k c)"
proof (induction k c rule: show_cmd.induct)
  case (1 k ws)
  then show ?case by (auto simp: words_def is_word_def list_all_iff)
qed (auto simp: redir_def redir_ok_def paren_def is_word_def)

text \<open>C19. Parsing inverts printing. A command printed with the precedences of the shell, parentheses only where
  they are needed, is read back by \<open>parsecmd\<close> as the same command: redirections bind tightest, then bars,
  ampersands and semicolons, and every argument and file name is the terminated string of its word in the
  line.\<close>

theorem parsecmd_show:
  assumes "can_write c"
  shows "\<exists>m. parsecmd (show_cmd 0 c) = Done c m"
proof -
  let ?b = "show_cmd 0 c"
  have "reads_back parseline 0 '')'' c" using read_all [OF assms] by blast
  then obtain N where N: "\<forall>n \<ge> N. \<forall>p r. starts '')'' r \<longrightarrow>
      (\<exists>c'. parseline n (show_cmd 0 c @ r) = Done c' r \<and> texts (p @ show_cmd 0 c @ r) c' = c)"
    by (rule reads_backE)
  let ?n = "4 * length ?b + 4"
  obtain c' where c': "parseline (N + ?n) ?b = Done c' []" "texts ?b c' = c"
    using N [rule_format, of "N + ?n" "[]" "[]"] by (auto simp: starts_def)
  have "fine (length ?b) (parseline ?n ?b)" using parse_fine by blast
  then have "parseline ?n ?b \<noteq> Spin" by auto
  moreover have "extends (parseline ?n) (parseline (N + ?n))"
  proof (induction N)
    case (Suc N)
    have "extends (parseline (N + ?n)) (parseline (Suc N + ?n))" using parse_extends [of "N + ?n"] by (simp del: parseline.simps)
    with Suc show ?case unfolding extends_def by metis
  qed simp
  ultimately have "parseline ?n ?b = Done c' []" using c'(1) unfolding extends_def by metis
  then show ?thesis using parsecmd_text [OF show_no_nul [OF assms], of 0 c' "[]"] c'(2) by (simp add: skip_def)
qed

theorem parsecmd_show_witness:
  "show_cmd 0 (LIST (BACK (PIPE (REDIR (EXEC [''cat'']) ''in'' 0 0) (BACK (EXEC [''wc''])))) (EXEC [''ls'', ''dir''])) =
     ''cat <in |(wc &)&;ls dir '' \<and>
   (\<exists>m. parsecmd ''cat <in |(wc &)&;ls dir '' =
     Done (LIST (BACK (PIPE (REDIR (EXEC [''cat'']) ''in'' 0 0) (BACK (EXEC [''wc''])))) (EXEC [''ls'', ''dir''])) m)"
proof -
  let ?c = "LIST (BACK (PIPE (REDIR (EXEC [''cat'']) ''in'' 0 0) (BACK (EXEC [''wc''])))) (EXEC [''ls'', ''dir''])"
  have s: "show_cmd 0 ?c = ''cat <in |(wc &)&;ls dir ''" by (simp add: words_def redir_def paren_def)
  have "can_write ?c" by (simp add: is_word_def redir_ok_def wordch_def whitespace_def symbols_def)
  then show ?thesis using parsecmd_show [of ?c] s by simp
qed

end
