(* ===== verification/Spec2Isabelle.thy ===== *)
theory Spec2Isabelle
  imports VmProps PipeProps ConsoleProps ProcProps Trap ProgramProps ShellProps
begin

text \<open>
  The xv6 kernel with copy-on-write fork, demand paging to swap files, automatic stack growth
  and shared memory pages.
\<close>

end
